(* ===== verification/Prelude.thy ===== *)
theory Prelude
  imports Main "HOL-Library.Word" "HOL-Library.Stream" "HOL-Library.Sublist"
begin

text \<open>
  What every component of the development shares.

  \<^item> the types of the model: C strings (\<open>cstr\<close>), bytes, \<open>size_t\<close> and \<open>time_t\<close> values;
  \<^item> the collections of simplification rules the components add to: \<open>world_simps\<close> for the
    effects on the outside world, \<open>scan_simps\<close> for the input scanner, \<open>table_simps\<close> for the
    hash table;
  \<^item> the generic lemmas on lists, maps and streams that the component proofs use;
  \<^item> arrays whose every access is checked, \<open>fetch\<close> and \<open>put\<close>;
  \<^item> the locale \<open>kept\<close>, invariants of step relations.

  A C string is the list of its bytes without the terminating NUL; a byte is a \<open>char\<close>, which
  in Isabelle has exactly eight bits.
\<close>

named_theorems world_simps \<open>effects on the world when the environment does not fail\<close>
named_theorems scan_simps \<open>evaluation rules of the scanf-style scanner\<close>
named_theorems table_simps \<open>contents of the hash table after an operation\<close>

type_synonym cstr = string
type_synonym u64 = "64 word"
type_synonym time_t = int
type_synonym fd = int

abbreviation NUL :: char where
  "NUL \<equiv> CHR 0x00"

abbreviation NL :: char where
  "NL \<equiv> CHR 0x0A"

abbreviation CR :: char where
  "CR \<equiv> CHR 0x0D"

text \<open>A list of bytes is the contents of a C string when it holds no NUL.\<close>

definition no_nul :: "string \<Rightarrow> bool" where
  "no_nul s \<longleftrightarrow> NUL \<notin> set s"

text \<open>What a C function sees of a character array: the bytes before the first NUL.\<close>

definition c_str :: "string \<Rightarrow> cstr" where
  "c_str s = takeWhile (\<lambda>c. c \<noteq> NUL) s"

text \<open>One binding (\<open>Some\<close>) or removal (\<open>None\<close>) applied to a finite map.\<close>

definition bind_key :: "'k \<times> 'v option \<Rightarrow> ('k \<rightharpoonup> 'v) \<Rightarrow> ('k \<rightharpoonup> 'v)" where
  "bind_key b m = m(fst b := snd b)"

lemma bind_key_pair [simp]: "bind_key (k, b) m = m(k := b)"
  by (simp add: bind_key_def)

subsection \<open>C strings\<close>

lemma no_nul_simps [simp]:
  "no_nul []"
  "no_nul (c # s) \<longleftrightarrow> c \<noteq> NUL \<and> no_nul s"
  "no_nul (s @ t) \<longleftrightarrow> no_nul s \<and> no_nul t"
  by (auto simp: no_nul_def)

lemma c_str_id [simp]: "no_nul s \<Longrightarrow> c_str s = s"
  by (auto simp: c_str_def no_nul_def)

lemma c_str_terminated [simp]: "no_nul s \<Longrightarrow> c_str (s @ NUL # t) = s"
  by (induction s) (auto simp: c_str_def)

lemma no_nul_c_str [simp]: "no_nul (c_str s)"
  by (auto simp: no_nul_def c_str_def dest: set_takeWhileD)

lemma no_nul_mono: "set s \<subseteq> set t \<Longrightarrow> no_nul t \<Longrightarrow> no_nul s"
  by (auto simp: no_nul_def)

lemma no_nul_take [simp]: "no_nul s \<Longrightarrow> no_nul (take n s)"
  by (rule no_nul_mono [OF set_take_subset])

subsection \<open>Prefixes of a concatenation\<close>

text \<open>The length of what a scanner leaves never exceeds what it was given.\<close>

lemma length_dropWhile_le [simp]: "length (dropWhile P s) \<le> length s"
  by (induction s) auto

lemma takeWhile_stop:
  "\<forall>c \<in> set s. P c \<Longrightarrow> (t = [] \<or> \<not> P (hd t)) \<Longrightarrow> takeWhile P (s @ t) = s"
  by (induction s) (cases t; auto)+

lemma takeWhile_all: "\<forall>c \<in> set s. P c \<Longrightarrow> takeWhile P s = s"
  by simp

lemma dropWhile_stop:
  "(t = [] \<or> \<not> P (hd t)) \<Longrightarrow> dropWhile P t = t"
  by (cases t) auto

lemma strict_prefix_appendE:
  assumes "strict_prefix p (xs @ ys)"
  obtains (in_left) "strict_prefix p xs" | (in_right) q where "p = xs @ q" "strict_prefix q ys"
proof (cases "strict_prefix p xs")
  case True
  then show ?thesis by (rule in_left)
next
  case False
  from assms have "prefix p (xs @ ys)" by (simp add: strict_prefix_def)
  then consider "prefix p xs" | q where "p = xs @ q" "prefix q ys"
    by (auto simp: prefix_append)
  then show ?thesis
  proof cases
    case 1
    with False have "p = xs @ []" by (simp add: strict_prefix_def)
    moreover from this assms have "strict_prefix [] ys" by (auto simp: strict_prefix_def)
    ultimately show ?thesis by (rule in_right)
  next
    case (2 q)
    with assms have "strict_prefix q ys" by (auto simp: strict_prefix_def)
    with 2(1) show ?thesis by (rule in_right)
  qed
qed

lemma in_concat_nth: "x \<in> set (concat bs) \<longleftrightarrow> (\<exists>i < length bs. x \<in> set (bs ! i))"
  by (auto simp: in_set_conv_nth [of _ bs]) (metis nth_mem)

lemma option_eqI: "(\<And>x. a = Some x \<longleftrightarrow> b = Some x) \<Longrightarrow> a = b"
  by (cases a; cases b) auto

subsection \<open>Streams of environment outcomes\<close>

lemma sconst_shd [simp]: "shd (sconst x) = x"
  by simp

lemma sconst_stl [simp]: "stl (sconst x) = sconst x"
  by simp

text \<open>A stream of clock readings never runs backwards.\<close>

definition non_decreasing :: "int stream \<Rightarrow> bool" where
  "non_decreasing s \<longleftrightarrow> (\<forall>i j. i \<le> j \<longrightarrow> s !! i \<le> s !! j)"

lemma non_decreasing_stl: "non_decreasing s \<Longrightarrow> non_decreasing (stl s)"
  unfolding non_decreasing_def by (metis Suc_le_mono snth.simps(2))

lemma non_decreasing_shd: "non_decreasing s \<Longrightarrow> shd s \<le> s !! i"
  unfolding non_decreasing_def by (metis le0 snth.simps(1))

lemma non_decreasing_sconst [simp]: "non_decreasing (sconst x)"
  by (simp add: non_decreasing_def)

subsection \<open>Arrays\<close>

text \<open>Reading and writing one element of an array; an access outside has no result.\<close>

definition fetch :: "'a list \<Rightarrow> nat \<Rightarrow> 'a option" where
  "fetch xs i = (if i < length xs then Some (xs ! i) else None)"

definition put :: "'a list \<Rightarrow> nat \<Rightarrow> 'a \<Rightarrow> 'a list option" where
  "put xs i x = (if i < length xs then Some (xs[i := x]) else None)"

lemma fetch_at [simp]: "fetch (xs @ y # ys) (length xs) = Some y"
  by (simp add: fetch_def)

lemma put_at [simp]: "put (xs @ y # ys) (length xs) x = Some (xs @ x # ys)"
  by (simp add: put_def)

subsection \<open>Transition systems\<close>

text \<open>
  A property that every step keeps holds in every state of a run.  The client is a step relation, the worker pool or
  the whole program; it provides the law for one step.
\<close>

locale kept =
  fixes move :: "'s \<Rightarrow> 's \<Rightarrow> bool"
    and good :: "'s \<Rightarrow> bool"
  assumes keeps: "good s \<Longrightarrow> move s s' \<Longrightarrow> good s'"
begin

lemma run_good: "move\<^sup>*\<^sup>* s s' \<Longrightarrow> good s \<Longrightarrow> good s'"
  by (induction rule: rtranclp_induct) (auto intro: keeps)

lemma relpow_good: "(move ^^ n) s s' \<Longrightarrow> good s \<Longrightarrow> good s'"
  by (rule run_good [OF relpowp_imp_rtranclp])

end

end
