(* ===== verification/Framing.thy ===== *)
theory Framing
  imports Prelude
begin

text \<open>
  From received bytes to command lines: the per-client buffer of \<^verbatim>\<open>src/server.c\<close>.

  A buffer is the \<^verbatim>\<open>char\<close> array itself, a list of \<open>BUFFER_SIZE\<close> bytes, with the count that
  \<open>client_buffer_lengths\<close> keeps for it.  Copies are checked: an access outside an array is \<open>None\<close>.  What the
  network and the pool answer is a part of the argument \<open>net\<close>: the outcomes of the next calls of \<^verbatim>\<open>send\<close> and of
  \<open>worker_pool_submit\<close>.  The handlers return what they did to the outside as a list of effects.  The
  lemmas show that the arrays are never left and that the loop is a line splitter.
\<close>

definition buffer_size :: nat where
  "buffer_size = 1024"

subsection \<open>Arrays\<close>

text \<open>\<^verbatim>\<open>memcpy\<close> or \<^verbatim>\<open>memmove\<close> out of an array and into one.\<close>

definition load_bytes :: "string \<Rightarrow> nat \<Rightarrow> nat \<Rightarrow> string option" where
  "load_bytes b off n = (if off + n \<le> length b then Some (take n (drop off b)) else None)"

definition store_bytes :: "string \<Rightarrow> nat \<Rightarrow> string \<Rightarrow> string option" where
  "store_bytes b off src =
     (if off + length src \<le> length b then Some (take off b @ src @ drop (off + length src) b) else None)"

text \<open>\<^verbatim>\<open>strchr\<close> on an array: the index found, \<open>Some None\<close> at a NUL before, \<open>None\<close> when it leaves the array.\<close>

fun strchr :: "char \<Rightarrow> string \<Rightarrow> nat option option" where
  "strchr c [] = None"
| "strchr c (x # xs) =
     (if x = c then Some (Some 0) else if x = NUL then Some None else map_option (map_option Suc) (strchr c xs))"

subsection \<open>Sending\<close>

text \<open>The outcome of one \<^verbatim>\<open>send\<close>: how many bytes it takes at most, \<^verbatim>\<open>EINTR\<close>, or another error.\<close>

datatype send_event = Sent nat | Interrupted | Send_failed

text \<open>
  The loop of \<open>send_all\<close> from \<open>total_sent\<close> on: the result, how many bytes were handed over, and the outcomes that
  are left.  It need not end: an endless series of interrupts is \<open>None\<close>.
\<close>

partial_function (option) send_all ::
  "string \<Rightarrow> nat \<Rightarrow> send_event stream \<Rightarrow> (bool \<times> nat \<times> send_event stream) option" where
  "send_all data total_sent evs =
     (if total_sent < length data then
        (case shd evs of
           Interrupted \<Rightarrow> send_all data total_sent (stl evs)
         | Send_failed \<Rightarrow> Some (False, total_sent, stl evs)
         | Sent k \<Rightarrow> send_all data (total_sent + min k (length data - total_sent)) (stl evs))
      else Some (True, total_sent, evs))"

subsection \<open>The handlers of one client\<close>

datatype effect =
    Opened fd
  | Queued fd cstr
  | Refused fd cstr
  | Wrote fd string
  | Closed fd

record net =
  replies :: "send_event stream"
  submits :: "bool stream"

definition tell :: "fd \<Rightarrow> string \<Rightarrow> net \<Rightarrow> (net \<times> effect list) option" where
  "tell fd msg net =
     (case send_all msg 0 (replies net) of
        None \<Rightarrow> None
      | Some (ok, total_sent, evs) \<Rightarrow> Some (net\<lparr>replies := evs\<rparr>, [Wrote fd (take total_sent msg)]))"

definition submit_line :: "fd \<Rightarrow> cstr \<Rightarrow> net \<Rightarrow> (net \<times> effect list) option" where
  "submit_line fd cmd net =
     (let ok = shd (submits net); net = net\<lparr>submits := stl (submits net)\<rparr> in
      if \<not> ok then
        map_option (\<lambda>(net, es). (net, Refused fd cmd # es)) (tell fd (''ERR failed to queue command'' @ [NL]) net)
      else Some (net, [Queued fd cmd]))"

text \<open>The loop over the newlines in the buffer \<open>b\<close> with \<open>n\<close> bytes in use.\<close>

function frame_loop ::
  "fd \<Rightarrow> string \<Rightarrow> nat \<Rightarrow> net \<Rightarrow> (string \<times> nat \<times> net \<times> effect list) option" where
  "frame_loop fd b n net =
     (case strchr NL b of
        None \<Rightarrow> None
      | Some None \<Rightarrow> Some (b, n, net, [])
      | Some (Some newline) \<Rightarrow>
          let command_length = (if 0 < newline \<and> b ! (newline - 1) = CR then newline - 1 else newline) in
          if buffer_size \<le> command_length then None
          else
            (case load_bytes b 0 command_length of
               None \<Rightarrow> None
             | Some command \<Rightarrow>
                 (case submit_line fd command net of
                    None \<Rightarrow> None
                  | Some (net, es) \<Rightarrow>
                      let consumed = newline + 1; remaining = n - consumed in
                      if n < consumed then None
                      else
                        (case load_bytes b consumed remaining of
                           None \<Rightarrow> None
                         | Some tail_bytes \<Rightarrow>
                             (case store_bytes b 0 tail_bytes of
                                None \<Rightarrow> None
                              | Some b \<Rightarrow>
                                  (case store_bytes b remaining [NUL] of
                                     None \<Rightarrow> None
                                   | Some b \<Rightarrow>
                                       map_option (\<lambda>(b, n, net, es'). (b, n, net, es @ es'))
                                         (frame_loop fd b remaining net)))))))"
  by auto
termination by (relation "measure (\<lambda>(fd, b, n, net). n)") auto

declare frame_loop.simps [simp del]

text \<open>A client: the entry of \<open>client_fds\<close>, \<open>client_buffers\<close> and \<open>client_buffer_lengths\<close> at one index.\<close>

record client_slot =
  slot_fd :: fd
  buf :: string
  len :: nat

text \<open>What happens to the bytes of one successful \<^verbatim>\<open>recv\<close>.\<close>

definition receive_bytes :: "string \<Rightarrow> client_slot \<Rightarrow> net \<Rightarrow> (client_slot \<times> net \<times> effect list) option" where
  "receive_bytes bytes c net =
     (if buffer_size \<le> len c + length bytes then
        (case tell (slot_fd c) (''ERR command too long'' @ [NL]) net of
           None \<Rightarrow> None
         | Some (net, es) \<Rightarrow>
             map_option (\<lambda>b. (c\<lparr>buf := b, len := 0\<rparr>, net, es)) (store_bytes (buf c) 0 [NUL]))
      else
        (case store_bytes (buf c) (len c) bytes of
           None \<Rightarrow> None
         | Some b \<Rightarrow>
             let n = len c + length bytes in
             (case store_bytes b n [NUL] of
                None \<Rightarrow> None
              | Some b \<Rightarrow>
                  map_option (\<lambda>(b, n, net, es). (c\<lparr>buf := b, len := n\<rparr>, net, es))
                    (frame_loop (slot_fd c) b n net))))"

subsection \<open>The reference: lines of a text\<close>

text \<open>The complete lines, without their newlines, and what follows the last newline.\<close>

fun split_lines :: "string \<Rightarrow> string list \<times> string" where
  "split_lines [] = ([], [])"
| "split_lines (c # cs) =
     (case split_lines cs of
        (ls, rest) \<Rightarrow>
          if c = NL then ([] # ls, rest)
          else (case ls of [] \<Rightarrow> ([], c # rest) | l # ls \<Rightarrow> ((c # l) # ls, rest)))"

definition strip_cr :: "string \<Rightarrow> string" where
  "strip_cr l = (if l \<noteq> [] \<and> last l = CR then butlast l else l)"

definition command_lines :: "string \<Rightarrow> cstr list" where
  "command_lines s = map strip_cr (fst (split_lines s))"

definition pending_text :: "string \<Rightarrow> string" where
  "pending_text s = snd (split_lines s)"

lemma split_lines_no_newline: "NL \<notin> set s \<Longrightarrow> split_lines s = ([], s)"
  by (induction s) auto

lemma split_lines_newline: "NL \<notin> set x \<Longrightarrow> split_lines (x @ NL # y) = (x # fst (split_lines y), snd (split_lines y))"
  by (induction x) (auto split: prod.split)

lemma split_lines_append:
  "split_lines (a @ b) = (fst (split_lines a) @ fst (split_lines (snd (split_lines a) @ b)),
     snd (split_lines (snd (split_lines a) @ b)))"
proof (induction a)
  case (Cons c a)
  obtain ls r where a: "split_lines a = (ls, r)" by fastforce
  obtain ls' r' where b: "split_lines (r @ b) = (ls', r')" by fastforce
  show ?case
  proof (cases "c = NL \<or> ls \<noteq> []")
    case True
    with a b Cons show ?thesis by (cases ls) auto
  next
    case False
    with a b Cons show ?thesis by simp
  qed
qed simp

lemma pending_no_newline: "NL \<notin> set (pending_text s)"
  unfolding pending_text_def by (induction s) (auto split: prod.splits list.splits)

lemma pending_subset: "set (pending_text s) \<subseteq> set s"
  unfolding pending_text_def by (induction s) (auto split: prod.splits list.splits)

lemma command_lines_simps:
  "NL \<notin> set s \<Longrightarrow> command_lines s = [] \<and> pending_text s = s"
  "NL \<notin> set x \<Longrightarrow> command_lines (x @ NL # y) = strip_cr x # command_lines y"
  "NL \<notin> set x \<Longrightarrow> pending_text (x @ NL # y) = pending_text y"
  by (simp_all add: command_lines_def pending_text_def split_lines_no_newline split_lines_newline)

lemma lines_append:
  "command_lines (a @ b) = command_lines a @ command_lines (pending_text a @ b)"
  "pending_text (a @ b) = pending_text (pending_text a @ b)"
  unfolding command_lines_def pending_text_def by (subst split_lines_append, simp)+

subsection \<open>A network that makes progress\<close>

fun makes_progress :: "send_event \<Rightarrow> bool" where
  "makes_progress (Sent k) = (0 < k)"
| "makes_progress Interrupted = False"
| "makes_progress Send_failed = True"

definition fair_sends :: "send_event stream \<Rightarrow> bool" where
  "fair_sends evs \<longleftrightarrow> (\<forall>k. \<exists>j \<ge> k. makes_progress (evs !! j))"

abbreviation fair :: "net \<Rightarrow> bool" where
  "fair net \<equiv> fair_sends (replies net)"

lemma fair_stl: "fair_sends evs \<Longrightarrow> fair_sends (stl evs)"
  unfolding fair_sends_def by (metis Suc_le_D Suc_le_mono snth.simps(2))

definition sends_finish :: "string \<Rightarrow> nat \<Rightarrow> send_event stream \<Rightarrow> bool" where
  "sends_finish data t evs \<longleftrightarrow> (\<exists>ok n evs'. send_all data t evs = Some (ok, n, evs') \<and> fair_sends evs'
     \<and> n \<le> length data \<and> (ok \<longleftrightarrow> n = length data))"

lemma send_all_returns_from:
  "t \<le> length data \<Longrightarrow> fair_sends evs \<Longrightarrow> sends_finish data t evs"
proof (induction "length data - t" arbitrary: t evs rule: less_induct)
  case (less t evs)
  show ?case
  proof (cases "t < length data")
    case False
    then show ?thesis using less.prems unfolding sends_finish_def by (subst send_all.simps) auto
  next
    case more: True
    have go: "sends_finish data t evs" if "fair_sends evs" "makes_progress (shd evs)" for evs
    proof (cases "shd evs")
      case (Sent k)
      let ?t = "t + min k (length data - t)"
      have "sends_finish data ?t (stl evs)" using less.hyps [of ?t "stl evs"] fair_stl [OF that(1)] more Sent that(2) by simp
      with Sent more show ?thesis unfolding sends_finish_def by (subst send_all.simps) simp
    next
      case Interrupted
      with that show ?thesis by simp
    next
      case Send_failed
      with more fair_stl [OF that(1)] show ?thesis unfolding sends_finish_def by (subst send_all.simps) auto
    qed
    have "fair_sends evs \<Longrightarrow> makes_progress (evs !! j) \<Longrightarrow> sends_finish data t evs" for j evs
    proof (induction j arbitrary: evs)
      case (Suc j)
      show ?case
      proof (cases "makes_progress (shd evs)")
        case False
        have "sends_finish data t (stl evs)" using Suc.IH [OF fair_stl [OF Suc.prems(1)]] Suc.prems(2) by simp
        moreover have "send_all data t evs = send_all data t (stl evs)" using False more
          by (subst send_all.simps) (auto split: send_event.split)
        ultimately show ?thesis by (simp add: sends_finish_def)
      qed (use go Suc.prems(1) in blast)
    qed (simp add: go)
    with less.prems(2) show ?thesis unfolding fair_sends_def by blast
  qed
qed

lemma send_all_returns:
  assumes "fair_sends evs"
  shows "\<exists>ok n evs'. send_all data 0 evs = Some (ok, n, evs') \<and> fair_sends evs' \<and> n \<le> length data
     \<and> (ok \<longleftrightarrow> n = length data)"
  using send_all_returns_from [OF _ assms, of 0 data] by (simp add: sends_finish_def)

lemma tell_returns:
  assumes "fair net"
  shows "\<exists>net' out. tell fd msg net = Some (net', [Wrote fd out]) \<and> fair net' \<and> prefix out msg \<and> submits net' = submits net"
  using send_all_returns [OF assms, of msg] by (auto simp: tell_def take_is_prefix)

subsection \<open>Arrays: lemmas\<close>

lemma load_bytes_mid: "load_bytes (x @ y @ z) (length x) (length y) = Some y"
  by (simp add: load_bytes_def)

lemma store_bytes_some:
  "off + length src \<le> length b \<Longrightarrow>
   \<exists>b'. store_bytes b off src = Some b' \<and> length b' = length b \<and> take off b' = take off b
     \<and> b' = take off b @ src @ drop (off + length src) b"
  by (auto simp: store_bytes_def)

lemma strchr_terminated:
  "strchr c (s @ NUL # d) = Some (if c \<in> set (c_str s) then Some (length (takeWhile (\<lambda>x. x \<noteq> c) s)) else None)"
  if "c \<noteq> NUL"
  using that by (induction s) (auto simp: c_str_def)

text \<open>A buffer that holds the text \<open>s\<close> and its terminating NUL.\<close>

definition holds :: "string \<Rightarrow> string \<Rightarrow> bool" where
  "holds b s \<longleftrightarrow> length b = buffer_size \<and> prefix (s @ [NUL]) b"

lemma holdsE:
  assumes "holds b s"
  obtains d where "b = s @ NUL # d" "length s < buffer_size" "length b = buffer_size"
proof -
  from assms obtain d where "b = (s @ [NUL]) @ d" "length b = buffer_size" by (auto simp: holds_def elim: prefixE)
  then show ?thesis by (intro that [of d]) auto
qed

lemma holds_append:
  assumes "holds b s" "length s + length d < buffer_size"
  shows "\<exists>b1 b2. store_bytes b (length s) d = Some b1 \<and> store_bytes b1 (length s + length d) [NUL] = Some b2
    \<and> holds b2 (s @ d)"
  using assms by (auto simp: holds_def store_bytes_def prefix_def)

text \<open>Moving the rest of the text to the front.\<close>

lemma holds_shift:
  assumes "holds b (x @ NL # y)"
  shows "load_bytes b (length x + 1) (length (x @ NL # y) - (length x + 1)) = Some y
    \<and> (\<exists>b1 b2. store_bytes b 0 y = Some b1 \<and> store_bytes b1 (length y) [NUL] = Some b2 \<and> holds b2 y)"
proof -
  from assms obtain d where d: "b = (x @ NL # y) @ NUL # d" "length b = buffer_size" by (rule holdsE)
  then have "load_bytes b (length x + 1) (length y) = Some y"
    using load_bytes_mid [of "x @ [NL]" y "NUL # d"] by simp
  moreover have "\<exists>b1 b2. store_bytes b 0 y = Some b1 \<and> store_bytes b1 (length y) [NUL] = Some b2 \<and> holds b2 y"
    using d by (auto simp: store_bytes_def holds_def prefix_def)
  ultimately show ?thesis by simp
qed

subsection \<open>The loop splits lines\<close>

text \<open>The lines that were given to the pool, accepted or not.\<close>

fun lines_of :: "effect list \<Rightarrow> (fd \<times> cstr) list" where
  "lines_of [] = []"
| "lines_of (Queued fd c # es) = (fd, c) # lines_of es"
| "lines_of (Refused fd c # es) = (fd, c) # lines_of es"
| "lines_of (e # es) = lines_of es"

lemma lines_of_append [simp]: "lines_of (es @ es') = lines_of es @ lines_of es'"
  by (induction es rule: lines_of.induct) simp_all

text \<open>Effects that open and close nothing.\<close>

fun chatter :: "effect \<Rightarrow> bool" where
  "chatter (Opened fd) = False"
| "chatter (Closed fd) = False"
| "chatter _ = True"

lemma submit_line_returns:
  assumes "fair net"
  shows "\<exists>net' es. submit_line fd c net = Some (net', es) \<and> fair net' \<and> lines_of es = [(fd, c)] \<and> list_all chatter es"
  using assms tell_returns [of "net\<lparr>submits := stl (submits net)\<rparr>" fd "''ERR failed to queue command'' @ [NL]"]
  by (auto simp: submit_line_def Let_def)

text \<open>What is left in the buffer: the text after the last newline the loop can see, and from a NUL on everything.\<close>

definition rest_text :: "string \<Rightarrow> string" where
  "rest_text s = pending_text (c_str s) @ drop (length (c_str s)) s"

lemma rest_text_no_nul [simp]: "no_nul s \<Longrightarrow> rest_text s = pending_text s"
  by (simp add: rest_text_def)

lemma c_str_split: "c_str s @ drop (length (c_str s)) s = s"
  by (simp add: c_str_def dropWhile_eq_drop [symmetric])

lemma first_newline:
  assumes "NL \<in> set (c_str s)"
  obtains x y where "s = x @ NL # y" "NL \<notin> set x" "no_nul x" "length (takeWhile (\<lambda>c. c \<noteq> NL) s) = length x"
proof -
  obtain x y' where x: "c_str s = x @ NL # y'" "NL \<notin> set x" using split_list_first [OF assms] by blast
  then have "no_nul (x @ NL # y')" using no_nul_c_str [of s] by simp
  then have nn: "no_nul x" by simp
  from c_str_split [of s] x(1) have sx: "s = x @ NL # (y' @ drop (length (c_str s)) s)" by simp
  have "takeWhile (\<lambda>c. c \<noteq> NL) (x @ NL # z) = x" for z using x(2) by (induction x) auto
  then have "takeWhile (\<lambda>c. c \<noteq> NL) s = x" using sx by metis
  with that [OF sx x(2) nn] show ?thesis by simp
qed

lemma c_str_line: "no_nul x \<Longrightarrow> c_str (x @ NL # y) = x @ NL # c_str y"
  by (induction x) (auto simp: c_str_def)

lemma strip_cr_length:
  "x @ z = b \<Longrightarrow> z \<noteq> [] \<Longrightarrow> load_bytes b 0 (if 0 < length x \<and> b ! (length x - 1) = CR then length x - 1 else length x) = Some (strip_cr x)"
  by (cases x rule: rev_cases) (auto simp: load_bytes_def strip_cr_def nth_append)

lemma frame_loop_splits:
  "holds b s \<Longrightarrow> fair net \<Longrightarrow>
   \<exists>b' net' es. frame_loop fd b (length s) net = Some (b', length (rest_text s), net', es) \<and> holds b' (rest_text s)
     \<and> fair net' \<and> lines_of es = map (Pair fd) (command_lines (c_str s)) \<and> list_all chatter es"
proof (induction "length s" arbitrary: b s net rule: less_induct)
  case (less s b net)
  from less.prems(1) obtain d where d: "b = s @ NUL # d" "length s < buffer_size" "length b = buffer_size" by (rule holdsE)
  have find: "strchr NL b = Some (if NL \<in> set (c_str s) then Some (length (takeWhile (\<lambda>x. x \<noteq> NL) s)) else None)"
    unfolding d(1) by (rule strchr_terminated) simp
  show ?case
  proof (cases "NL \<in> set (c_str s)")
    case False
    then have "command_lines (c_str s) = []" "rest_text s = s"
      using command_lines_simps(1) [OF False] by (simp_all add: rest_text_def c_str_split)
    with False find less.prems show ?thesis by (subst frame_loop.simps) simp
  next
    case True
    then obtain x y where x: "s = x @ NL # y" "NL \<notin> set x" "no_nul x" "length (takeWhile (\<lambda>c. c \<noteq> NL) s) = length x"
      by (rule first_newline)
    let ?n = "if 0 < length x \<and> b ! (length x - 1) = CR then length x - 1 else length x"
    have small: "\<not> buffer_size \<le> ?n" using d(2) x(1) by auto
    have line: "load_bytes b 0 ?n = Some (strip_cr x)" using strip_cr_length [of x "NL # y @ NUL # d" b] d(1) x(1) by simp
    obtain net1 es1 where net1: "submit_line fd (strip_cr x) net = Some (net1, es1)" "fair net1" "lines_of es1 = [(fd, strip_cr x)]"
        "list_all chatter es1"
      using submit_line_returns [OF less.prems(2)] by blast
    from holds_shift [of b x y] less.prems(1) x(1) obtain b1 b2 where
      b: "load_bytes b (length x + 1) (length s - (length x + 1)) = Some y" "store_bytes b 0 y = Some b1"
        "store_bytes b1 (length y) [NUL] = Some b2" "holds b2 y" by auto
    have len: "length s - (length x + 1) = length y" "\<not> length s < length x + 1" "length y < length s" using x(1) by simp_all
    from less.hyps [OF len(3) b(4) net1(2)] obtain b' net' es where
      r: "frame_loop fd b2 (length y) net1 = Some (b', length (rest_text y), net', es)" "holds b' (rest_text y)"
        "fair net'" "lines_of es = map (Pair fd) (command_lines (c_str y))" "list_all chatter es" by blast
    have "rest_text s = rest_text y" "command_lines (c_str s) = strip_cr x # command_lines (c_str y)"
      using x command_lines_simps(2,3) [OF x(2)] by (simp_all add: rest_text_def c_str_line)
    moreover have "frame_loop fd b (length s) net = Some (b', length (rest_text y), net', es1 @ es)"
      using True find x(4) small line net1(1) b(1-3) len(1,2) r(1)
      by (subst frame_loop.simps) (simp add: Let_def del: if_split_asm split del: if_split)
    ultimately show ?thesis using r(2-5) net1(3,4) by simp
  qed
qed

subsection \<open>One receive and a sequence of receives\<close>

definition slot_text :: "client_slot \<Rightarrow> string" where
  "slot_text c = take (len c) (buf c)"

definition slot_ok :: "client_slot \<Rightarrow> bool" where
  "slot_ok c \<longleftrightarrow> holds (buf c) (slot_text c) \<and> len c = length (slot_text c)"

lemma slot_okI: "holds b s \<Longrightarrow> slot_ok (c\<lparr>buf := b, len := length s\<rparr>) \<and> slot_text (c\<lparr>buf := b, len := length s\<rparr>) = s"
  by (auto simp: slot_ok_def slot_text_def holds_def prefix_def)

lemma slot_ok_length: "slot_ok c \<Longrightarrow> len c < buffer_size"
  unfolding slot_ok_def by (metis holdsE)

text \<open>The two outcomes: the bytes do not fit and everything is dropped, or the lines are split off.\<close>

lemma receive_too_long:
  assumes "slot_ok c" "fair net" "buffer_size \<le> len c + length bytes"
  shows "\<exists>c' net' out. receive_bytes bytes c net = Some (c', net', [Wrote (slot_fd c) out]) \<and> slot_ok c'
    \<and> slot_text c' = [] \<and> slot_fd c' = slot_fd c \<and> fair net' \<and> prefix out (''ERR command too long'' @ [NL])"
proof -
  obtain net' out where t: "tell (slot_fd c) (''ERR command too long'' @ [NL]) net = Some (net', [Wrote (slot_fd c) out])"
    "fair net'" "prefix out (''ERR command too long'' @ [NL])" using tell_returns [OF assms(2)] by blast
  have l: "length (buf c) = buffer_size" using assms(1) by (simp add: slot_ok_def holds_def)
  then obtain b where b: "store_bytes (buf c) 0 [NUL] = Some b" "b = NUL # drop 1 (buf c)"
    by (simp add: store_bytes_def buffer_size_def)
  then have "holds b []" using l by (simp add: holds_def buffer_size_def)
  from slot_okI [OF this, of c] t b(1) assms(3) show ?thesis by (auto simp: receive_bytes_def)
qed

lemma receive_fits:
  assumes "slot_ok c" "fair net" "len c + length bytes < buffer_size"
  shows "\<exists>c' net' es. receive_bytes bytes c net = Some (c', net', es) \<and> slot_ok c'
    \<and> slot_text c' = rest_text (slot_text c @ bytes) \<and> slot_fd c' = slot_fd c \<and> fair net'
    \<and> lines_of es = map (Pair (slot_fd c)) (command_lines (c_str (slot_text c @ bytes))) \<and> list_all chatter es"
proof -
  let ?s = "slot_text c @ bytes"
  have c: "holds (buf c) (slot_text c)" "len c = length (slot_text c)" using assms(1) by (simp_all add: slot_ok_def)
  from holds_append [OF c(1), of bytes] assms(3) c(2) obtain b1 b2 where
    b: "store_bytes (buf c) (len c) bytes = Some b1" "store_bytes b1 (len c + length bytes) [NUL] = Some b2" "holds b2 ?s"
    by auto
  from frame_loop_splits [OF b(3) assms(2), of "slot_fd c"] obtain b' net' es where
    f: "frame_loop (slot_fd c) b2 (length ?s) net = Some (b', length (rest_text ?s), net', es)" "holds b' (rest_text ?s)"
      "fair net'" "lines_of es = map (Pair (slot_fd c)) (command_lines (c_str ?s))" "list_all chatter es" by blast
  have "len c + length bytes = length ?s" using c(2) by simp
  then have "receive_bytes bytes c net = Some (c\<lparr>buf := b', len := length (rest_text ?s)\<rparr>, net', es)"
    using b(1,2) f(1) assms(3) by (simp add: receive_bytes_def Let_def)
  with slot_okI [OF f(2), of c] f(3-5) show ?thesis by auto
qed

lemma receive_ok:
  assumes "slot_ok c" "fair net"
  shows "\<exists>c' net' es. receive_bytes bytes c net = Some (c', net', es) \<and> slot_ok c' \<and> slot_fd c' = slot_fd c \<and> fair net'"
  using receive_too_long [OF assms, of bytes] receive_fits [OF assms, of bytes] by (meson not_le)

fun receive_chunks :: "string list \<Rightarrow> client_slot \<Rightarrow> net \<Rightarrow> (client_slot \<times> net \<times> effect list) option" where
  "receive_chunks [] c net = Some (c, net, [])"
| "receive_chunks (bytes # chunks) c net =
     (case receive_bytes bytes c net of
        None \<Rightarrow> None
      | Some (c, net, es) \<Rightarrow> map_option (\<lambda>(c, net, es'). (c, net, es @ es')) (receive_chunks chunks c net))"

text \<open>Every chunk fits behind what is pending when it arrives.\<close>

fun chunks_fit :: "string \<Rightarrow> string list \<Rightarrow> bool" where
  "chunks_fit p [] \<longleftrightarrow> True"
| "chunks_fit p (bytes # chunks) \<longleftrightarrow>
     length p + length bytes < buffer_size \<and> chunks_fit (pending_text (p @ bytes)) chunks"

lemma no_nul_pending: "no_nul s \<Longrightarrow> no_nul (pending_text s)"
  using pending_subset by (rule no_nul_mono)

lemma receive_chunks_lines:
  "slot_ok c \<Longrightarrow> fair net \<Longrightarrow> no_nul (slot_text c) \<Longrightarrow> NL \<notin> set (slot_text c) \<Longrightarrow> \<forall>d \<in> set chunks. no_nul d \<Longrightarrow>
   chunks_fit (slot_text c) chunks \<Longrightarrow>
   \<exists>c' net' es. receive_chunks chunks c net = Some (c', net', es) \<and> slot_ok c' \<and> slot_fd c' = slot_fd c \<and> fair net'
     \<and> slot_text c' = pending_text (slot_text c @ concat chunks)
     \<and> lines_of es = map (Pair (slot_fd c)) (command_lines (slot_text c @ concat chunks))"
proof (induction chunks arbitrary: c net)
  case Nil
  then show ?case using command_lines_simps(1) [OF Nil.prems(4)] by simp
next
  case (Cons d chunks)
  let ?s = "slot_text c @ d"
  have n: "no_nul ?s" using Cons.prems(3,5) by simp
  have "len c + length d < buffer_size" using Cons.prems(1,6) by (simp add: slot_ok_def)
  from receive_fits [OF Cons.prems(1,2) this] n obtain c1 net1 es1 where
    r: "receive_bytes d c net = Some (c1, net1, es1)" "slot_ok c1" "slot_text c1 = pending_text ?s"
      "slot_fd c1 = slot_fd c" "fair net1" "lines_of es1 = map (Pair (slot_fd c)) (command_lines ?s)" by auto
  have "no_nul (slot_text c1)" "NL \<notin> set (slot_text c1)"
    using r(3) no_nul_pending [OF n] pending_no_newline by simp_all
  from Cons.IH [OF r(2,5) this] Cons.prems(5,6) r(3) obtain c' net' es where
    rs: "receive_chunks chunks c1 net1 = Some (c', net', es)" "slot_ok c'" "slot_fd c' = slot_fd c" "fair net'"
      "slot_text c' = pending_text (pending_text ?s @ concat chunks)"
      "lines_of es = map (Pair (slot_fd c)) (command_lines (pending_text ?s @ concat chunks))"
    by (auto simp: r(4))
  show ?case using r rs lines_append [of ?s "concat chunks"] by simp
qed

lemma split_lines_length:
  "(\<forall>l \<in> set (fst (split_lines s)). length l < length s) \<and> length (snd (split_lines s)) \<le> length s"
proof (induction s)
  case (Cons c s)
  show ?case
  proof (cases "split_lines s")
    case (Pair ls r)
    with Cons show ?thesis by (cases ls) (auto simp: less_Suc_eq)
  qed
qed simp

lemma command_lines_length: "l \<in> set (command_lines s) \<Longrightarrow> length l < length s"
proof -
  have "length (strip_cr x) \<le> length x" for x by (simp add: strip_cr_def)
  then show "l \<in> set (command_lines s) \<Longrightarrow> length l < length s"
    using split_lines_length [of s] unfolding command_lines_def by (fastforce intro: le_less_trans)
qed

lemma split_lines_subset: "\<forall>l \<in> set (fst (split_lines s)). set l \<subseteq> set s"
proof (induction s)
  case (Cons c s)
  show ?case
  proof (cases "split_lines s")
    case (Pair ls r)
    with Cons show ?thesis by (cases ls) auto
  qed
qed simp

lemma command_lines_no_nul: "no_nul s \<Longrightarrow> l \<in> set (command_lines s) \<Longrightarrow> no_nul l"
proof -
  have "set (strip_cr x) \<subseteq> set x" for x by (auto simp: strip_cr_def dest: in_set_butlastD)
  then show "no_nul s \<Longrightarrow> l \<in> set (command_lines s) \<Longrightarrow> no_nul l"
    unfolding command_lines_def no_nul_def using split_lines_subset [of s] by fastforce
qed

subsection \<open>Properties\<close>

definition empty_slot :: "fd \<Rightarrow> client_slot" where
  "empty_slot fd = \<lparr>slot_fd = fd, buf = replicate buffer_size NUL, len = 0\<rparr>"

definition calm_net :: net where
  "calm_net = \<lparr>replies = sconst (Sent 1000), submits = sconst True\<rparr>"

lemma empty_slot_ok [simp]: "slot_ok (empty_slot fd)" "slot_text (empty_slot fd) = []" "len (empty_slot fd) = 0"
  "slot_fd (empty_slot fd) = fd"
proof -
  have "replicate buffer_size NUL = [NUL] @ replicate 1023 NUL"
    by (simp add: buffer_size_def flip: replicate_Suc)
  then show "slot_ok (empty_slot fd)" by (simp add: empty_slot_def slot_ok_def slot_text_def holds_def buffer_size_def)
qed (simp_all add: empty_slot_def slot_text_def)

lemma calm_net_fair [simp]: "fair calm_net"
  by (auto simp: calm_net_def fair_sends_def)

text \<open>
  C8: the framing of a client's bytes is line splitting, whatever the segments they arrive in.  As long as the bytes hold
  no NUL and every segment fits behind what is pending, the loop gives the pool exactly the lines of the
  whole text, in order and each once, without the line ends \<open>\n\<close> or \<open>\r\n\<close>, and keeps what follows the last newline.
\<close>

theorem framing_splits_lines:
  assumes "slot_ok c" "fair net" "no_nul (slot_text c)" "NL \<notin> set (slot_text c)"
    and "\<forall>d \<in> set chunks. no_nul d" "chunks_fit (slot_text c) chunks"
  shows "\<exists>c' net' es. receive_chunks chunks c net = Some (c', net', es)
    \<and> lines_of es = map (Pair (slot_fd c)) (command_lines (slot_text c @ concat chunks))
    \<and> slot_ok c' \<and> slot_text c' = pending_text (slot_text c @ concat chunks)"
  using receive_chunks_lines [OF assms] by blast

theorem framing_splits_lines_witness:
  "\<exists>c' net' es. receive_chunks [''GET'', '' a'' @ [CR], [NL] @ ''PING'' @ [NL] @ ''SE''] (empty_slot 7) calm_net = Some (c', net', es)
    \<and> lines_of es = [(7, ''GET a''), (7, ''PING'')] \<and> slot_text c' = ''SE''"
proof -
  have "chunks_fit [] [''GET'', '' a'' @ [CR], [NL] @ ''PING'' @ [NL] @ ''SE'']"
    by (simp add: buffer_size_def pending_text_def)
  from framing_splits_lines [of "empty_slot 7" calm_net "[''GET'', '' a'' @ [CR], [NL] @ ''PING'' @ [NL] @ ''SE'']"] this
  show ?thesis by (auto simp: command_lines_def pending_text_def strip_cr_def)
qed

text \<open>
  C22: the buffer is never left.  Whatever bytes arrive, in segments of any length, NUL bytes and overlong lines included, on a network that
  makes progress every \<open>recv\<close> is handled to its end without an access outside an array, and afterwards the buffer
  holds fewer than 1024 bytes and its terminating NUL.
\<close>

theorem buffer_stays_in_bounds:
  assumes "slot_ok c" "fair net"
  shows "\<exists>c' net' es. receive_chunks chunks c net = Some (c', net', es) \<and> slot_ok c' \<and> len c' < 1024
    \<and> buf c' ! len c' = NUL \<and> length (buf c') = 1024"
proof -
  have "\<exists>c' net' es. receive_chunks chunks c net = Some (c', net', es) \<and> slot_ok c'"
    using assms
  proof (induction chunks arbitrary: c net)
    case (Cons d chunks)
    from receive_ok [OF Cons.prems] obtain c1 net1 es1 where
      "receive_bytes d c net = Some (c1, net1, es1)" "slot_ok c1" "fair net1" by blast
    with Cons.IH [of c1 net1] show ?case by auto
  qed simp
  then obtain c' net' es where r: "receive_chunks chunks c net = Some (c', net', es)" "slot_ok c'" by blast
  from r(2) obtain d where "buf c' = slot_text c' @ NUL # d" "length (buf c') = buffer_size" "len c' = length (slot_text c')"
    unfolding slot_ok_def by (metis holdsE)
  moreover have "len c' < buffer_size" using r(2) by (rule slot_ok_length)
  ultimately show ?thesis using r by (auto simp: buffer_size_def nth_append)
qed

theorem buffer_stays_in_bounds_witness:
  "\<exists>c' net' es. receive_chunks [replicate 900 (CHR ''x''), replicate 900 (CHR ''y''), [NUL, NL]] (empty_slot 7) calm_net
     = Some (c', net', es) \<and> len c' < 1024 \<and> buf c' ! len c' = NUL"
  using buffer_stays_in_bounds [of "empty_slot 7" calm_net "[replicate 900 (CHR ''x''), replicate 900 (CHR ''y''), [NUL, NL]]"]
  by auto

text \<open>
  C31: \<open>send_all\<close> sends everything.  When \<^verbatim>\<open>send\<close> makes progress again and again, between any number of interrupts and partial
  sends, the loop ends; it reports success exactly when all bytes were handed over.
\<close>

theorem send_all_sends_all:
  assumes "fair_sends evs"
  shows "\<exists>ok n evs'. send_all data 0 evs = Some (ok, n, evs') \<and> n \<le> length data \<and> (ok \<longleftrightarrow> n = length data)"
  using send_all_returns [OF assms, of data] by blast

theorem send_all_sends_all_witness:
  "\<exists>evs'. send_all ''PONG'' 0 (Sent 1 ## Interrupted ## Sent 2 ## sconst (Sent 9)) = Some (True, 4, evs')"
proof -
  have "fair_sends (Sent 1 ## Interrupted ## Sent 2 ## sconst (Sent 9))"
    unfolding fair_sends_def
  proof
    fix k
    have "makes_progress ((Sent 1 ## Interrupted ## Sent 2 ## sconst (Sent 9)) !! (3 + k))" by (simp add: numeral_eq_Suc)
    then show "\<exists>j \<ge> k. makes_progress ((Sent 1 ## Interrupted ## Sent 2 ## sconst (Sent 9)) !! j)"
      by (intro exI [of _ "3 + k"]) simp
  qed
  from send_all_sends_all [OF this, of "''PONG''"] obtain ok n evs' where
    r: "send_all ''PONG'' 0 (Sent 1 ## Interrupted ## Sent 2 ## sconst (Sent 9)) = Some (ok, n, evs')" by blast
  have "send_all ''PONG'' 0 (Sent 1 ## Interrupted ## Sent 2 ## sconst (Sent 9)) = Some (True, 4, sconst (Sent 9))"
    by (simp add: send_all.simps)
  with r show ?thesis by blast
qed

text \<open>
  C36: an overflow drops complete commands and splits a line.  When a segment does not fit behind what is pending, everything is
  dropped, the complete and short commands in it as well, and the client is told that a command was too long; what
  the client sends next is taken for the beginning of a command, even in the middle of a line.
\<close>

theorem overflow_drops_and_splits:
  assumes "slot_ok c" "fair net" "1024 \<le> len c + length d" "no_nul e" "length e < 1024"
  shows "\<exists>c' net' es. receive_chunks [d, e] c net = Some (c', net', es)
    \<and> lines_of es = map (Pair (slot_fd c)) (command_lines e) \<and> slot_text c' = pending_text e"
proof -
  from receive_too_long [OF assms(1,2)] assms(3) obtain c1 net1 out where
    r1: "receive_bytes d c net = Some (c1, net1, [Wrote (slot_fd c) out])" "slot_ok c1" "slot_text c1 = []"
      "slot_fd c1 = slot_fd c" "fair net1" unfolding buffer_size_def by blast
  then have "len c1 + length e < buffer_size" using assms(5) by (simp add: slot_ok_def buffer_size_def)
  from receive_fits [OF r1(2,5) this] r1(3,4) assms(4) obtain c2 net2 es2 where
    "receive_bytes e c1 net1 = Some (c2, net2, es2)" "slot_text c2 = pending_text e"
    "lines_of es2 = map (Pair (slot_fd c)) (command_lines e)" by auto
  with r1(1) show ?thesis by simp
qed

theorem overflow_drops_and_splits_witness:
  "\<exists>c' net' es. receive_chunks [''PING'' @ [NL] @ replicate 1019 (CHR ''x''), '' '' @ ''DEL k'' @ [NL]] (empty_slot 7) calm_net
     = Some (c', net', es) \<and> lines_of es = [(7, '' DEL k'')]"
  using overflow_drops_and_splits [of "empty_slot 7" calm_net "''PING'' @ [NL] @ replicate 1019 (CHR ''x'')" "'' DEL k'' @ [NL]"]
  by (auto simp: command_lines_def strip_cr_def)

text \<open>One segment for a client that has a NUL in its buffer and no newline before it.\<close>

lemma nul_byte_wedges:
  assumes "slot_ok c" "\<not> no_nul (slot_text c)" "NL \<notin> set (c_str (slot_text c))"
    and "len c + length bytes < 1024"
  shows "\<exists>c'. receive_bytes bytes c net = Some (c', net, []) \<and> slot_ok c' \<and> slot_text c' = slot_text c @ bytes"
proof -
  let ?s = "slot_text c"
  have cs: "c_str (?s @ bytes) = c_str ?s" using assms(2) by (auto simp: c_str_def no_nul_def takeWhile_append1)
  have c: "holds (buf c) ?s" "len c = length ?s" using assms(1) by (simp_all add: slot_ok_def)
  from holds_append [OF c(1), of bytes] assms(4) c(2) obtain b1 b2 where
    b: "store_bytes (buf c) (len c) bytes = Some b1" "store_bytes b1 (len c + length bytes) [NUL] = Some b2"
      "holds b2 (?s @ bytes)" by (auto simp: buffer_size_def)
  from b(3) obtain d where "b2 = (?s @ bytes) @ NUL # d" by (rule holdsE)
  then have "strchr NL b2 = Some None" using strchr_terminated [of NL "?s @ bytes" d] assms(3) cs by simp
  then have "frame_loop (slot_fd c) b2 (len c + length bytes) net = Some (b2, len c + length bytes, net, [])"
    by (simp add: frame_loop.simps)
  then have "receive_bytes bytes c net = Some (c\<lparr>buf := b2, len := length (?s @ bytes)\<rparr>, net, [])"
    using b(1,2) assms(4) c(2) by (simp add: receive_bytes_def Let_def buffer_size_def)
  with slot_okI [OF b(3), of c] show ?thesis by blast
qed

text \<open>
  C33: a NUL byte silences a client.  Once a NUL has arrived with no newline before it, nothing the client sends is a command any
  more until its buffer overflows: whatever the segments, with any newlines in them, no line is queued, no answer is
  sent, and all bytes stay in the buffer.
\<close>

theorem nul_byte_silences_client:
  assumes "slot_ok c" "\<not> no_nul (slot_text c)" "NL \<notin> set (c_str (slot_text c))"
    and "len c + length (concat chunks) < 1024"
  shows "\<exists>c'. receive_chunks chunks c net = Some (c', net, []) \<and> slot_ok c' \<and> slot_text c' = slot_text c @ concat chunks"
  using assms
proof (induction chunks arbitrary: c)
  case (Cons bytes chunks)
  from nul_byte_wedges [OF Cons.prems(1-3), of bytes net] Cons.prems(4) obtain c1 where
    c1: "receive_bytes bytes c net = Some (c1, net, [])" "slot_ok c1" "slot_text c1 = slot_text c @ bytes" by auto
  have "c_str (slot_text c1) = c_str (slot_text c)"
    using Cons.prems(2) c1(3) by (auto simp: c_str_def no_nul_def takeWhile_append1)
  moreover have "len c1 = len c + length bytes" using c1(2,3) Cons.prems(1) by (simp add: slot_ok_def)
  ultimately show ?case using Cons.IH [OF c1(2)] Cons.prems(2-4) c1(1,3) by auto
qed simp

theorem nul_byte_silences_client_witness:
  "\<exists>c c' net. receive_chunks [[NUL]] (empty_slot 7) calm_net = Some (c, net, [])
    \<and> receive_chunks [''PING'' @ [NL], ''GET k'' @ [NL]] c net = Some (c', net, [])
    \<and> slot_text c' = NUL # ''PING'' @ NL # ''GET k'' @ [NL]"
proof -
  let ?b = "NUL # NUL # replicate 1022 NUL"
  have b: "replicate buffer_size NUL = ?b" by (simp add: buffer_size_def flip: replicate_Suc)
  let ?c = "(empty_slot 7)\<lparr>buf := ?b, len := 1\<rparr>"
  have "receive_bytes [NUL] (empty_slot 7) calm_net = Some (?c, calm_net, [])"
    by (simp add: receive_bytes_def empty_slot_def b store_bytes_def frame_loop.simps buffer_size_def Let_def)
  then have "receive_chunks [[NUL]] (empty_slot 7) calm_net = Some (?c, calm_net, [])" by simp
  moreover have "slot_ok ?c" "slot_text ?c = [NUL]" by (simp_all add: slot_ok_def slot_text_def holds_def buffer_size_def)
  ultimately show ?thesis
    using nul_byte_silences_client [of ?c "[''PING'' @ [NL], ''GET k'' @ [NL]]" calm_net] by (fastforce simp: c_str_def)
qed

end
