(* ===== verification/CLib.thy ===== *)
theory CLib
  imports Prelude
begin

text \<open>
  The functions of the C standard library the program calls, on byte lists: character classes
  of the "C" locale (the program never calls \<^verbatim>\<open>setlocale\<close>), decimal output as \<^verbatim>\<open>%zu\<close> and
  \<^verbatim>\<open>%lld\<close> print it, \<^verbatim>\<open>strtoll\<close>, the \<^verbatim>\<open>fscanf\<close> directives \<^verbatim>\<open>%Ns\<close>, \<^verbatim>\<open>%zu\<close> and \<^verbatim>\<open>%lld\<close>,
  \<^verbatim>\<open>fgetc\<close>, \<^verbatim>\<open>fread\<close> and \<^verbatim>\<open>snprintf\<close>.  A file opened for reading is the list of the bytes
  that are left.  The lemmas are the round trips and the behaviour on truncated input that the
  append-only file needs.
\<close>

subsection \<open>Characters\<close>

definition isspace :: "char \<Rightarrow> bool" where
  "isspace c \<longleftrightarrow> c = CHR 0x20 \<or> (of_char c :: nat) \<in> {9..13}"

definition isdigit :: "char \<Rightarrow> bool" where
  "isdigit c \<longleftrightarrow> (of_char c :: nat) \<in> {48..57}"

definition toupper :: "char \<Rightarrow> char" where
  "toupper c = (if (of_char c :: nat) \<in> {97..122} then char_of ((of_char c :: nat) - 32) else c)"

definition tolower :: "char \<Rightarrow> char" where
  "tolower c = (if (of_char c :: nat) \<in> {65..90} then char_of ((of_char c :: nat) + 32) else c)"

text \<open>\<^verbatim>\<open>strncasecmp(a, b, n) == 0\<close>: the first \<open>n\<close> bytes agree up to case, and the strings end together if
  they end before.\<close>

definition strncasecmp_eq :: "cstr \<Rightarrow> cstr \<Rightarrow> nat \<Rightarrow> bool" where
  "strncasecmp_eq a b n \<longleftrightarrow> map tolower (take n a) = map tolower (take n b)"

subsection \<open>Decimal output\<close>

definition digit_char :: "nat \<Rightarrow> char" where
  "digit_char d = char_of (48 + d)"

fun show_nat :: "nat \<Rightarrow> string" where
  "show_nat n = (if n < 10 then [digit_char n] else show_nat (n div 10) @ [digit_char (n mod 10)])"

declare show_nat.simps [simp del]

definition show_int :: "int \<Rightarrow> string" where
  "show_int i = (if i < 0 then CHR ''-'' # show_nat (nat (- i)) else show_nat (nat i))"

subsection \<open>Decimal input\<close>

fun dec_val :: "nat \<Rightarrow> string \<Rightarrow> nat" where
  "dec_val acc [] = acc"
| "dec_val acc (c # cs) = dec_val (10 * acc + (of_char c - 48)) cs"

text \<open>White space, an optional sign and at least one digit: the sign, the magnitude and the rest.\<close>

definition scan_sign :: "string \<Rightarrow> bool \<times> string" where
  "scan_sign s = (case s of
      c # cs \<Rightarrow> (if c = CHR ''-'' then (True, cs) else if c = CHR ''+'' then (False, cs) else (False, s))
    | [] \<Rightarrow> (False, []))"

definition scan_number :: "string \<Rightarrow> (bool \<times> nat \<times> string) option" where
  "scan_number s =
     (let (neg, s') = scan_sign (dropWhile isspace s); ds = takeWhile isdigit s'
      in if ds = [] then None else Some (neg, dec_val 0 ds, dropWhile isdigit s'))"

text \<open>\<^verbatim>\<open>strtoul\<close> saturates at \<open>2^64 - 1\<close> and negates modulo \<open>2^64\<close>; \<^verbatim>\<open>strtoll\<close> saturates at both ends.\<close>

definition clamp_u64 :: "bool \<Rightarrow> nat \<Rightarrow> nat" where
  "clamp_u64 neg n = (if 2 ^ 64 \<le> n then 2 ^ 64 - 1 else if neg then (2 ^ 64 - n) mod 2 ^ 64 else n)"

definition clamp_i64 :: "bool \<Rightarrow> nat \<Rightarrow> int" where
  "clamp_i64 neg n = (if neg then max (- (2 ^ 63)) (- int n) else min (2 ^ 63 - 1) (int n))"

definition scan_zu :: "string \<Rightarrow> (nat \<times> string) option" where
  "scan_zu s = map_option (\<lambda>(neg, n, r). (clamp_u64 neg n, r)) (scan_number s)"

definition scan_lld :: "string \<Rightarrow> (int \<times> string) option" where
  "scan_lld s = map_option (\<lambda>(neg, n, r). (clamp_i64 neg n, r)) (scan_number s)"

text \<open>\<^verbatim>\<open>strtoll(s, &end, 10)\<close>: the value and \<open>end\<close>; without digits \<open>end\<close> is the whole string.\<close>

definition strtoll :: "cstr \<Rightarrow> int \<times> cstr" where
  "strtoll s = (case scan_lld s of None \<Rightarrow> (0, s) | Some r \<Rightarrow> r)"

text \<open>\<^verbatim>\<open>%Ns\<close>: skip white space, then at most \<open>n\<close> bytes up to the next white space.\<close>

definition scan_str :: "nat \<Rightarrow> string \<Rightarrow> (string \<times> string) option" where
  "scan_str n s =
     (let s' = dropWhile isspace s; tok = takeWhile (\<lambda>c. \<not> isspace c) (take n s')
      in if tok = [] then None else Some (tok, drop (length tok) s'))"

definition fgetc :: "string \<Rightarrow> char option \<times> string" where
  "fgetc s = (case s of [] \<Rightarrow> (None, []) | c # cs \<Rightarrow> (Some c, cs))"

text \<open>\<^verbatim>\<open>snprintf\<close> keeps at most \<open>size - 1\<close> bytes of what it prints.\<close>

definition snprintf :: "nat \<Rightarrow> string \<Rightarrow> cstr" where
  "snprintf n msg = take (n - 1) msg"

subsection \<open>Characters: lemmas\<close>

lemma isspace_simps [simp]:
  "isspace CHR 0x20" "isspace NL" "isspace CR" "\<not> isspace NUL"
  "\<not> isspace CHR ''S''" "\<not> isspace CHR ''D''" "\<not> isspace CHR ''E''"
  by (simp_all add: isspace_def)

lemma isdigit_not_space [simp]: "isdigit c \<Longrightarrow> \<not> isspace c"
  by (auto simp: isdigit_def isspace_def)

lemma isdigit_simps [simp]:
  "\<not> isdigit CHR '':''" "\<not> isdigit NL" "\<not> isdigit CHR 0x20" "\<not> isdigit CHR ''-''"
  "\<not> isdigit CHR ''+''" "\<not> isdigit NUL"
  by (simp_all add: isdigit_def)

lemma toupper_NUL [simp]: "toupper c = NUL \<longleftrightarrow> c = NUL"
proof
  assume up: "toupper c = NUL"
  show "c = NUL"
  proof (cases "(of_char c :: nat) \<in> {97..122}")
    case True
    with up have "char_of ((of_char c :: nat) - 32) = NUL" by (simp add: toupper_def)
    then have "(of_char (char_of ((of_char c :: nat) - 32) :: char) :: nat) = of_char NUL" by simp
    then have "((of_char c :: nat) - 32) mod 256 = 0" by simp
    moreover from True have "0 < (of_char c :: nat) - 32" "(of_char c :: nat) - 32 < 256" by auto
    ultimately show ?thesis by (metis mod_less less_numeral_extra(3))
  next
    case False
    with up show ?thesis by (auto simp: toupper_def split: if_splits)
  qed
qed (simp add: toupper_def)

lemma no_nul_map_toupper [simp]: "no_nul (map toupper s) = no_nul s"
proof -
  have "NUL = toupper c \<longleftrightarrow> c = NUL" for c using toupper_NUL [of c] by metis
  then show ?thesis by (auto simp: no_nul_def image_iff)
qed

subsection \<open>Decimal digits: lemmas\<close>

lemma digit_char_value [simp]: "d < 10 \<Longrightarrow> (of_char (digit_char d) :: nat) = 48 + d"
  by (simp add: digit_char_def)

lemma isdigit_digit_char [simp]: "d < 10 \<Longrightarrow> isdigit (digit_char d)"
  by (simp add: isdigit_def)

lemma dec_val_append: "dec_val acc (xs @ ys) = dec_val (dec_val acc xs) ys"
  by (induction xs arbitrary: acc) auto

lemma show_nat_digits: "c \<in> set (show_nat n) \<Longrightarrow> isdigit c"
  by (induction n rule: show_nat.induct) (subst (asm) show_nat.simps, auto split: if_splits)

lemma show_nat_nonempty [simp]: "show_nat n \<noteq> []"
  by (subst show_nat.simps) simp

lemma dec_val_show_nat [simp]: "dec_val 0 (show_nat n) = n"
proof (induction n rule: show_nat.induct)
  case (1 n)
  then show ?case
    by (subst show_nat.simps) (auto simp: dec_val_append)
qed

lemma show_nat_no_nul [simp]: "no_nul (show_nat n)"
  unfolding no_nul_def using show_nat_digits isdigit_simps(6) by blast

lemma show_nat_hd: "isdigit (hd (show_nat n))"
  using show_nat_digits [of "hd (show_nat n)" n] by simp

lemma show_nat_Cons: obtains c cs where "show_nat n = c # cs" "isdigit c" "\<forall>x \<in> set cs. isdigit x"
  using show_nat_digits [of _ n] show_nat_nonempty [of n] by (cases "show_nat n") auto

subsection \<open>The scanner reads back what was printed\<close>

lemma scan_sign_digit [scan_simps]: "isdigit c \<Longrightarrow> scan_sign (c # s) = (False, c # s)"
  by (auto simp: scan_sign_def)

lemma scan_digits:
  assumes "ds \<noteq> []" "\<forall>c \<in> set ds. isdigit c" "r = [] \<or> \<not> isdigit (hd r)"
  shows "scan_number (ds @ r) = Some (False, dec_val 0 ds, r)"
proof -
  from assms(1,2) obtain c cs where ds: "ds = c # cs" and c: "isdigit c" by (cases ds) auto
  have "dropWhile isspace (ds @ r) = ds @ r" using ds c by simp
  moreover have "takeWhile isdigit (ds @ r) = ds" by (rule takeWhile_stop) (use assms in auto)
  moreover have "dropWhile isdigit (ds @ r) = r" using assms by (simp add: dropWhile_stop)
  ultimately show ?thesis using ds c by (simp add: scan_number_def scan_sign_digit)
qed

lemma scan_number_show_nat [scan_simps]:
  "r = [] \<or> \<not> isdigit (hd r) \<Longrightarrow> scan_number (show_nat n @ r) = Some (False, n, r)"
  using scan_digits [of "show_nat n" r] show_nat_digits by simp

lemma scan_number_minus [scan_simps]:
  assumes "r = [] \<or> \<not> isdigit (hd r)"
  shows "scan_number (CHR ''-'' # show_nat n @ r) = Some (True, n, r)"
proof -
  have "takeWhile isdigit (show_nat n @ r) = show_nat n"
    by (rule takeWhile_stop) (use assms show_nat_digits in auto)
  moreover have "dropWhile isdigit (show_nat n @ r) = r"
    using assms show_nat_digits by (simp add: dropWhile_stop)
  moreover have "\<not> isspace CHR ''-''" by (simp add: isspace_def)
  ultimately show ?thesis by (simp add: scan_number_def scan_sign_def)
qed

lemma scan_zu_show_nat [scan_simps]:
  "n < 2 ^ 64 \<Longrightarrow> r = [] \<or> \<not> isdigit (hd r) \<Longrightarrow> scan_zu (show_nat n @ r) = Some (n, r)"
  by (simp add: scan_zu_def scan_number_show_nat clamp_u64_def)

lemma scan_lld_show_int [scan_simps]:
  "- (2 ^ 63) \<le> i \<Longrightarrow> i < 2 ^ 63 \<Longrightarrow> r = [] \<or> \<not> isdigit (hd r) \<Longrightarrow>
   scan_lld (show_int i @ r) = Some (i, r)"
  by (auto simp: scan_lld_def show_int_def scan_number_show_nat scan_number_minus clamp_i64_def)

lemma scan_number_space [scan_simps]: "isspace c \<Longrightarrow> scan_number (c # s) = scan_number s"
  by (simp add: scan_number_def)

lemma scan_lld_space [scan_simps]: "isspace c \<Longrightarrow> scan_lld (c # s) = scan_lld s"
  by (simp add: scan_lld_def scan_number_space)

lemma scan_zu_space [scan_simps]: "isspace c \<Longrightarrow> scan_zu (c # s) = scan_zu s"
  by (simp add: scan_zu_def scan_number_space)

lemma scan_number_empty [scan_simps]: "scan_number [] = None"
  by (simp add: scan_number_def scan_sign_def)

lemma scan_zu_empty [scan_simps]: "scan_zu [] = None"
  by (simp add: scan_zu_def scan_number_empty)

lemma scan_lld_empty [scan_simps]: "scan_lld [] = None"
  by (simp add: scan_lld_def scan_number_empty)

lemma scan_number_digits_only:
  "\<forall>c \<in> set ds. isdigit c \<Longrightarrow> scan_number ds = (if ds = [] then None else Some (False, dec_val 0 ds, []))"
  using scan_digits [of ds "[]"] by (auto simp: scan_number_empty)

lemma scan_str_space [scan_simps]: "isspace c \<Longrightarrow> scan_str n (c # s) = scan_str n s"
  by (simp add: scan_str_def)

lemma scan_str_empty [scan_simps]: "scan_str n [] = None"
  by (simp add: scan_str_def)

text \<open>Scanning consumes input.\<close>

lemma scan_str_shorter: "scan_str n s = Some (tok, r) \<Longrightarrow> length r < length s"
proof -
  assume a: "scan_str n s = Some (tok, r)"
  let ?s = "dropWhile isspace s" and ?t = "takeWhile (\<lambda>c. \<not> isspace c) (take n (dropWhile isspace s))"
  from a have "?t \<noteq> []" and r: "r = drop (length ?t) ?s"
    by (auto simp: scan_str_def Let_def split: if_splits)
  then have "0 < length ?t" by blast
  moreover have "0 < length ?s" using \<open>?t \<noteq> []\<close> by (cases ?s) simp_all
  ultimately have "length r < length ?s" unfolding r length_drop by (rule diff_less)
  also have "length ?s \<le> length s" by simp
  finally show ?thesis .
qed

lemma scan_sign_le: "scan_sign s = (neg, r) \<Longrightarrow> length r \<le> length s"
  by (cases s) (auto simp: scan_sign_def split: if_splits)

lemma scan_number_le: "scan_number s = Some (neg, n, r) \<Longrightarrow> length r \<le> length s"
proof -
  assume a: "scan_number s = Some (neg, n, r)"
  obtain ng s' where sg: "scan_sign (dropWhile isspace s) = (ng, s')" by fastforce
  then have "length s' \<le> length (dropWhile isspace s)" by (rule scan_sign_le)
  also have "\<dots> \<le> length s" by simp
  finally have "length s' \<le> length s" .
  moreover from a sg have "r = dropWhile isdigit s'"
    by (auto simp: scan_number_def Let_def split: if_splits)
  ultimately show ?thesis using length_dropWhile_le [of isdigit] le_trans by blast
qed

lemma scan_zu_le: "scan_zu s = Some (n, r) \<Longrightarrow> length r \<le> length s"
  by (auto simp: scan_zu_def dest: scan_number_le)

lemma scan_lld_le: "scan_lld s = Some (n, r) \<Longrightarrow> length r \<le> length s"
  by (auto simp: scan_lld_def dest: scan_number_le)

lemma fgetc_le: "fgetc s = (c, r) \<Longrightarrow> length r \<le> length s"
  by (auto simp: fgetc_def split: list.splits)

lemma fgetc_simps [simp]: "fgetc (c # s) = (Some c, s)" "fgetc [] = (None, [])"
  by (simp_all add: fgetc_def)

end
