(* ===== verification/World.thy ===== *)
theory World
  imports CLib
begin

text \<open>
  The environment of the program, passed through every operation that depends on it.

  The outcomes the environment chooses are streams that the operations consume in the order of
  their calls: \<open>mallocs\<close> says whether the next \<^verbatim>\<open>malloc\<close>/\<^verbatim>\<open>calloc\<close> succeeds, \<open>clock\<close> is the next
  result of \<^verbatim>\<open>time(NULL)\<close>, \<open>io\<close> the outcome of the next stdio call on a file.  A failing
  \<^verbatim>\<open>fprintf\<close> or \<^verbatim>\<open>fclose\<close> may still have written any prefix of its data; \<open>Io_err n\<close> says how many
  bytes.  \<open>files\<close> is the directory the server runs in.
\<close>

datatype io_event = Io_ok | Io_err nat

record world =
  mallocs :: "bool stream"
  clock :: "time_t stream"
  io :: "io_event stream"
  files :: "string \<rightharpoonup> string"

definition malloc :: "world \<Rightarrow> bool \<times> world" where
  "malloc w = (shd (mallocs w), w\<lparr>mallocs := stl (mallocs w)\<rparr>)"

definition time_now :: "world \<Rightarrow> time_t \<times> world" where
  "time_now w = (shd (clock w), w\<lparr>clock := stl (clock w)\<rparr>)"

definition io_step :: "world \<Rightarrow> io_event \<times> world" where
  "io_step w = (shd (io w), w\<lparr>io := stl (io w)\<rparr>)"

text \<open>The bytes of \<open>data\<close> that get through.\<close>

fun io_data :: "io_event \<Rightarrow> string \<Rightarrow> string" where
  "io_data Io_ok data = data"
| "io_data (Io_err n) data = take n data"

text \<open>
  \<open>fopen\<close> in the modes \<open>"a"\<close> (create if missing), \<open>"w"\<close> (create or truncate) and \<open>"r"\<close> (fail if
  missing).  The result of \<open>fopen_read\<close> is the contents.
\<close>

definition fopen_append :: "string \<Rightarrow> world \<Rightarrow> bool \<times> world" where
  "fopen_append f w = (let (ev, w1) = io_step w in
     if ev = Io_ok
     then (True, w1\<lparr>files := (files w1)(f \<mapsto> (case files w1 f of None \<Rightarrow> [] | Some c \<Rightarrow> c))\<rparr>)
     else (False, w1))"

definition fopen_write :: "string \<Rightarrow> world \<Rightarrow> bool \<times> world" where
  "fopen_write f w = (let (ev, w1) = io_step w in
     if ev = Io_ok then (True, w1\<lparr>files := (files w1)(f \<mapsto> [])\<rparr>) else (False, w1))"

definition fopen_read :: "string \<Rightarrow> world \<Rightarrow> string option \<times> world" where
  "fopen_read f w = (let (ev, w1) = io_step w in
     if ev = Io_ok then (files w1 f, w1) else (None, w1))"

text \<open>\<^verbatim>\<open>fprintf\<close> appends to the buffer of the open file; the result says whether it was non-negative.\<close>

definition fprintf :: "string \<Rightarrow> string \<Rightarrow> world \<Rightarrow> bool \<times> string \<times> world" where
  "fprintf buf data w = (let (ev, w1) = io_step w in (ev = Io_ok, buf @ io_data ev data, w1))"

text \<open>\<^verbatim>\<open>fclose\<close> flushes the buffer to the end of the file.\<close>

definition fclose :: "string \<Rightarrow> string \<Rightarrow> world \<Rightarrow> bool \<times> world" where
  "fclose f buf w = (let (ev, w1) = io_step w in
     (ev = Io_ok, w1\<lparr>files := (files w1)(f \<mapsto> (case files w1 f of None \<Rightarrow> [] | Some c \<Rightarrow> c) @ io_data ev buf)\<rparr>))"

text \<open>\<^verbatim>\<open>rename\<close> replaces the target in one step or does nothing.\<close>

definition rename :: "string \<Rightarrow> string \<Rightarrow> world \<Rightarrow> bool \<times> world" where
  "rename old new w = (let (ev, w1) = io_step w in
     if ev = Io_ok then (True, w1\<lparr>files := (files w1)(new := files w1 old, old := None)\<rparr>)
     else (False, w1))"

subsection \<open>An environment that does not fail\<close>

definition mem_ok :: "world \<Rightarrow> bool" where
  "mem_ok w \<longleftrightarrow> mallocs w = sconst True"

definition io_ok :: "world \<Rightarrow> bool" where
  "io_ok w \<longleftrightarrow> io w = sconst Io_ok"

definition clock_ok :: "world \<Rightarrow> bool" where
  "clock_ok w \<longleftrightarrow> non_decreasing (clock w)"

text \<open>The reading the next \<^verbatim>\<open>time(NULL)\<close> returns.\<close>

definition now :: "world \<Rightarrow> time_t" where
  "now w = shd (clock w)"

lemma malloc_ok [world_simps]: "mem_ok w \<Longrightarrow> malloc w = (True, w)"
  by (cases w) (simp add: mem_ok_def malloc_def)

lemma io_step_ok [world_simps]: "io_ok w \<Longrightarrow> io_step w = (Io_ok, w)"
  by (cases w) (simp add: io_ok_def io_step_def)

lemma fopen_append_ok [world_simps]:
  "io_ok w \<Longrightarrow> fopen_append f w =
     (True, w\<lparr>files := (files w)(f \<mapsto> (case files w f of None \<Rightarrow> [] | Some c \<Rightarrow> c))\<rparr>)"
  by (simp add: fopen_append_def io_step_ok)

lemma fopen_write_ok [world_simps]:
  "io_ok w \<Longrightarrow> fopen_write f w = (True, w\<lparr>files := (files w)(f \<mapsto> [])\<rparr>)"
  by (simp add: fopen_write_def io_step_ok)

lemma fopen_read_ok [world_simps]: "io_ok w \<Longrightarrow> fopen_read f w = (files w f, w)"
  by (simp add: fopen_read_def io_step_ok)

lemma fprintf_ok [world_simps]: "io_ok w \<Longrightarrow> fprintf buf data w = (True, buf @ data, w)"
  by (simp add: fprintf_def io_step_ok)

lemma fclose_ok [world_simps]:
  "io_ok w \<Longrightarrow> fclose f buf w =
     (True, w\<lparr>files := (files w)(f \<mapsto> (case files w f of None \<Rightarrow> [] | Some c \<Rightarrow> c) @ buf)\<rparr>)"
  by (simp add: fclose_def io_step_ok)

lemma rename_ok [world_simps]:
  "io_ok w \<Longrightarrow> rename old new w = (True, w\<lparr>files := (files w)(new := files w old, old := None)\<rparr>)"
  by (simp add: rename_def io_step_ok)

text \<open>What each effect leaves alone.\<close>

lemma world_ok_update [simp]:
  "mem_ok (w\<lparr>files := fs\<rparr>) = mem_ok w" "mem_ok (w\<lparr>clock := c\<rparr>) = mem_ok w"
  "mem_ok (w\<lparr>io := i\<rparr>) = mem_ok w" "io_ok (w\<lparr>files := fs\<rparr>) = io_ok w"
  "io_ok (w\<lparr>clock := c\<rparr>) = io_ok w" "io_ok (w\<lparr>mallocs := m\<rparr>) = io_ok w"
  "clock_ok (w\<lparr>files := fs\<rparr>) = clock_ok w" "clock_ok (w\<lparr>io := i\<rparr>) = clock_ok w"
  "clock_ok (w\<lparr>mallocs := m\<rparr>) = clock_ok w"
  "now (w\<lparr>files := fs\<rparr>) = now w" "now (w\<lparr>io := i\<rparr>) = now w" "now (w\<lparr>mallocs := m\<rparr>) = now w"
  by (simp_all add: mem_ok_def io_ok_def clock_ok_def now_def)

lemma malloc_frame [simp]:
  "files (snd (malloc w)) = files w" "clock (snd (malloc w)) = clock w" "io (snd (malloc w)) = io w"
  by (simp_all add: malloc_def)

lemma time_now_frame [simp]:
  "files (snd (time_now w)) = files w" "io (snd (time_now w)) = io w"
  "mallocs (snd (time_now w)) = mallocs w"
  by (simp_all add: time_now_def)

lemma fst_time_now [simp]: "fst (time_now w) = now w"
  by (simp add: time_now_def now_def)

lemma clock_ok_tick: "clock_ok w \<Longrightarrow> clock_ok (snd (time_now w))"
  by (simp add: clock_ok_def time_now_def non_decreasing_stl)

lemma now_tick: "clock_ok w \<Longrightarrow> now w \<le> now (snd (time_now w))"
  using non_decreasing_shd [of "clock w" 1] by (simp add: clock_ok_def now_def time_now_def)

text \<open>
  A world whose next readings of the clock all are \<open>t\<close>, where nothing fails: the world of the
  concrete examples.
\<close>

definition calm :: "time_t \<Rightarrow> (string \<rightharpoonup> string) \<Rightarrow> world" where
  "calm t fs = \<lparr>mallocs = sconst True, clock = sconst t, io = sconst Io_ok, files = fs\<rparr>"

lemma calm_simps [simp]:
  "mem_ok (calm t fs)" "io_ok (calm t fs)" "clock_ok (calm t fs)" "now (calm t fs) = t"
  "files (calm t fs) = fs" "clock (calm t fs) = sconst t"
  "mallocs (calm t fs) = sconst True" "io (calm t fs) = sconst Io_ok"
  by (simp_all add: calm_def mem_ok_def io_ok_def clock_ok_def now_def)

lemma calm_updates [simp]:
  "time_now (calm t fs) = (t, calm t fs)" "(calm t fs)\<lparr>files := fs'\<rparr> = calm t fs'"
  by (simp_all add: calm_def time_now_def)

end
