(* ===== verification/Entry.thy ===== *)
theory Entry
  imports World
begin

text \<open>
  The entries of the database, after \<^verbatim>\<open>include/entry.h\<close> and \<^verbatim>\<open>src/entry.c\<close>.

  A chain of the hash table is the list of its entries, so the \<open>next\<close> field is the list's own
  structure.  A pointer to an entry that may be \<open>NULL\<close> is an \<open>option\<close>.  Timestamps are integers;
  the addition of \<^verbatim>\<open>time(NULL)\<close> and a number of seconds is 64-bit signed and wraps as two's
  complement.  The abstract view of the \<open>expires_at\<close> field, in which \<open>0\<close> is a sentinel, is a
  \<open>deadline\<close>: a linear order whose top element never passes.
\<close>

record entry =
  key :: cstr
  val :: cstr
  expires_at :: time_t

definition wrap64 :: "int \<Rightarrow> int" where
  "wrap64 i = sint (word_of_int i :: u64)"

definition add_time :: "time_t \<Rightarrow> int \<Rightarrow> time_t" where
  "add_time t s = wrap64 (t + s)"

definition sub_time :: "time_t \<Rightarrow> time_t \<Rightarrow> int" where
  "sub_time t s = wrap64 (t - s)"

definition entry_create :: "cstr \<Rightarrow> cstr \<Rightarrow> world \<Rightarrow> entry option \<times> world" where
  "entry_create k v w =
     (let (ok, w) = malloc w in
      if \<not> ok then (None, w)
      else let (ok, w) = malloc w in
      if \<not> ok then (None, w)
      else let (ok, w) = malloc w in
      if \<not> ok then (None, w)
      else (Some \<lparr>key = k, val = v, expires_at = 0\<rparr>, w))"

definition entry_set_expiry :: "entry option \<Rightarrow> int \<Rightarrow> world \<Rightarrow> entry option \<times> world" where
  "entry_set_expiry p seconds w =
     (case p of
        None \<Rightarrow> (None, w)
      | Some e \<Rightarrow>
          if seconds \<le> 0 then (Some (e\<lparr>expires_at := 0\<rparr>), w)
          else let (t, w) = time_now w in (Some (e\<lparr>expires_at := add_time t seconds\<rparr>), w))"

definition entry_set_expiry_at :: "entry option \<Rightarrow> time_t \<Rightarrow> entry option" where
  "entry_set_expiry_at p t = (case p of None \<Rightarrow> None | Some e \<Rightarrow> Some (e\<lparr>expires_at := t\<rparr>))"

text \<open>The clock is read only when the entry has an expiration.\<close>

definition entry_is_expired :: "entry option \<Rightarrow> world \<Rightarrow> bool \<times> world" where
  "entry_is_expired p w =
     (case p of
        None \<Rightarrow> (False, w)
      | Some e \<Rightarrow>
          if expires_at e = 0 then (False, w)
          else let (t, w) = time_now w in (t \<ge> expires_at e, w))"

subsection \<open>Deadlines\<close>

datatype deadline = At time_t | Never

instantiation deadline :: linorder
begin

fun less_eq_deadline :: "deadline \<Rightarrow> deadline \<Rightarrow> bool" where
  "less_eq_deadline _ Never = True"
| "less_eq_deadline Never (At _) = False"
| "less_eq_deadline (At s) (At t) = (s \<le> t)"

definition less_deadline :: "deadline \<Rightarrow> deadline \<Rightarrow> bool" where
  "less_deadline a b \<longleftrightarrow> a \<le> b \<and> \<not> b \<le> a"

instance
proof
  fix x y z :: deadline
  show "x < y \<longleftrightarrow> x \<le> y \<and> \<not> y \<le> x" by (simp add: less_deadline_def)
  show "x \<le> x" by (cases x) auto
  show "x \<le> z" if "x \<le> y" "y \<le> z" using that by (cases x; cases y; cases z) auto
  show "x = y" if "x \<le> y" "y \<le> x" using that by (cases x; cases y) auto
  show "x \<le> y \<or> y \<le> x" by (cases x; cases y) auto
qed

end

text \<open>The meaning of the field \<open>expires_at\<close>, and when a deadline has passed.\<close>

definition deadline_of :: "time_t \<Rightarrow> deadline" where
  "deadline_of t = (if t = 0 then Never else At t)"

definition live_at :: "time_t \<Rightarrow> time_t \<Rightarrow> bool" where
  "live_at t x \<longleftrightarrow> At t < deadline_of x"

lemma live_at_iff: "live_at t x \<longleftrightarrow> x = 0 \<or> t < x"
  by (auto simp: live_at_def deadline_of_def less_deadline_def)

lemma live_at_mono: "live_at t x \<Longrightarrow> s \<le> t \<Longrightarrow> live_at s x"
  unfolding live_at_def by (erule order_le_less_trans [rotated]) simp

subsection \<open>Lemmas\<close>

lemma wrap64_id: "- (2 ^ 63) \<le> i \<Longrightarrow> i < 2 ^ 63 \<Longrightarrow> wrap64 i = i"
  by (simp add: wrap64_def int_word_sint)

lemma sub_time_id: "0 \<le> s \<Longrightarrow> s \<le> t \<Longrightarrow> t < 2 ^ 63 \<Longrightarrow> sub_time t s = t - s"
  by (simp add: sub_time_def wrap64_id)

lemma wrap64_range: "- (2 ^ 63) \<le> wrap64 i \<and> wrap64 i < 2 ^ 63"
  using sint_greater_eq [of "word_of_int i :: u64"] sint_less [of "word_of_int i :: u64"]
  by (simp add: wrap64_def)

lemma entry_is_expired_live:
  "fst (entry_is_expired (Some e) w) \<longleftrightarrow> \<not> live_at (now w) (expires_at e)"
  by (auto simp: entry_is_expired_def live_at_iff time_now_def now_def split: prod.splits)

lemma entry_is_expired_world:
  "snd (entry_is_expired (Some e) w) = (if expires_at e = 0 then w else snd (time_now w))"
  by (simp add: entry_is_expired_def split: prod.splits)

lemma entry_is_expired_frame [simp]:
  "files (snd (entry_is_expired p w)) = files w" "io (snd (entry_is_expired p w)) = io w"
  "mallocs (snd (entry_is_expired p w)) = mallocs w"
  by (auto simp: entry_is_expired_def split: option.splits prod.splits)
    (metis snd_conv time_now_frame)+

lemma entry_is_expired_ok [simp]:
  "mem_ok (snd (entry_is_expired p w)) = mem_ok w" "io_ok (snd (entry_is_expired p w)) = io_ok w"
  by (simp_all add: mem_ok_def io_ok_def)

lemma entry_is_expired_clock:
  assumes "clock_ok w"
  shows "clock_ok (snd (entry_is_expired p w)) \<and> now w \<le> now (snd (entry_is_expired p w))"
proof (cases p)
  case None
  then show ?thesis using assms by (simp add: entry_is_expired_def)
next
  case (Some e)
  then show ?thesis
    using assms clock_ok_tick now_tick by (simp add: entry_is_expired_world)
qed

end
