(* ===== verification/HashTable.thy ===== *)
theory HashTable
  imports Entry
begin

text \<open>
  The hash table with separate chaining of \<^verbatim>\<open>include/hash_table.h\<close> and \<^verbatim>\<open>src/hash_table.c\<close>.

  A table is its bucket array (the list of its chains, each chain the list of its entries from
  the head pointer on), the \<open>size\<close> and the \<open>count\<close> fields.  Every operation is written for
  non-\<open>NULL\<close> arguments; the operations with the code's \<open>NULL\<close> guards are the \<open>_ptr\<close> variants at
  the end of the definitions.  \<open>size_t\<close> values other than the hash are natural numbers: a table
  of \<open>n\<close> buckets occupies \<open>8 n\<close> bytes, so that neither \<open>count\<close> nor \<open>2 * size\<close> reaches \<open>2^64\<close>, and
  below \<open>2^50\<close> the double-precision test \<open>count / size > 0.75\<close> is the exact one.

  The lemmas establish the representation invariant \<open>wf_table\<close>, that every operation keeps it, and
  what the operation does to the finite map \<open>tmap\<close> the table stands for.  The contract the other
  components rely on is the locale \<open>kv_store\<close>, interpreted on these operations.
\<close>

record hash_table =
  buckets :: "entry list list"
  tsize :: nat
  count :: nat

definition hash_table_create :: "nat \<Rightarrow> world \<Rightarrow> hash_table option \<times> world" where
  "hash_table_create n w =
     (let (ok, w) = malloc w in
      if \<not> ok then (None, w)
      else let (ok, w) = malloc w in
      if \<not> ok then (None, w)
      else (Some \<lparr>buckets = replicate n [], tsize = n, count = 0\<rparr>, w))"

fun hash_loop :: "u64 \<Rightarrow> cstr \<Rightarrow> u64" where
  "hash_loop h [] = h"
| "hash_loop h (c # cs) = hash_loop (h * 31 + of_char c) cs"

definition hash_key :: "cstr \<Rightarrow> u64" where
  "hash_key k = hash_loop 0 k"

definition slot :: "nat \<Rightarrow> cstr \<Rightarrow> nat" where
  "slot n k = unat (hash_key k) mod n"

text \<open>The loop over a chain that stops at the first entry with the key.\<close>

fun chain_find :: "cstr \<Rightarrow> entry list \<Rightarrow> entry option" where
  "chain_find k [] = None"
| "chain_find k (e # es) = (if key e = k then Some e else chain_find k es)"

text \<open>A write through the pointer that loop stops at.\<close>

fun chain_write :: "cstr \<Rightarrow> (entry \<Rightarrow> entry) \<Rightarrow> entry list \<Rightarrow> entry list" where
  "chain_write k f [] = []"
| "chain_write k f (e # es) = (if key e = k then f e # es else e # chain_write k f es)"

text \<open>Unlinking the entry that loop stops at: the head of the chain or a later node.\<close>

fun chain_unlink :: "cstr \<Rightarrow> entry list \<Rightarrow> entry list" where
  "chain_unlink k [] = []"
| "chain_unlink k (e # es) = (if key e = k then es else e # chain_unlink k es)"

definition find_entry :: "hash_table \<Rightarrow> cstr \<Rightarrow> entry option" where
  "find_entry t k = chain_find k (buckets t ! slot (tsize t) k)"

definition write_entry :: "cstr \<Rightarrow> (entry \<Rightarrow> entry) \<Rightarrow> hash_table \<Rightarrow> hash_table" where
  "write_entry k f t =
     (let i = slot (tsize t) k in t\<lparr>buckets := (buckets t)[i := chain_write k f (buckets t ! i)]\<rparr>)"

text \<open>Resizing moves every entry to the head of its chain in the new array.\<close>

fun rehash_chain :: "nat \<Rightarrow> entry list \<Rightarrow> entry list list \<Rightarrow> entry list list" where
  "rehash_chain n [] nb = nb"
| "rehash_chain n (e # es) nb =
     (let i = slot n (key e) in rehash_chain n es (nb[i := e # nb ! i]))"

fun rehash_all :: "nat \<Rightarrow> entry list list \<Rightarrow> entry list list \<Rightarrow> entry list list" where
  "rehash_all n [] nb = nb"
| "rehash_all n (c # cs) nb = rehash_all n cs (rehash_chain n c nb)"

definition hash_table_resize :: "hash_table \<Rightarrow> nat \<Rightarrow> world \<Rightarrow> bool \<times> hash_table \<times> world" where
  "hash_table_resize t n w =
     (if n = 0 then (False, t, w)
      else let (ok, w) = malloc w in
      if \<not> ok then (False, t, w)
      else (True, t\<lparr>buckets := rehash_all n (buckets t) (replicate n []), tsize := n\<rparr>, w))"

definition resize_factor :: nat where
  "resize_factor = 2"

text \<open>The load factor exceeds 0.75.\<close>

definition load_exceeded :: "hash_table \<Rightarrow> bool" where
  "load_exceeded t \<longleftrightarrow> 4 * count t > 3 * tsize t"

definition hash_table_set_with_expiry ::
  "cstr \<Rightarrow> cstr \<Rightarrow> time_t \<Rightarrow> hash_table \<Rightarrow> world \<Rightarrow> bool \<times> hash_table \<times> world" where
  "hash_table_set_with_expiry k v x t w =
     (case find_entry t k of
        Some e \<Rightarrow>
          (let (ok, w) = malloc w in
           if \<not> ok then (False, t, w)
           else (True, write_entry k (\<lambda>e. the (entry_set_expiry_at (Some (e\<lparr>val := v\<rparr>)) x)) t, w))
      | None \<Rightarrow>
          (let (ok, w) = malloc w in
           if \<not> ok then (False, t, w)
           else let (ok, w) = malloc w in
           if \<not> ok then (False, t, w)
           else let (ok, w) = malloc w in
           if \<not> ok then (False, t, w)
           else
             let i = slot (tsize t) k;
                 e = \<lparr>key = k, val = v, expires_at = x\<rparr>;
                 t = t\<lparr>buckets := (buckets t)[i := e # buckets t ! i], count := count t + 1\<rparr>
             in if load_exceeded t
                then let (_, t, w) = hash_table_resize t (tsize t * resize_factor) w in (True, t, w)
                else (True, t, w)))"

definition hash_table_set :: "cstr \<Rightarrow> cstr \<Rightarrow> hash_table \<Rightarrow> world \<Rightarrow> bool \<times> hash_table \<times> world" where
  "hash_table_set k v t w = hash_table_set_with_expiry k v 0 t w"

definition hash_table_get :: "hash_table \<Rightarrow> cstr \<Rightarrow> world \<Rightarrow> cstr option \<times> world" where
  "hash_table_get t k w =
     (case find_entry t k of
        None \<Rightarrow> (None, w)
      | Some e \<Rightarrow>
          let (expired, w) = entry_is_expired (Some e) w in
          if expired then (None, w) else (Some (val e), w))"

definition hash_table_delete :: "cstr \<Rightarrow> hash_table \<Rightarrow> bool \<times> hash_table" where
  "hash_table_delete k t =
     (let i = slot (tsize t) k in
      case chain_find k (buckets t ! i) of
        None \<Rightarrow> (False, t)
      | Some _ \<Rightarrow>
          (True, t\<lparr>buckets := (buckets t)[i := chain_unlink k (buckets t ! i)], count := count t - 1\<rparr>))"

definition hash_table_ttl :: "hash_table \<Rightarrow> cstr \<Rightarrow> world \<Rightarrow> int \<times> world" where
  "hash_table_ttl t k w =
     (case find_entry t k of
        None \<Rightarrow> (-2, w)
      | Some e \<Rightarrow>
          if expires_at e = 0 then (-1, w)
          else let (n, w) = time_now w in
          if n \<ge> expires_at e then (-2, w) else (sub_time (expires_at e) n, w))"

subsection \<open>Arguments that may be NULL\<close>

text \<open>The exported functions with the guards they begin with; a pointer that may be \<open>NULL\<close> is an option.\<close>

definition hash_table_set_with_expiry_ptr ::
  "hash_table option \<Rightarrow> cstr option \<Rightarrow> cstr option \<Rightarrow> time_t \<Rightarrow> world \<Rightarrow> bool \<times> hash_table option \<times> world" where
  "hash_table_set_with_expiry_ptr table k v x w =
     (case (table, k, v) of
        (Some t, Some k, Some v) \<Rightarrow>
          let (ok, t, w) = hash_table_set_with_expiry k v x t w in (ok, Some t, w)
      | _ \<Rightarrow> (False, table, w))"

definition hash_table_get_ptr :: "hash_table option \<Rightarrow> cstr option \<Rightarrow> world \<Rightarrow> cstr option \<times> world" where
  "hash_table_get_ptr table k w =
     (case (table, k) of (Some t, Some k) \<Rightarrow> hash_table_get t k w | _ \<Rightarrow> (None, w))"

definition hash_table_delete_ptr :: "cstr option \<Rightarrow> hash_table option \<Rightarrow> bool \<times> hash_table option" where
  "hash_table_delete_ptr k table =
     (case (table, k) of
        (Some t, Some k) \<Rightarrow> let (ok, t) = hash_table_delete k t in (ok, Some t)
      | _ \<Rightarrow> (False, table))"

definition hash_table_resize_ptr :: "hash_table option \<Rightarrow> nat \<Rightarrow> world \<Rightarrow> bool \<times> hash_table option \<times> world" where
  "hash_table_resize_ptr table n w =
     (case table of
        None \<Rightarrow> (False, None, w)
      | Some t \<Rightarrow> let (ok, t, w) = hash_table_resize t n w in (ok, Some t, w))"

definition hash_table_ttl_ptr :: "hash_table option \<Rightarrow> cstr option \<Rightarrow> world \<Rightarrow> int \<times> world" where
  "hash_table_ttl_ptr table k w =
     (case (table, k) of (Some t, Some k) \<Rightarrow> hash_table_ttl t k w | _ \<Rightarrow> (-2, w))"

subsection \<open>Invariant and abstraction\<close>

definition chain_ok :: "nat \<Rightarrow> nat \<Rightarrow> entry list \<Rightarrow> bool" where
  "chain_ok n i es \<longleftrightarrow> distinct (map key es) \<and> (\<forall>e \<in> set es. slot n (key e) = i)"

definition entries :: "hash_table \<Rightarrow> entry list" where
  "entries t = concat (buckets t)"

definition wf_table :: "hash_table \<Rightarrow> bool" where
  "wf_table t \<longleftrightarrow> 0 < tsize t \<and> length (buckets t) = tsize t
     \<and> (\<forall>i < tsize t. chain_ok (tsize t) i (buckets t ! i)) \<and> count t = length (entries t)"

text \<open>The finite map from keys to values and expiration times that a table stands for.\<close>

definition content :: "entry \<Rightarrow> cstr \<times> time_t" where
  "content e = (val e, expires_at e)"

definition tmap :: "hash_table \<Rightarrow> cstr \<rightharpoonup> cstr \<times> time_t" where
  "tmap t k = map_option content (find_entry t k)"

text \<open>What a reader at time \<open>n\<close> sees of such a map.\<close>

definition visible :: "time_t \<Rightarrow> (cstr \<rightharpoonup> cstr \<times> time_t) \<Rightarrow> cstr \<rightharpoonup> cstr" where
  "visible n m k = (case m k of None \<Rightarrow> None | Some (v, x) \<Rightarrow> if live_at n x then Some v else None)"

subsection \<open>One chain\<close>

lemma chain_find_key: "chain_find k es = Some e \<Longrightarrow> key e = k \<and> e \<in> set es"
  by (induction es) (auto split: if_splits)

lemma chain_find_None: "chain_find k es = None \<longleftrightarrow> k \<notin> key ` set es"
  by (induction es) auto

lemma chain_find_iff:
  "distinct (map key es) \<Longrightarrow> chain_find k es = Some e \<longleftrightarrow> e \<in> set es \<and> key e = k"
  by (induction es) (auto simp: rev_image_eqI)

lemma chain_find_append: "chain_find k (xs @ ys) = (case chain_find k xs of None \<Rightarrow> chain_find k ys | r \<Rightarrow> r)"
  by (induction xs) auto

lemma chain_find_cong:
  assumes "distinct (map key xs)" "distinct (map key ys)"
    and "\<And>e. key e = k \<Longrightarrow> e \<in> set xs \<longleftrightarrow> e \<in> set ys"
  shows "chain_find k xs = chain_find k ys"
  by (rule option_eqI) (use assms in \<open>auto simp: chain_find_iff\<close>)

lemma chain_write_keys [simp]: "(\<And>e. key (f e) = key e) \<Longrightarrow> map key (chain_write k f es) = map key es"
  by (induction es) auto

lemma chain_write_length [simp]: "length (chain_write k f es) = length es"
  by (induction es) auto

lemma chain_find_write:
  "(\<And>e. key (f e) = key e) \<Longrightarrow>
   chain_find k' (chain_write k f es) = (if k' = k then map_option f (chain_find k es) else chain_find k' es)"
  by (induction es) auto

lemma chain_unlink_set: "set (chain_unlink k es) \<subseteq> set es"
  by (induction es) auto

lemma chain_unlink_find:
  "distinct (map key es) \<Longrightarrow>
   chain_find k' (chain_unlink k es) = (if k' = k then None else chain_find k' es)"
  by (induction es) (auto simp: chain_find_None)

lemma chain_unlink_distinct: "distinct (map key es) \<Longrightarrow> distinct (map key (chain_unlink k es))"
  using chain_unlink_set by (induction es) (fastforce simp: image_iff)+

lemma chain_unlink_length:
  "chain_find k es = Some e \<Longrightarrow> Suc (length (chain_unlink k es)) = length es"
  by (induction es) (auto split: if_splits)

lemma chain_ok_key_eq:
  assumes "chain_ok n i es" "map key es' = map key es"
  shows "chain_ok n i es'"
proof -
  have "key ` set es' = key ` set es" using assms(2) by (metis set_map)
  then show ?thesis using assms unfolding chain_ok_def by (metis image_iff)
qed

lemma chain_ok_Nil [simp]: "chain_ok n i []"
  by (simp add: chain_ok_def)

subsection \<open>The bucket array\<close>

lemma slot_less [simp]: "0 < n \<Longrightarrow> slot n k < n"
  by (simp add: slot_def)

lemma length_concat_update:
  "i < length bs \<Longrightarrow> length (concat (bs[i := c])) + length (bs ! i) = length (concat bs) + length c"
  by (induction bs arbitrary: i) (auto split: nat.splits)

lemma chains_distinct:
  assumes "\<forall>i < length bs. chain_ok n (m + i) (bs ! i)"
  shows "distinct (map key (concat bs)) \<and> (\<forall>e \<in> set (concat bs). m \<le> slot n (key e))"
  using assms
proof (induction bs arbitrary: m)
  case Nil
  then show ?case by simp
next
  case (Cons c bs)
  from Cons.prems have c: "chain_ok n m c" by (metis add_0_right length_greater_0_conv list.discI nth_Cons_0)
  from Cons.prems have "\<forall>i < length bs. chain_ok n (Suc m + i) (bs ! i)" by fastforce
  from Cons.IH [OF this]
  have bs: "distinct (map key (concat bs))" "\<forall>e \<in> set (concat bs). Suc m \<le> slot n (key e)"
    by blast+
  have disj: "key ` set c \<inter> key ` set (concat bs) = {}"
    using c bs(2) unfolding chain_ok_def by fastforce
  have lower: "\<forall>e \<in> set c. m \<le> slot n (key e)" using c by (simp add: chain_ok_def)
  have upper: "\<forall>e \<in> set (concat bs). m \<le> slot n (key e)" using bs(2) Suc_leD by blast
  have "distinct (map key c)" using c by (simp add: chain_ok_def)
  then have "distinct (map key (concat (c # bs)))" using bs(1) disj by (simp only: concat.simps map_append distinct_append set_map)
  moreover have "\<forall>e \<in> set (concat (c # bs)). m \<le> slot n (key e)" using lower upper by auto
  ultimately show ?case ..
qed

lemma wf_distinct: "wf_table t \<Longrightarrow> distinct (map key (entries t))"
  using chains_distinct [of "buckets t" "tsize t" 0] by (simp add: wf_table_def entries_def)

lemma wf_bucket:
  assumes "wf_table t" "e \<in> set (entries t)"
  shows "e \<in> set (buckets t ! slot (tsize t) (key e))"
proof -
  from assms obtain i where i: "i < tsize t" "e \<in> set (buckets t ! i)"
    by (auto simp: wf_table_def entries_def in_concat_nth simp del: set_concat)
  with assms(1) have "slot (tsize t) (key e) = i" by (auto simp: wf_table_def chain_ok_def)
  with i show ?thesis by simp
qed

lemma bucket_entries: "wf_table t \<Longrightarrow> i < tsize t \<Longrightarrow> set (buckets t ! i) \<subseteq> set (entries t)"
  by (auto simp: wf_table_def entries_def in_concat_nth simp del: set_concat)

text \<open>Looking into one chain is looking at the whole table.\<close>

lemma find_entry_entries:
  assumes "wf_table t"
  shows "find_entry t k = chain_find k (entries t)"
  unfolding find_entry_def
proof (rule chain_find_cong)
  have i: "slot (tsize t) k < tsize t" using assms by (simp add: wf_table_def)
  then show "distinct (map key (buckets t ! slot (tsize t) k))"
    using assms by (simp add: wf_table_def chain_ok_def)
  show "distinct (map key (entries t))" using assms by (rule wf_distinct)
  show "e \<in> set (buckets t ! slot (tsize t) k) \<longleftrightarrow> e \<in> set (entries t)" if "key e = k" for e
    using that wf_bucket [OF assms, of e] bucket_entries [OF assms i] by auto
qed

lemma find_entry_iff: "wf_table t \<Longrightarrow> find_entry t k = Some e \<longleftrightarrow> e \<in> set (entries t) \<and> key e = k"
  by (simp add: find_entry_entries chain_find_iff wf_distinct)

lemma find_entry_key: "find_entry t k = Some e \<Longrightarrow> key e = k"
  by (auto simp: find_entry_def dest: chain_find_key)

text \<open>Replacing one chain.\<close>

lemma wf_update_chain:
  assumes "wf_table t" "i < tsize t" "chain_ok (tsize t) i c"
    and "n + length (buckets t ! i) = count t + length c"
  shows "wf_table (t\<lparr>buckets := (buckets t)[i := c], count := n\<rparr>)"
  using assms length_concat_update [of i "buckets t" c]
  by (auto simp: wf_table_def entries_def nth_list_update)

lemma find_entry_update_chain [table_simps]:
  assumes "wf_table t" "i < tsize t"
  shows "find_entry (t\<lparr>buckets := (buckets t)[i := c], count := n\<rparr>) k =
    (if slot (tsize t) k = i then chain_find k c else find_entry t k)"
  using assms by (auto simp: find_entry_def wf_table_def)

subsection \<open>Writing through an entry pointer\<close>

lemma write_entry_wf:
  assumes "wf_table t" "\<And>e. key (f e) = key e"
  shows "wf_table (write_entry k f t)"
proof -
  let ?i = "slot (tsize t) k"
  have i: "?i < tsize t" using assms(1) by (simp add: wf_table_def)
  have "chain_ok (tsize t) ?i (chain_write k f (buckets t ! ?i))"
    by (rule chain_ok_key_eq [of _ _ "buckets t ! ?i"]) (use assms i in \<open>auto simp: wf_table_def\<close>)
  from wf_update_chain [OF assms(1) i this, of "count t"] show ?thesis
    by (simp add: write_entry_def Let_def)
qed

lemma find_write_entry [table_simps]:
  assumes "wf_table t" "\<And>e. key (f e) = key e"
  shows "find_entry (write_entry k f t) k' =
    (if k' = k then map_option f (find_entry t k) else find_entry t k')"
proof -
  have "slot (tsize t) k < length (buckets t)" using assms(1) by (simp add: wf_table_def)
  then show ?thesis
    using assms(2) by (auto simp: find_entry_def write_entry_def Let_def chain_find_write nth_list_update)
qed

lemma write_entry_count [simp]: "count (write_entry k f t) = count t" "tsize (write_entry k f t) = tsize t"
  by (simp_all add: write_entry_def Let_def)

subsection \<open>Creating\<close>

lemma create_wf:
  assumes "hash_table_create n w = (Some t, w')" "0 < n"
  shows "wf_table t \<and> tmap t = Map.empty \<and> tsize t = n \<and> count t = 0"
proof -
  from assms have t: "t = \<lparr>buckets = replicate n [], tsize = n, count = 0\<rparr>"
    by (auto simp: hash_table_create_def Let_def split: prod.splits if_splits)
  have "concat (replicate m ([] :: entry list)) = []" for m by (induction m) auto
  then have "wf_table t" using assms(2) by (simp add: t wf_table_def entries_def)
  moreover have "tmap t k = None" for k using assms(2) by (simp add: t tmap_def find_entry_def)
  ultimately show ?thesis by (auto simp: t)
qed

lemma create_ok [world_simps]:
  "mem_ok w \<Longrightarrow> hash_table_create n w = (Some \<lparr>buckets = replicate n [], tsize = n, count = 0\<rparr>, w)"
  by (simp add: hash_table_create_def malloc_ok)

subsection \<open>Resizing\<close>

lemma rehash_chain_length [simp]: "length (rehash_chain n es nb) = length nb"
  by (induction n es nb rule: rehash_chain.induct) (auto simp: Let_def)

lemma rehash_chain_nth:
  "0 < n \<Longrightarrow> length nb = n \<Longrightarrow> j < n \<Longrightarrow>
   rehash_chain n es nb ! j = rev (filter (\<lambda>e. slot n (key e) = j) es) @ nb ! j"
  by (induction n es nb rule: rehash_chain.induct) (auto simp: Let_def nth_list_update)

lemma rehash_chain_total:
  "0 < n \<Longrightarrow> length nb = n \<Longrightarrow>
   length (concat (rehash_chain n es nb)) = length es + length (concat nb)"
proof (induction n es nb rule: rehash_chain.induct)
  case (2 n e es nb)
  let ?i = "slot n (key e)"
  have "?i < length nb" using "2.prems" by simp
  from length_concat_update [OF this, of "e # nb ! ?i"] "2.IH" [of ?i] "2.prems" show ?case
    by (simp add: Let_def)
qed simp

lemma rehash_all_length [simp]: "length (rehash_all n cs nb) = length nb"
  by (induction n cs nb rule: rehash_all.induct) auto

lemma rehash_all_nth:
  "0 < n \<Longrightarrow> length nb = n \<Longrightarrow> j < n \<Longrightarrow>
   rehash_all n cs nb ! j = rev (filter (\<lambda>e. slot n (key e) = j) (concat cs)) @ nb ! j"
  by (induction n cs nb rule: rehash_all.induct) (auto simp: rehash_chain_nth)

lemma rehash_all_total:
  "0 < n \<Longrightarrow> length nb = n \<Longrightarrow>
   length (concat (rehash_all n cs nb)) = length (concat cs) + length (concat nb)"
  by (induction n cs nb rule: rehash_all.induct) (simp_all add: rehash_chain_total)

lemma resize_entries:
  assumes "wf_table t" "hash_table_resize t n w = (True, t', w')"
  shows "wf_table t' \<and> set (entries t') = set (entries t) \<and> tsize t' = n \<and> count t' = count t"
proof -
  from assms(2) have n: "0 < n"
    and t': "t' = t\<lparr>buckets := rehash_all n (buckets t) (replicate n []), tsize := n\<rparr>"
    by (auto simp: hash_table_resize_def split: prod.splits if_splits)
  have nth: "buckets t' ! j = rev (filter (\<lambda>e. slot n (key e) = j) (entries t))" if "j < n" for j
    using that n by (simp add: t' rehash_all_nth entries_def)
  have len: "length (buckets t') = n" by (simp add: t')
  have ents: "set (entries t') = set (entries t)"
  proof (rule set_eqI)
    fix e
    have "e \<in> set (entries t') \<longleftrightarrow> (\<exists>j < n. e \<in> set (buckets t' ! j))"
      unfolding entries_def in_concat_nth len ..
    also have "\<dots> \<longleftrightarrow> e \<in> set (entries t)" using nth n by (auto intro: slot_less)
    finally show "e \<in> set (entries t') \<longleftrightarrow> e \<in> set (entries t)" .
  qed
  have chains: "chain_ok n j (buckets t' ! j)" if "j < n" for j
    using wf_distinct [OF assms(1)] that
    by (simp add: nth chain_ok_def distinct_map_filter rev_map [symmetric])
  have "length (concat (replicate n ([] :: entry list))) = 0" by simp
  then have "length (entries t') = length (entries t)"
    using n by (simp add: entries_def t' rehash_all_total del: length_concat)
  then have "wf_table t'" using assms(1) n len chains by (auto simp: wf_table_def t')
  with ents show ?thesis by (simp add: t')
qed

lemma resize_correct:
  assumes "wf_table t" "hash_table_resize t n w = (ok, t', w')"
  shows "wf_table t' \<and> find_entry t' = find_entry t"
proof (cases ok)
  case True
  with assms(2) have "hash_table_resize t n w = (True, t', w')" by simp
  from resize_entries [OF assms(1) this]
  have w: "wf_table t'" and e: "set (entries t') = set (entries t)" by simp_all
  have "find_entry t' k = find_entry t k" for k
    by (rule option_eqI) (use w e assms(1) in \<open>simp add: find_entry_iff\<close>)
  with w show ?thesis by blast
next
  case False
  with assms(2) have "t' = t" by (auto simp: hash_table_resize_def malloc_def split: if_splits)
  with assms(1) show ?thesis by simp
qed

subsection \<open>Setting a key\<close>

text \<open>Prepending a new entry to its chain.\<close>

lemma insert_entry:
  assumes "wf_table t" "find_entry t (key e) = None"
    and "t1 = t\<lparr>buckets := (buckets t)[slot (tsize t) (key e) := e # buckets t ! slot (tsize t) (key e)],
                count := count t + 1\<rparr>"
  shows "wf_table t1 \<and> find_entry t1 = (find_entry t)(key e \<mapsto> e)"
proof
  let ?i = "slot (tsize t) (key e)"
  have i: "?i < tsize t" using assms(1) by (simp add: wf_table_def)
  have "key e \<notin> key ` set (buckets t ! ?i)" using assms(2) by (simp add: find_entry_def chain_find_None)
  then have "chain_ok (tsize t) ?i (e # buckets t ! ?i)"
    using assms(1) i by (auto simp: wf_table_def chain_ok_def)
  from wf_update_chain [OF assms(1) i this, of "count t + 1"] show "wf_table t1"
    unfolding assms(3) by simp
  show "find_entry t1 = (find_entry t)(key e \<mapsto> e)"
    unfolding assms(3) find_entry_update_chain [OF assms(1) i]
    by (auto simp: find_entry_def fun_eq_iff)
qed

lemma set_existing:
  assumes "find_entry t k = Some e"
  shows "hash_table_set_with_expiry k v x t w =
    (if fst (malloc w) then (True, write_entry k (\<lambda>e. e\<lparr>val := v, expires_at := x\<rparr>) t, snd (malloc w))
     else (False, t, snd (malloc w)))"
  using assms by (simp add: hash_table_set_with_expiry_def entry_set_expiry_at_def split: prod.split)

text \<open>Setting a key never fails half-way: either nothing changed or the map has the new binding.\<close>

lemma set_new:
  assumes "wf_table t" "find_entry t k = None" "hash_table_set_with_expiry k v x t w = (ok, t', w')"
  shows "wf_table t' \<and> (if ok then find_entry t' = (find_entry t)(k \<mapsto> \<lparr>key = k, val = v, expires_at = x\<rparr>) else t' = t)"
proof (cases ok)
  case False
  with assms(2,3) show ?thesis
    using assms(1) by (auto simp: hash_table_set_with_expiry_def malloc_def Let_def split: if_splits prod.splits)
next
  case True
  define e where "e = \<lparr>key = k, val = v, expires_at = x\<rparr>"
  define t1 where "t1 = t\<lparr>buckets := (buckets t)[slot (tsize t) k := e # buckets t ! slot (tsize t) k],
    count := count t + 1\<rparr>"
  have t1: "wf_table t1" "find_entry t1 = (find_entry t)(k \<mapsto> e)"
    using insert_entry [of t e t1] assms(1,2) by (simp_all add: e_def t1_def)
  from assms(2,3) True obtain w1 ok' where
    "t' = t1 \<or> hash_table_resize t1 (tsize t1 * resize_factor) w1 = (ok', t', w')"
    by (auto simp: hash_table_set_with_expiry_def malloc_def Let_def t1_def e_def split: if_splits prod.splits)
  then have "wf_table t' \<and> find_entry t' = find_entry t1"
    using t1(1) resize_correct by blast
  with t1 True show ?thesis by (simp add: e_def)
qed

lemma set_correct:
  assumes "wf_table t" "hash_table_set_with_expiry k v x t w = (ok, t', w')"
  shows "wf_table t' \<and> tmap t' = (if ok then (tmap t)(k \<mapsto> (v, x)) else tmap t)"
proof (cases "find_entry t k")
  case None
  from set_new [OF assms(1) None assms(2)] show ?thesis
    by (auto simp: tmap_def content_def fun_eq_iff)
next
  case (Some e)
  let ?t = "write_entry k (\<lambda>e. e\<lparr>val := v, expires_at := x\<rparr>) t"
  have "tmap ?t = (tmap t)(k \<mapsto> (v, x))"
    using assms(1) Some by (auto simp: tmap_def content_def fun_eq_iff find_write_entry)
  moreover have "wf_table ?t" using assms(1) by (simp add: write_entry_wf)
  ultimately show ?thesis
    using assms set_existing [OF Some, of v x w] by (auto split: if_splits)
qed

lemma set_world:
  assumes "hash_table_set_with_expiry k v x t w = (ok, t', w')"
  shows "files w' = files w \<and> clock w' = clock w \<and> io w' = io w"
  using assms
  by (auto simp: hash_table_set_with_expiry_def hash_table_resize_def malloc_def Let_def
      split: if_splits prod.splits option.splits)

text \<open>With memory at hand a set succeeds, and the load factor stays within 0.75.\<close>

lemma set_mem_ok:
  assumes "mem_ok w" "hash_table_set_with_expiry k v x t w = (ok, t', w')"
  shows "ok \<and> w' = w"
  using assms
  by (auto simp: hash_table_set_with_expiry_def hash_table_resize_def malloc_ok Let_def
      split: if_splits prod.splits option.splits)

lemma set_balanced:
  assumes "mem_ok w" "0 < tsize t" "\<not> load_exceeded t" "hash_table_set_with_expiry k v x t w = (ok, t', w')"
  shows "\<not> load_exceeded t'"
  using assms
  by (auto simp: hash_table_set_with_expiry_def hash_table_resize_def malloc_ok Let_def
      load_exceeded_def resize_factor_def split: if_splits prod.splits option.splits) presburger

subsection \<open>Deleting a key\<close>

lemma delete_correct:
  assumes "wf_table t" "hash_table_delete k t = (ok, t')"
  shows "wf_table t' \<and> ok = (tmap t k \<noteq> None) \<and> tmap t' = (tmap t)(k := None)"
proof (cases "find_entry t k")
  case None
  with assms show ?thesis
    by (auto simp: hash_table_delete_def Let_def find_entry_def tmap_def fun_eq_iff)
next
  case (Some e)
  let ?i = "slot (tsize t) k"
  let ?c = "chain_unlink k (buckets t ! ?i)"
  have i: "?i < tsize t" and c: "chain_ok (tsize t) ?i (buckets t ! ?i)" using assms(1) by (simp_all add: wf_table_def)
  have find: "chain_find k (buckets t ! ?i) = Some e" using Some by (simp add: find_entry_def)
  have t': "ok" "t' = t\<lparr>buckets := (buckets t)[?i := ?c], count := count t - 1\<rparr>"
    using assms(2) find by (auto simp: hash_table_delete_def Let_def)
  have "chain_ok (tsize t) ?i ?c"
    using c chain_unlink_distinct chain_unlink_set unfolding chain_ok_def by fastforce
  moreover have "Suc (length ?c) = length (buckets t ! ?i)" using find by (rule chain_unlink_length)
  moreover have "length (buckets t ! ?i) \<le> count t"
    using assms(1) i length_concat_update [of ?i "buckets t" "[]"] by (simp add: wf_table_def entries_def)
  ultimately have "wf_table t'" unfolding t'(2) by (intro wf_update_chain [OF assms(1) i]) auto
  moreover have "tmap t' k' = ((tmap t)(k := None)) k'" for k'
    using c unfolding t'(2) tmap_def find_entry_update_chain [OF assms(1) i]
    by (auto simp: chain_unlink_find chain_ok_def find_entry_def)
  ultimately show ?thesis using t'(1) Some by (auto simp: tmap_def)
qed

subsection \<open>Reading\<close>

lemma tmap_find: "find_entry t k = Some e \<Longrightarrow> tmap t k = Some (val e, expires_at e)"
  by (simp add: tmap_def content_def)

lemma get_correct: "fst (hash_table_get t k w) = visible (now w) (tmap t) k"
  using entry_is_expired_live [of "the (find_entry t k)" w]
  by (auto simp: hash_table_get_def visible_def tmap_def content_def split: option.splits prod.splits)

lemma ttl_correct:
  "fst (hash_table_ttl t k w) = (case tmap t k of
      None \<Rightarrow> -2
    | Some (v, x) \<Rightarrow> if x = 0 then -1 else if live_at (now w) x then sub_time x (now w) else -2)"
  by (auto simp: hash_table_ttl_def tmap_def content_def live_at_iff time_now_def now_def
      split: option.splits)

subsection \<open>The contract of the store\<close>

text \<open>
  What the persistence and the command layers use of the table: \<open>put\<close> binds a key or fails without
  effect, \<open>rem\<close> unbinds it and says whether it was bound.  \<open>run\<close> is the client that applies a list
  of bindings and removals in order and stops at the first failing \<open>put\<close>.
\<close>

locale kv_store =
  fixes inv :: "'t \<Rightarrow> bool"
    and lookup :: "'t \<Rightarrow> 'k \<Rightarrow> 'v option"
    and put :: "'k \<Rightarrow> 'v \<Rightarrow> 't \<Rightarrow> 'w \<Rightarrow> bool \<times> 't \<times> 'w"
    and rem :: "'k \<Rightarrow> 't \<Rightarrow> bool \<times> 't"
  assumes put_law: "inv t \<Longrightarrow> put k v t w = (ok, t', w') \<Longrightarrow>
      inv t' \<and> lookup t' = (if ok then (lookup t)(k \<mapsto> v) else lookup t)"
    and rem_law: "inv t \<Longrightarrow> rem k t = (ok, t') \<Longrightarrow>
      inv t' \<and> ok = (lookup t k \<noteq> None) \<and> lookup t' = (lookup t)(k := None)"
begin

fun run :: "('k \<times> 'v option) list \<Rightarrow> 't \<Rightarrow> 'w \<Rightarrow> bool \<times> 't \<times> 'w" where
  "run [] t w = (True, t, w)"
| "run ((k, None) # ops) t w = run ops (snd (rem k t)) w"
| "run ((k, Some v) # ops) t w =
     (let (ok, t, w) = put k v t w in if ok then run ops t w else (False, t, w))"

lemma put_inv: "inv t \<Longrightarrow> put k v t w = (ok, t', w') \<Longrightarrow> inv t'"
  using put_law by blast

lemma put_get: "inv t \<Longrightarrow> put k v t w = (True, t', w') \<Longrightarrow> lookup t' = (lookup t)(k \<mapsto> v)"
  by (auto dest: put_law)

lemma put_failed: "inv t \<Longrightarrow> put k v t w = (False, t', w') \<Longrightarrow> lookup t' = lookup t"
  by (auto dest: put_law)

lemma rem_inv: "inv t \<Longrightarrow> inv (snd (rem k t))"
  using rem_law [of t k] by (cases "rem k t") auto

lemma rem_get: "inv t \<Longrightarrow> lookup (snd (rem k t)) = (lookup t)(k := None)"
  using rem_law [of t k] by (cases "rem k t") auto

lemma rem_bound: "inv t \<Longrightarrow> fst (rem k t) = (lookup t k \<noteq> None)"
  using rem_law [of t k] by (cases "rem k t") auto

lemma put_then_rem:
  "inv t \<Longrightarrow> put k v t w = (True, t', w') \<Longrightarrow> lookup (snd (rem k t')) = (lookup t)(k := None)"
  by (simp add: put_inv put_get rem_get)

lemma run_refines:
  assumes "inv t" "run ops t w = (ok, t', w')"
  shows "inv t' \<and> (ok \<longrightarrow> lookup t' = fold bind_key ops (lookup t))"
  using assms
proof (induction ops t w rule: run.induct)
  case (1 t w)
  then show ?case by simp
next
  case (2 k ops t w)
  then show ?case by (simp add: rem_inv rem_get del: fun_upd_apply)
next
  case (3 k v ops t w)
  obtain ok1 t1 w1 where p: "put k v t w = (ok1, t1, w1)" by (cases "put k v t w") auto
  have "inv t1" using "3.prems"(1) p by (rule put_inv)
  with 3 p show ?case by (auto simp: put_get simp del: fun_upd_apply split: if_splits)
qed

end

interpretation ht: kv_store wf_table tmap "\<lambda>k (v, x). hash_table_set_with_expiry k v x" hash_table_delete
proof unfold_locales
  fix t k and vx :: "cstr \<times> time_t" and w ok t' w'
  assume "wf_table t" "(case vx of (v, x) \<Rightarrow> hash_table_set_with_expiry k v x) t w = (ok, t', w')"
  then show "wf_table t' \<and> tmap t' = (if ok then (tmap t)(k \<mapsto> vx) else tmap t)"
    by (cases vx) (use set_correct in fastforce)
next
  fix t k ok t'
  assume "wf_table t" "hash_table_delete k t = (ok, t')"
  then show "wf_table t' \<and> ok = (tmap t k \<noteq> None) \<and> tmap t' = (tmap t)(k := None)"
    by (rule delete_correct)
qed

subsection \<open>Properties\<close>

definition empty_table :: "nat \<Rightarrow> hash_table" where
  "empty_table n = \<lparr>buckets = replicate n [], tsize = n, count = 0\<rparr>"

lemma empty_table_wf [simp]:
  "0 < n \<Longrightarrow> wf_table (empty_table n)" "0 < n \<Longrightarrow> tmap (empty_table n) = Map.empty"
  using create_wf [of n "calm 0 Map.empty" "empty_table n" "calm 0 Map.empty"]
  by (simp_all add: create_ok empty_table_def)

lemma empty_table_find [simp]: "0 < n \<Longrightarrow> find_entry (empty_table n) k = None"
  by (simp add: empty_table_def find_entry_def)

text \<open>
  \<open>hash_table_set_with_expiry\<close> is a map update or has no effect.  On a well-formed table, whatever
  the allocator does, it leaves a well-formed table; when it reports success the table stands for the
  old map with the key bound to the value and the expiration, when it reports failure for the old map,
  and it can only fail when memory runs out.
\<close>

lemma set_is_map_update:
  assumes "wf_table t" "hash_table_set_with_expiry k v x t w = (ok, t', w')"
  shows "wf_table t' \<and> tmap t' = (if ok then (tmap t)(k \<mapsto> (v, x)) else tmap t) \<and> (ok \<or> \<not> mem_ok w)"
  using ht.put_law [OF assms(1), of k "(v, x)" w] set_mem_ok [of w k v x t ok t' w'] assms(2) by auto

definition one_table :: "cstr \<Rightarrow> cstr \<Rightarrow> time_t \<Rightarrow> hash_table" where
  "one_table k v x = fst (snd (hash_table_set_with_expiry k v x (empty_table 8) (calm 0 Map.empty)))"

lemma one_table [simp]:
  "wf_table (one_table k v x)" "tmap (one_table k v x) = [k \<mapsto> (v, x)]" "\<not> load_exceeded (one_table k v x)"
proof -
  obtain ok t' w' where s: "hash_table_set_with_expiry k v x (empty_table 8) (calm 0 Map.empty) = (ok, t', w')"
    by (metis prod_cases3)
  then have t': "one_table k v x = t'" "ok" using set_mem_ok [OF _ s] by (simp_all add: one_table_def)
  show "wf_table (one_table k v x)" "tmap (one_table k v x) = [k \<mapsto> (v, x)]"
    using set_correct [OF _ s] t' by simp_all
  have "\<not> load_exceeded (empty_table 8)" "0 < tsize (empty_table 8)"
    by (simp_all add: load_exceeded_def empty_table_def)
  then show "\<not> load_exceeded (one_table k v x)" using set_balanced [OF _ _ _ s] t' by simp
qed

text \<open>
  \<open>hash_table_resize\<close> keeps the map.  Rehashing into any positive number of buckets gives a
  well-formed table with the same entries and the same count; a size of zero or a failing allocation
  leaves the table as it is.
\<close>

lemma resize_keeps_map:
  assumes "wf_table t" "hash_table_resize t n w = (ok, t', w')"
  shows "wf_table t' \<and> tmap t' = tmap t \<and> count t' = count t \<and> (if ok then tsize t' = n else t' = t)
    \<and> (ok \<or> n = 0 \<or> \<not> mem_ok w)"
proof -
  have "tmap t' = tmap t" using resize_correct [OF assms] by (simp add: tmap_def fun_eq_iff)
  moreover have "\<not> ok \<Longrightarrow> t' = t \<and> (n = 0 \<or> \<not> mem_ok w)"
    using assms(2) by (auto simp: hash_table_resize_def malloc_ok split: prod.splits if_splits)
  ultimately show ?thesis using resize_correct [OF assms] resize_entries [OF assms(1)] assms(2) by auto
qed

text \<open>
  C28: while memory lasts, the load factor never passes 0.75: a set on a table with
  \<open>count / size \<le> 0.75\<close> leaves such a table, because the table doubles as soon as the new entry
  would exceed the bound, and it never does anything else to the size.
\<close>

theorem set_keeps_load_factor:
  assumes "mem_ok w" "wf_table t" "4 * count t \<le> 3 * tsize t"
    and "hash_table_set_with_expiry k v x t w = (ok, t', w')"
  shows "4 * count t' \<le> 3 * tsize t' \<and> tsize t' \<in> {tsize t, 2 * tsize t}"
proof -
  have "\<not> load_exceeded t'"
    using set_balanced [OF assms(1) _ _ assms(4)] assms(2,3) by (simp add: wf_table_def load_exceeded_def)
  moreover have "tsize t' \<in> {tsize t, 2 * tsize t}"
    using assms(4) by (auto simp: hash_table_set_with_expiry_def hash_table_resize_def malloc_ok [OF assms(1)]
        Let_def resize_factor_def split: if_splits prod.splits option.splits)
  ultimately show ?thesis by (simp add: load_exceeded_def)
qed

theorem set_keeps_load_factor_witness:
  "\<exists>t' w'. hash_table_set_with_expiry ''c'' ''d'' 0 (one_table ''a'' ''b'' 0) (calm 0 Map.empty) = (True, t', w')
    \<and> 4 * count t' \<le> 3 * tsize t'"
proof -
  obtain ok t' w' where s:
    "hash_table_set_with_expiry ''c'' ''d'' 0 (one_table ''a'' ''b'' 0) (calm 0 Map.empty) = (ok, t', w')"
    by (metis prod_cases3)
  have "4 * count (one_table ''a'' ''b'' 0) \<le> 3 * tsize (one_table ''a'' ''b'' 0)"
    using one_table(3) [of "''a''" "''b''" 0] by (simp add: load_exceeded_def)
  from set_keeps_load_factor [OF _ _ this s] set_mem_ok [OF _ s] s show ?thesis by auto
qed

text \<open>
  What a reader of the table sees.  \<open>hash_table_get\<close> returns the value of the key when it is bound and
  not expired at the time of the call and \<open>NULL\<close> otherwise; \<open>hash_table_ttl\<close> returns the seconds that
  remain, \<open>-1\<close> for a key that does not expire and \<open>-2\<close> for an absent or an expired one.
\<close>

lemma get_and_ttl_read_the_map:
  "fst (hash_table_get t k w) = visible (now w) (tmap t) k
   \<and> fst (hash_table_ttl t k w) =
      (case visible (now w) (tmap t) k of
         None \<Rightarrow> -2
       | Some _ \<Rightarrow> (case snd (the (tmap t k)) of x \<Rightarrow> if x = 0 then -1 else sub_time x (now w)))"
  using get_correct [of t k w] ttl_correct [of t k w]
  by (auto simp: visible_def live_at_iff split: option.splits)

text \<open>
  \<open>hash_key\<close> is the polynomial hash with base 31 of the unsigned bytes, computed modulo \<open>2^64\<close>:
  the wrap-around of the intermediate \<open>size_t\<close> values does not matter.
\<close>

lemma hash_key_polynomial:
  "unat (hash_key k) = foldl (\<lambda>h c. 31 * h + of_char c) 0 k mod 2 ^ 64"
proof -
  have "hash_loop (of_nat h) k = of_nat (foldl (\<lambda>h c. 31 * h + of_char c) h k)" for h
  proof (induction k arbitrary: h)
    case (Cons c k)
    have "of_nat h * 31 + of_char c = (of_nat (31 * h + of_char c) :: u64)"
      by (simp add: mult.commute of_nat_of_char)
    with Cons [of "31 * h + of_char c"] show ?case by (simp only: hash_loop.simps foldl.simps)
  qed simp
  from this [of 0] show ?thesis by (simp add: hash_key_def unat_of_nat)
qed

end
