(* ===== verification/Persistence.thy ===== *)
theory Persistence
  imports HashTable
begin

text \<open>
  The append-only file of \<^verbatim>\<open>src/persistence.c\<close>: appending a record, replaying the file at start-up
  and rewriting it from the table.

  Records are byte lists, printed with the code's formats and read back with the scanner of
  \<open>CLib\<close>.  A record of the log is abstractly an \<open>aof_op\<close>.  The lemmas show that loading a file
  that is a concatenation of records replays exactly these operations, that a torn last record is
  always rejected, and that a rewrite leaves the records of the live entries.  The interface
  between the file format and its consumer is the locale \<open>log_file\<close> with its extension
  \<open>torn_log_file\<close>, interpreted on \<open>load_loop\<close>.
\<close>

definition aof_file :: string where
  "aof_file = ''data.aof''"

definition tmp_file :: string where
  "tmp_file = ''data.aof.tmp''"

text \<open>The two formats \<^verbatim>\<open>"SET %zu:%s%zu:%s\n"\<close> and \<^verbatim>\<open>"SET %zu:%s%zu:%s EXAT %lld\n"\<close>, and \<^verbatim>\<open>"DEL %zu:%s\n"\<close>.\<close>

definition set_record :: "cstr \<Rightarrow> cstr \<Rightarrow> time_t \<Rightarrow> string" where
  "set_record k v x =
     (if x = 0
      then ''SET '' @ show_nat (length k) @ '':'' @ k @ show_nat (length v) @ '':'' @ v @ [NL]
      else ''SET '' @ show_nat (length k) @ '':'' @ k @ show_nat (length v) @ '':'' @ v
             @ '' EXAT '' @ show_int x @ [NL])"

definition del_record :: "cstr \<Rightarrow> string" where
  "del_record k = ''DEL '' @ show_nat (length k) @ '':'' @ k @ [NL]"

subsection \<open>Appending\<close>

definition persistence_append_set_expiry :: "cstr \<Rightarrow> cstr \<Rightarrow> time_t \<Rightarrow> world \<Rightarrow> bool \<times> world" where
  "persistence_append_set_expiry k v x w =
     (let (ok, w) = fopen_append aof_file w in
      if \<not> ok then (False, w)
      else let (ok, buf, w) = fprintf [] (set_record k v x) w in
      if \<not> ok then (let (_, w) = fclose aof_file buf w in (False, w))
      else let (ok, w) = fclose aof_file buf w in
      if \<not> ok then (False, w) else (True, w))"

definition persistence_append_set :: "cstr \<Rightarrow> cstr \<Rightarrow> world \<Rightarrow> bool \<times> world" where
  "persistence_append_set k v w = persistence_append_set_expiry k v 0 w"

definition persistence_append_del :: "cstr \<Rightarrow> world \<Rightarrow> bool \<times> world" where
  "persistence_append_del k w =
     (let (ok, w) = fopen_append aof_file w in
      if \<not> ok then (False, w)
      else let (ok, buf, w) = fprintf [] (del_record k) w in
      if \<not> ok then (let (_, w) = fclose aof_file buf w in (False, w))
      else let (ok, w) = fclose aof_file buf w in
      if \<not> ok then (False, w) else (True, w))"

subsection \<open>Loading\<close>

text \<open>
  A length-prefixed field: \<^verbatim>\<open>fscanf("%zu")\<close>, \<^verbatim>\<open>fgetc() == ':'\<close>, \<^verbatim>\<open>malloc(length + 1)\<close>, \<^verbatim>\<open>fread\<close> and the NUL.  The size
  that \<^verbatim>\<open>malloc\<close> is asked for is a \<^verbatim>\<open>size_t\<close>, and its sum wraps.  The buffer is the number of its bytes and what has been written
  to it from its start; a write past its end has no result, which is \<open>Scan_overflow\<close>.  The field is used as a C string
  afterwards.
\<close>

definition string_size :: "nat \<Rightarrow> nat" where
  "string_size n = unat (of_nat n + 1 :: u64)"

definition buffer_write :: "nat \<Rightarrow> string \<Rightarrow> string \<Rightarrow> string option" where
  "buffer_write room b bs = (if length b + length bs \<le> room then Some (b @ bs) else None)"

datatype scan = Scan_ok cstr string world | Scan_fail world | Scan_overflow

definition load_field :: "string \<Rightarrow> world \<Rightarrow> scan" where
  "load_field s w =
     (case scan_zu s of
        None \<Rightarrow> Scan_fail w
      | Some (n, s) \<Rightarrow>
          let (c, s) = fgetc s in
          if c \<noteq> Some (CHR '':'') then Scan_fail w
          else let (ok, w) = malloc w in
          if \<not> ok then Scan_fail w
          else (case buffer_write (string_size n) [] (take n s) of
              None \<Rightarrow> Scan_overflow
            | Some b \<Rightarrow>
                if length b \<noteq> n then Scan_fail w
                else (case buffer_write (string_size n) b [NUL] of
                    None \<Rightarrow> Scan_overflow
                  | Some b \<Rightarrow> Scan_ok (c_str b) (drop n s) w)))"

text \<open>A length and one byte fit in the buffer but for the length at which the sum wraps to \<open>0\<close>.\<close>

lemma string_size_mod: "string_size n = (n + 1) mod 2 ^ 64"
proof -
  have "(of_nat n + 1 :: u64) = of_nat (n + 1)" by simp
  then show ?thesis unfolding string_size_def by (simp only: unat_of_nat) simp
qed

lemma c_str_nul [simp]: "c_str (s @ [NUL]) = c_str s"
  by (induction s) (simp_all add: c_str_def)

lemma scan_zu_range: "scan_zu s = Some (n, r) \<Longrightarrow> n < 2 ^ 64"
  by (auto simp: scan_zu_def clamp_u64_def split: if_splits)

lemma load_field_eq:
  "load_field s w =
     (case scan_zu s of
        None \<Rightarrow> Scan_fail w
      | Some (n, s) \<Rightarrow>
          let (c, s) = fgetc s in
          if c \<noteq> Some (CHR '':'') then Scan_fail w
          else let (ok, w) = malloc w in
          if \<not> ok then Scan_fail w
          else if n + 1 = 2 ^ 64 \<and> s \<noteq> [] then Scan_overflow
          else if length (take n s) \<noteq> n then Scan_fail w
          else Scan_ok (c_str (take n s)) (drop n s) w)"
proof (cases "scan_zu s")
  case (Some nr)
  obtain n r where z: "scan_zu s = Some (n, r)" using Some by (cases nr) auto
  show ?thesis
  proof (cases "n + 1 = 2 ^ 64")
    case True
    then have n: "n = 2 ^ 64 - 1" by simp
    then have "string_size n = 0" by (simp add: string_size_mod)
    moreover have "min (length r') 18446744073709551615 = 0 \<longleftrightarrow> r' = []" for r' :: string by (cases r') auto
    ultimately show ?thesis using z n by (auto simp: load_field_def buffer_write_def Let_def split: prod.split)
  next
    case False
    then have "string_size n = n + 1" using scan_zu_range [OF z] by (simp add: string_size_mod)
    then show ?thesis using z False by (auto simp: load_field_def buffer_write_def Let_def split: prod.split)
  qed
qed (simp add: load_field_def)

text \<open>The optional expiration: a newline, or \<^verbatim>\<open>" %4s %lld\n"\<close> with the word \<^verbatim>\<open>EXAT\<close>.\<close>

definition load_expiry :: "string \<Rightarrow> (time_t \<times> string) option" where
  "load_expiry s =
     (let (c, s) = fgetc s in
      if c = Some NL then Some (0, s)
      else if c = Some (CHR '' '') then
        (case scan_str 4 s of
           None \<Rightarrow> None
         | Some (word, s) \<Rightarrow>
             (case scan_lld s of
                None \<Rightarrow> None
              | Some (x, s) \<Rightarrow>
                  if c_str word \<noteq> ''EXAT'' then None
                  else let (c, s) = fgetc s in
                  if c \<noteq> Some NL then None else Some (x, s)))
      else None)"

datatype load_step = Load_next string hash_table world | Load_fail hash_table world | Load_overflow

definition load_set :: "string \<Rightarrow> hash_table \<Rightarrow> world \<Rightarrow> load_step" where
  "load_set s t w =
     (case load_field s w of
        Scan_overflow \<Rightarrow> Load_overflow
      | Scan_fail w \<Rightarrow> Load_fail t w
      | Scan_ok k s w \<Rightarrow>
          (case load_field s w of
             Scan_overflow \<Rightarrow> Load_overflow
           | Scan_fail w \<Rightarrow> Load_fail t w
           | Scan_ok v s w \<Rightarrow>
               (case load_expiry s of
                  None \<Rightarrow> Load_fail t w
                | Some (x, s) \<Rightarrow>
                    let (skip, w) = (if x \<noteq> 0 then let (n, w) = time_now w in (n \<ge> x, w) else (False, w)) in
                    if skip then Load_next s t w
                    else let (ok, t, w) = hash_table_set_with_expiry k v x t w in
                    if \<not> ok then Load_fail t w else Load_next s t w)))"

definition load_del :: "string \<Rightarrow> hash_table \<Rightarrow> world \<Rightarrow> load_step" where
  "load_del s t w =
     (case load_field s w of
        Scan_overflow \<Rightarrow> Load_overflow
      | Scan_fail w \<Rightarrow> Load_fail t w
      | Scan_ok k s w \<Rightarrow>
          let (_, t) = hash_table_delete k t; (c, s) = fgetc s in
          if c \<noteq> Some NL then Load_fail t w else Load_next s t w)"

lemma load_field_le: "load_field s w = Scan_ok k r w' \<Longrightarrow> length r \<le> length s"
  by (auto simp: load_field_eq Let_def split: option.splits prod.splits if_splits
      dest!: scan_zu_le fgetc_le)

lemma load_expiry_le: "load_expiry s = Some (x, r) \<Longrightarrow> length r \<le> length s"
  by (auto simp: load_expiry_def Let_def split: option.splits prod.splits if_splits
      dest!: scan_lld_le fgetc_le scan_str_shorter)

lemma load_set_le: "load_set s t w = Load_next r t' w' \<Longrightarrow> length r \<le> length s"
  by (auto simp: load_set_def Let_def split: scan.splits option.splits prod.splits if_splits
      dest!: load_field_le load_expiry_le)

lemma load_del_le: "load_del s t w = Load_next r t' w' \<Longrightarrow> length r \<le> length s"
  by (auto simp: load_del_def Let_def split: scan.splits prod.splits if_splits
      dest!: load_field_le fgetc_le)

text \<open>The loop over the records; \<open>None\<close> is the overflow of \<open>Scan_overflow\<close>.\<close>

function load_loop :: "string \<Rightarrow> hash_table \<Rightarrow> world \<Rightarrow> (bool \<times> hash_table \<times> world) option" where
  "load_loop s t w =
     (case scan_str 3 s of
        None \<Rightarrow> Some (True, t, w)
      | Some (command, r) \<Rightarrow>
          if c_str command = ''SET'' then
            (case load_set r t w of
               Load_overflow \<Rightarrow> None
             | Load_fail t w \<Rightarrow> Some (False, t, w)
             | Load_next r t w \<Rightarrow> load_loop r t w)
          else if c_str command = ''DEL'' then
            (case load_del r t w of
               Load_overflow \<Rightarrow> None
             | Load_fail t w \<Rightarrow> Some (False, t, w)
             | Load_next r t w \<Rightarrow> load_loop r t w)
          else Some (False, t, w))"
  by pat_completeness auto
termination
  by (relation "measure (\<lambda>(s, t, w). length s)")
    (auto dest!: scan_str_shorter load_set_le load_del_le)

declare load_loop.simps [simp del]

definition persistence_load :: "hash_table \<Rightarrow> world \<Rightarrow> (bool \<times> hash_table \<times> world) option" where
  "persistence_load t w =
     (let (file, w) = fopen_read aof_file w in
      case file of None \<Rightarrow> Some (True, t, w) | Some s \<Rightarrow> load_loop s t w)"

subsection \<open>Rewriting\<close>

fun rewrite_chain :: "entry list \<Rightarrow> string \<Rightarrow> world \<Rightarrow> bool \<times> string \<times> world" where
  "rewrite_chain [] buf w = (True, buf, w)"
| "rewrite_chain (e # es) buf w =
     (let (expired, w) = entry_is_expired (Some e) w in
      if expired then rewrite_chain es buf w
      else let (ok, buf, w) = fprintf buf (set_record (key e) (val e) (expires_at e)) w in
      if \<not> ok then (False, buf, w) else rewrite_chain es buf w)"

fun rewrite_buckets :: "entry list list \<Rightarrow> string \<Rightarrow> world \<Rightarrow> bool \<times> string \<times> world" where
  "rewrite_buckets [] buf w = (True, buf, w)"
| "rewrite_buckets (c # cs) buf w =
     (let (ok, buf, w) = rewrite_chain c buf w in
      if \<not> ok then (False, buf, w) else rewrite_buckets cs buf w)"

definition persistence_rewrite :: "hash_table \<Rightarrow> world \<Rightarrow> bool \<times> world" where
  "persistence_rewrite t w =
     (let (ok, w) = fopen_write tmp_file w in
      if \<not> ok then (False, w)
      else let (ok, buf, w) = rewrite_buckets (buckets t) [] w in
      if \<not> ok then (let (_, w) = fclose tmp_file buf w in (False, w))
      else let (ok, w) = fclose tmp_file buf w in
      if \<not> ok then (False, w)
      else let (ok, w) = rename tmp_file aof_file w in
      if \<not> ok then (False, w) else (True, w))"

subsection \<open>The log, abstractly\<close>

datatype aof_op = Op_set cstr cstr time_t | Op_del cstr

fun op_key :: "aof_op \<Rightarrow> cstr" where
  "op_key (Op_set k v x) = k"
| "op_key (Op_del k) = k"

fun render :: "aof_op \<Rightarrow> string" where
  "render (Op_set k v x) = set_record k v x"
| "render (Op_del k) = del_record k"

text \<open>Keys and values are C strings that fit in memory, timestamps are 64-bit.\<close>

definition c_field :: "cstr \<Rightarrow> bool" where
  "c_field s \<longleftrightarrow> no_nul s \<and> length s < 2 ^ 64 - 1"

fun good_op :: "aof_op \<Rightarrow> bool" where
  "good_op (Op_set k v x) \<longleftrightarrow> c_field k \<and> c_field v \<and> - (2 ^ 63) \<le> x \<and> x < 2 ^ 63"
| "good_op (Op_del k) \<longleftrightarrow> c_field k"

text \<open>The bindings a replayed operation applies: none when its expiration has passed.\<close>

fun op_effect :: "aof_op \<Rightarrow> world \<Rightarrow> (cstr \<times> (cstr \<times> time_t) option) list \<times> world" where
  "op_effect (Op_set k v x) w =
     (if x = 0 then ([(k, Some (v, x))], w)
      else let (n, w) = time_now w in (if n \<ge> x then [] else [(k, Some (v, x))], w))"
| "op_effect (Op_del k) w = ([(k, None)], w)"

fun replay_op :: "aof_op \<Rightarrow> hash_table \<times> world \<Rightarrow> hash_table \<times> world" where
  "replay_op op (t, w) = (let (bs, w) = op_effect op w in snd (ht.run bs t w))"

text \<open>What one file means to a state; \<open>None\<close> is a rejected file.\<close>

definition load_state :: "string \<Rightarrow> hash_table \<times> world \<Rightarrow> (hash_table \<times> world) option" where
  "load_state s tw =
     (case load_loop s (fst tw) (snd tw) of Some (True, t, w) \<Rightarrow> Some (t, w) | _ \<Rightarrow> None)"

subsection \<open>Fields and expirations read back\<close>

lemma load_field_printed [scan_simps]:
  assumes "mem_ok w" "c_field k"
  shows "load_field (show_nat (length k) @ CHR '':'' # k @ r) w = Scan_ok k r w"
proof -
  have "scan_zu (show_nat (length k) @ CHR '':'' # k @ r) = Some (length k, CHR '':'' # k @ r)"
    by (rule scan_zu_show_nat) (use assms(2) in \<open>auto simp: c_field_def\<close>)
  then show ?thesis using assms by (simp add: load_field_eq malloc_ok c_field_def)
qed

lemma load_field_space [scan_simps]: "isspace c \<Longrightarrow> load_field (c # s) w = load_field s w"
  by (simp add: load_field_eq scan_zu_space)

lemma load_expiry_none [scan_simps]: "load_expiry (NL # r) = Some (0, r)"
  by (simp add: load_expiry_def)

lemma scan_exat [scan_simps]: "scan_str 4 (''EXAT '' @ r) = Some (''EXAT'', CHR '' '' # r)"
proof -
  have "\<not> isspace CHR ''X''" "\<not> isspace CHR ''A''" "\<not> isspace CHR ''T''"
    by (simp_all add: isspace_def)
  then show ?thesis by (simp add: scan_str_def)
qed

lemma load_expiry_printed [scan_simps]:
  assumes "- (2 ^ 63) \<le> x" "x < 2 ^ 63"
  shows "load_expiry ('' EXAT '' @ show_int x @ NL # r) = Some (x, r)"
proof -
  have "scan_lld (show_int x @ NL # r) = Some (x, NL # r)"
    by (rule scan_lld_show_int) (use assms in auto)
  then show ?thesis
    using scan_exat [of "show_int x @ NL # r"]
    by (simp add: load_expiry_def scan_lld_space)
qed

lemma scan_command [scan_simps]:
  "scan_str 3 (''SET '' @ r) = Some (''SET'', CHR '' '' # r)"
  "scan_str 3 (''DEL '' @ r) = Some (''DEL'', CHR '' '' # r)"
proof -
  have "\<not> isspace CHR ''T''" "\<not> isspace CHR ''L''" by (simp_all add: isspace_def)
  then show "scan_str 3 (''SET '' @ r) = Some (''SET'', CHR '' '' # r)"
    "scan_str 3 (''DEL '' @ r) = Some (''DEL'', CHR '' '' # r)"
    by (simp_all add: scan_str_def)
qed

subsection \<open>Replaying a record\<close>

lemma load_loop_empty: "load_loop [] t w = Some (True, t, w)"
  by (simp add: load_loop.simps [of "[]"] scan_str_empty)

lemma load_loop_set:
  "load_loop (''SET '' @ r) t w =
    (case load_set r t w of
       Load_overflow \<Rightarrow> None
     | Load_fail t w \<Rightarrow> Some (False, t, w)
     | Load_next r t w \<Rightarrow> load_loop r t w)"
proof -
  have "load_set (CHR '' '' # r) t w = load_set r t w"
    by (simp add: load_set_def load_field_space)
  then show ?thesis
    by (subst load_loop.simps) (use scan_command(1) [of r] in simp)
qed

lemma load_loop_del:
  "load_loop (''DEL '' @ r) t w =
    (case load_del r t w of
       Load_overflow \<Rightarrow> None
     | Load_fail t w \<Rightarrow> Some (False, t, w)
     | Load_next r t w \<Rightarrow> load_loop r t w)"
proof -
  have "load_del (CHR '' '' # r) t w = load_del r t w"
    by (simp add: load_del_def load_field_space)
  then show ?thesis
    by (subst load_loop.simps) (use scan_command(2) [of r] in simp)
qed

text \<open>The two formats of a SET record in one.\<close>

definition expiry_text :: "time_t \<Rightarrow> string" where
  "expiry_text x = (if x = 0 then [NL] else '' EXAT '' @ show_int x @ [NL])"

definition field_text :: "cstr \<Rightarrow> string" where
  "field_text k = show_nat (length k) @ CHR '':'' # k"

lemma set_record_parts: "set_record k v x = ''SET '' @ field_text k @ field_text v @ expiry_text x"
  by (simp add: set_record_def expiry_text_def field_text_def)

lemma del_record_parts: "del_record k = ''DEL '' @ field_text k @ [NL]"
  by (simp add: del_record_def field_text_def)

lemma load_field_text [scan_simps]:
  "mem_ok w \<Longrightarrow> c_field k \<Longrightarrow> load_field (field_text k @ r) w = Scan_ok k r w"
  by (simp add: field_text_def load_field_printed)

lemma load_expiry_text [scan_simps]:
  "- (2 ^ 63) \<le> x \<Longrightarrow> x < 2 ^ 63 \<Longrightarrow> load_expiry (expiry_text x @ r) = Some (x, r)"
  using load_expiry_printed [of x r] by (simp add: expiry_text_def load_expiry_none)

lemma run_single_put:
  "mem_ok w \<Longrightarrow> ht.run [(k, Some (v, x))] t w = hash_table_set_with_expiry k v x t w"
  using set_mem_ok [of w k v x t] by (auto split: prod.splits)

lemma load_set_printed:
  assumes "mem_ok w" "good_op (Op_set k v x)"
  shows "load_set (field_text k @ field_text v @ expiry_text x @ r) t w =
    (case replay_op (Op_set k v x) (t, w) of (t', w') \<Rightarrow> Load_next r t' w')"
proof -
  obtain ok t1 w1 where set: "hash_table_set_with_expiry k v x t w = (ok, t1, w1)"
    by (metis prod_cases3)
  have "mem_ok (snd (time_now w))" using assms(1) by (simp add: mem_ok_def)
  obtain ok2 t2 w2 where set2: "hash_table_set_with_expiry k v x t (snd (time_now w)) = (ok2, t2, w2)"
    by (metis prod_cases3)
  note sets = set_mem_ok [OF assms(1) set] set_mem_ok [OF \<open>mem_ok (snd (time_now w))\<close> set2]
  show ?thesis
    using assms set set2 sets
    by (auto simp: load_set_def load_field_text load_expiry_text run_single_put Let_def
        split: prod.splits)
qed

lemma load_del_printed:
  "mem_ok w \<Longrightarrow> good_op (Op_del k) \<Longrightarrow>
   load_del (field_text k @ NL # r) t w = (case replay_op (Op_del k) (t, w) of (t', w') \<Rightarrow> Load_next r t' w')"
  by (simp add: load_del_def load_field_text split: prod.splits)

lemma load_loop_render:
  assumes "mem_ok w" "good_op op"
  shows "load_loop (render op @ r) t w = (case replay_op op (t, w) of (t', w') \<Rightarrow> load_loop r t' w')"
proof (cases op)
  case (Op_set k v x)
  then show ?thesis
    using assms load_loop_set [of "field_text k @ field_text v @ expiry_text x @ r"] load_set_printed
    by (simp add: set_record_parts split: prod.splits)
next
  case (Op_del k)
  then show ?thesis
    using assms load_loop_del [of "field_text k @ NL # r"] load_del_printed
    by (simp add: del_record_parts split: prod.splits)
qed

subsection \<open>What replaying does to the map and the environment\<close>

lemma op_effect_world:
  "files (snd (op_effect op w)) = files w \<and> io (snd (op_effect op w)) = io w
   \<and> mallocs (snd (op_effect op w)) = mallocs w"
  by (cases op) (auto split: prod.splits dest: arg_cong [where f = snd] simp: time_now_def)

lemma op_effect_clock:
  "clock_ok w \<Longrightarrow> clock_ok (snd (op_effect op w)) \<and> now w \<le> now (snd (op_effect op w))"
  using clock_ok_tick [of w] now_tick [of w]
  by (cases op) (auto split: prod.splits)

lemma run_put_ok: "mem_ok w \<Longrightarrow> \<exists>t'. ht.run [(k, Some (v, x))] t w = (True, t', w)"
proof -
  assume m: "mem_ok w"
  obtain ok t' w' where s: "hash_table_set_with_expiry k v x t w = (ok, t', w')"
    by (cases "hash_table_set_with_expiry k v x t w") auto
  with set_mem_ok [OF m s] show ?thesis by (simp add: run_single_put [OF m] del: ht.run.simps)
qed

lemma run_effect_world:
  assumes "mem_ok w" "op_effect op w = (bs, w1)"
  shows "\<exists>t'. ht.run bs t w1 = (True, t', w1)"
proof -
  have m: "mem_ok w1" using assms op_effect_world [of op w] by (simp add: mem_ok_def)
  show ?thesis
  proof (cases op)
    case (Op_set k v x)
    then have "bs = [] \<or> bs = [(k, Some (v, x))]" using assms(2) by (auto split: if_splits prod.splits)
    then show ?thesis using run_put_ok [OF m] ht.run.simps(1) by blast
  next
    case (Op_del k)
    then show ?thesis using assms(2) by auto
  qed
qed

lemma replay_op_state:
  assumes "mem_ok w" "wf_table t" "replay_op op (t, w) = (t', w')" "op_effect op w = (bs, w1)"
  shows "w' = w1 \<and> wf_table t' \<and> tmap t' = fold bind_key bs (tmap t)"
proof -
  from run_effect_world [OF assms(1,4), of t] obtain t1 where r: "ht.run bs t w1 = (True, t1, w1)" by blast
  with assms(3,4) have "t' = t1" "w' = w1" by simp_all
  with ht.run_refines [OF assms(2) r] show ?thesis by simp
qed

lemma replay_op_inv:
  assumes "mem_ok w" "wf_table t" "replay_op op (t, w) = (t', w')"
  shows "mem_ok w' \<and> wf_table t' \<and> files w' = files w \<and> io w' = io w"
proof -
  obtain bs w1 where e: "op_effect op w = (bs, w1)" by fastforce
  from replay_op_state [OF assms e] op_effect_world [of op w] e assms(1) show ?thesis
    by (simp add: mem_ok_def)
qed

subsection \<open>The file format as an interface\<close>

text \<open>
  A log file format and its reader: the reader consumes one printed record at a time and applies
  it (\<open>load_cons\<close>), an empty file changes nothing.  Its client is recovery from a file that is a
  list of printed records.  In the extension, the reader also rejects a record that was cut off.
\<close>

locale log_file =
  fixes render :: "'op \<Rightarrow> string"
    and good :: "'op \<Rightarrow> bool"
    and ready :: "'s \<Rightarrow> bool"
    and step :: "'op \<Rightarrow> 's \<Rightarrow> 's"
    and load :: "string \<Rightarrow> 's \<Rightarrow> 's option"
  assumes load_nil: "load [] s = Some s"
    and load_cons: "good op \<Longrightarrow> ready s \<Longrightarrow> load (render op @ r) s = load r (step op s)"
    and step_ready: "good op \<Longrightarrow> ready s \<Longrightarrow> ready (step op s)"
begin

lemma fold_ready: "\<forall>op \<in> set ops. good op \<Longrightarrow> ready s \<Longrightarrow> ready (fold step ops s)"
  by (induction ops arbitrary: s) (auto simp: step_ready)

lemma load_append:
  "\<forall>op \<in> set ops. good op \<Longrightarrow> ready s \<Longrightarrow>
   load (concat (map render ops) @ r) s = load r (fold step ops s)"
  by (induction ops arbitrary: s) (auto simp: load_cons step_ready)

lemma load_log:
  "\<forall>op \<in> set ops. good op \<Longrightarrow> ready s \<Longrightarrow> load (concat (map render ops)) s = Some (fold step ops s)"
  using load_append [of ops s "[]"] by (simp add: load_nil)

end

locale torn_log_file = log_file +
  assumes load_torn: "good op \<Longrightarrow> ready s \<Longrightarrow> p \<noteq> [] \<Longrightarrow> strict_prefix p (render op) \<Longrightarrow> load p s = None"
begin

lemma load_torn_log:
  assumes "\<forall>op \<in> set ops. good op" "good last_op" "ready s" "p \<noteq> []" "strict_prefix p (render last_op)"
  shows "load (concat (map render ops) @ p) s = None"
  using assms load_torn fold_ready by (simp add: load_append)

text \<open>So a file to which a record was appended, possibly in part, is all of it, none of it, or rejected.\<close>

lemma load_partial_append:
  assumes "\<forall>op \<in> set ops. good op" "good op" "ready s" "prefix p (render op)"
  shows "load (concat (map render ops) @ p) s \<in>
    {None, Some (fold step ops s), Some (fold step (ops @ [op]) s)}"
proof -
  consider "p = []" | "p = render op" | "p \<noteq> []" "strict_prefix p (render op)"
    using assms(4) by (auto simp: strict_prefix_def)
  then show ?thesis
  proof cases
    case 1
    then show ?thesis using load_log [OF assms(1,3)] by simp
  next
    case 2
    then have "concat (map render ops) @ p = concat (map render (ops @ [op]))" by simp
    moreover have "\<forall>op' \<in> set (ops @ [op]). good op'" using assms(1,2) by auto
    ultimately show ?thesis using load_log [of "ops @ [op]" s] assms(3) by simp
  next
    case 3
    then show ?thesis using load_torn_log [OF assms(1,2,3)] by simp
  qed
qed

end

subsection \<open>Cut-off records\<close>

lemma load_field_torn:
  assumes "mem_ok w" "c_field k" "strict_prefix p (field_text k)"
  shows "load_field p w = Scan_fail w"
proof -
  from assms(3) have "strict_prefix p (show_nat (length k) @ CHR '':'' # k)" by (simp add: field_text_def)
  then show ?thesis
  proof (cases rule: strict_prefix_appendE)
    case in_left
    then have "\<forall>c \<in> set p. isdigit c"
      using show_nat_digits by (metis prefix_order.less_imp_le set_mono_prefix subsetD)
    then show ?thesis
      by (simp add: load_field_eq scan_zu_def scan_number_digits_only)
  next
    case (in_right q)
    then consider "q = []" | q' where "q = CHR '':'' # q'" "strict_prefix q' k"
      by (cases q) auto
    then show ?thesis
    proof cases
      case 1
      then have "\<forall>c \<in> set p. isdigit c" using in_right show_nat_digits by auto
      then show ?thesis by (simp add: load_field_eq scan_zu_def scan_number_digits_only)
    next
      case 2
      have "length q' < length k" using 2(2) by (rule prefix_length_less)
      have "scan_number p = Some (False, length k, q)" unfolding in_right(1)
        by (rule scan_number_show_nat) (simp add: 2)
      then show ?thesis
        using 2 \<open>length q' < length k\<close> assms(1,2)
        by (simp add: load_field_eq scan_zu_def malloc_ok clamp_u64_def c_field_def)
    qed
  qed
qed

lemma scan_lld_torn:
  assumes "prefix p (show_int x)"
  shows "scan_lld p = None \<or> (\<exists>i. scan_lld p = Some (i, []))"
proof -
  have ds: "\<forall>c \<in> set ds. isdigit c" if "prefix ds (show_nat m)" for ds m
    using set_mono_prefix [OF that] show_nat_digits by blast
  have digits: "scan_number ds = None \<or> scan_number ds = Some (False, dec_val 0 ds, [])"
    if "prefix ds (show_nat m)" for ds m
    using scan_number_digits_only [OF ds [OF that]] by (cases "ds = []") simp_all
  have minus: "scan_number (CHR ''-'' # ds) = None \<or> scan_number (CHR ''-'' # ds) = Some (True, dec_val 0 ds, [])"
    if "prefix ds (show_nat m)" for ds m
  proof -
    have "\<not> isspace CHR ''-''" by (simp add: isspace_def)
    then show ?thesis
      using ds [OF that] by (simp add: scan_number_def scan_sign_def Let_def takeWhile_all)
  qed
  show ?thesis
  proof (cases "x < 0")
    case True
    show ?thesis
    proof (cases p)
      case Nil
      then show ?thesis by (simp add: scan_lld_empty)
    next
      case (Cons c ds)
      with assms True have "c = CHR ''-''" "prefix ds (show_nat (nat (- x)))"
        by (auto simp: show_int_def)
      with minus [of ds] Cons show ?thesis unfolding scan_lld_def by fastforce
    qed
  next
    case False
    with assms have "prefix p (show_nat (nat x))" by (simp add: show_int_def)
    with digits [of p] show ?thesis unfolding scan_lld_def by fastforce
  qed
qed

lemma load_expiry_torn:
  assumes "strict_prefix p (expiry_text x)"
  shows "load_expiry p = None"
proof (cases "p = [] \<or> x = 0")
  case True
  with assms have "p = []" by (cases p) (auto simp: expiry_text_def)
  then show ?thesis by (simp add: load_expiry_def)
next
  case False
  with assms obtain q where p: "p = CHR '' '' # q" and "strict_prefix q (''EXAT '' @ show_int x @ [NL])"
    by (cases p) (auto simp: expiry_text_def)
  from this(2) show ?thesis
  proof (cases rule: strict_prefix_appendE)
    case in_left
    then have "q \<in> {[], ''E'', ''EX'', ''EXA'', ''EXAT''}"
      by (auto simp: strict_prefix_def prefix_Cons)
    moreover have "\<not> isspace CHR ''X''" "\<not> isspace CHR ''A''" "\<not> isspace CHR ''T''"
      by (simp_all add: isspace_def)
    ultimately have "scan_str 4 q = None \<or> scan_str 4 q = Some (q, [])"
      by (auto simp: scan_str_def)
    then show ?thesis by (auto simp: p load_expiry_def scan_lld_empty)
  next
    case (in_right r)
    then have "prefix r (show_int x)" by (auto simp: strict_prefix_def prefix_snoc)
    from scan_lld_torn [OF this] show ?thesis
      using in_right(1) scan_exat [of r] by (auto simp: p load_expiry_def scan_lld_space)
  qed
qed

lemma load_set_torn:
  assumes "mem_ok w" "good_op (Op_set k v x)"
    and "strict_prefix p (field_text k @ field_text v @ expiry_text x)"
  shows "load_set p t w = Load_fail t w"
  using assms(3)
proof (cases rule: strict_prefix_appendE)
  case in_left
  then have "load_field p w = Scan_fail w" by (intro load_field_torn [of _ k]) (use assms in auto)
  then show ?thesis by (simp add: load_set_def)
next
  case (in_right q)
  from in_right(2) show ?thesis
  proof (cases rule: strict_prefix_appendE)
    case in_left
    then have "load_field q w = Scan_fail w" by (intro load_field_torn [of _ v]) (use assms in auto)
    then show ?thesis using assms in_right(1) by (simp add: load_set_def load_field_text)
  next
    case (in_right r)
    then show ?thesis
      using assms \<open>p = field_text k @ q\<close> load_expiry_torn
      by (simp add: load_set_def load_field_text)
  qed
qed

lemma load_del_torn:
  assumes "mem_ok w" "good_op (Op_del k)" "strict_prefix p (field_text k @ [NL])"
  shows "\<exists>t'. load_del p t w = Load_fail t' w"
  using assms(3)
proof (cases rule: strict_prefix_appendE)
  case in_left
  then have "load_field p w = Scan_fail w" by (intro load_field_torn [of _ k]) (use assms in auto)
  then show ?thesis by (simp add: load_del_def)
next
  case (in_right q)
  then have "q = []" by (cases q) auto
  then show ?thesis
    using assms in_right load_field_text [of w k "[]"] by (simp add: load_del_def split: prod.splits)
qed

text \<open>A command word that is cut off is neither of the two words.\<close>

lemma load_loop_short:
  assumes "p \<in> {''S'', ''SE'', ''D'', ''DE''}"
  shows "load_loop p t w = Some (False, t, w)"
  using assms by (auto simp: load_loop.simps [of _ t w] scan_str_def c_str_def)

lemma load_loop_word:
  "mem_ok w \<Longrightarrow> load_loop ''SET'' t w = Some (False, t, w)"
  "mem_ok w \<Longrightarrow> load_loop ''DEL'' t w = Some (False, t, w)"
proof -
  have "\<not> isspace CHR ''T''" "\<not> isspace CHR ''L''" by (simp_all add: isspace_def)
  then show "load_loop ''SET'' t w = Some (False, t, w)" "load_loop ''DEL'' t w = Some (False, t, w)"
    by (simp_all add: load_loop.simps [of "''SET''"] load_loop.simps [of "''DEL''"] scan_str_def
        load_set_def load_del_def load_field_eq scan_zu_empty c_str_def)
qed

lemma load_loop_torn:
  assumes "mem_ok w" "good_op op" "p \<noteq> []" "strict_prefix p (render op)"
  shows "\<exists>t' w'. load_loop p t w = Some (False, t', w')"
proof -
  define cmd where "cmd = (case op of Op_set k v x \<Rightarrow> ''SET '' | Op_del k \<Rightarrow> ''DEL '')"
  define body where "body = (case op of
      Op_set k v x \<Rightarrow> field_text k @ field_text v @ expiry_text x | Op_del k \<Rightarrow> field_text k @ [NL])"
  have "render op = cmd @ body"
    by (simp add: cmd_def body_def set_record_parts del_record_parts split: aof_op.split)
  with assms(4) have "strict_prefix p (cmd @ body)" by simp
  then show ?thesis
  proof (cases rule: strict_prefix_appendE)
    case in_left
    then have "p \<in> {''S'', ''SE'', ''D'', ''DE''} \<or> p = ''SET'' \<or> p = ''DEL''"
      using assms(3) by (cases op) (auto simp: cmd_def strict_prefix_def prefix_Cons)
    then show ?thesis using load_loop_short load_loop_word [OF assms(1)] by blast
  next
    case (in_right q)
    show ?thesis
    proof (cases op)
      case (Op_set k v x)
      then have "p = ''SET '' @ q" using in_right(1) by (simp add: cmd_def)
      moreover have "load_set q t w = Load_fail t w"
        using in_right(2) Op_set assms(1,2) by (intro load_set_torn) (simp_all add: body_def)
      ultimately show ?thesis by (simp only: load_loop_set load_step.case) blast
    next
      case (Op_del k)
      then have "p = ''DEL '' @ q" using in_right(1) by (simp add: cmd_def)
      moreover obtain t' where "load_del q t w = Load_fail t' w"
        using in_right(2) Op_del assms(1,2) load_del_torn [of w k q t] by (auto simp: body_def)
      ultimately show ?thesis by (simp only: load_loop_del load_step.case) blast
    qed
  qed
qed

text \<open>The interface, provided by the append-only file.\<close>

interpretation aof: torn_log_file render good_op "\<lambda>(t, w). mem_ok w \<and> wf_table t" replay_op load_state
proof unfold_locales
  fix s :: "hash_table \<times> world"
  show "load_state [] s = Some s" by (simp add: load_state_def load_loop_empty)
next
  fix op s r
  assume "good_op op" "case s of (t, w) \<Rightarrow> mem_ok w \<and> wf_table t"
  then show "load_state (render op @ r) s = load_state r (replay_op op s)"
    by (cases s; cases "replay_op op s") (simp add: load_state_def load_loop_render)
next
  fix op s
  assume "good_op op" "case s of (t, w) \<Rightarrow> mem_ok w \<and> wf_table t"
  then show "case replay_op op s of (t, w) \<Rightarrow> mem_ok w \<and> wf_table t"
    by (cases s; cases "replay_op op s") (auto dest: replay_op_inv)
next
  fix op s p
  assume "good_op op" "case s of (t, w) \<Rightarrow> mem_ok w \<and> wf_table t" "p \<noteq> []" "strict_prefix p (render op)"
  then show "load_state p s = None"
    using load_loop_torn [of "snd s" op p "fst s"] by (cases s) (auto simp: load_state_def)
qed

subsection \<open>Appending: lemmas\<close>

text \<open>The contents of the append-only file; a missing file is empty.\<close>

definition aof_text :: "world \<Rightarrow> string" where
  "aof_text w = (case files w aof_file of None \<Rightarrow> [] | Some c \<Rightarrow> c)"

lemma aof_text_frame: "files w' aof_file = files w aof_file \<Longrightarrow> aof_text w' = aof_text w"
  by (simp add: aof_text_def)

lemma io_data_prefix: "prefix (io_data ev s) s"
  by (cases ev) (auto simp: take_is_prefix)

lemma prefix_io_data: "prefix (io_data ev (io_data ev' s)) s"
  using io_data_prefix prefix_order.trans by blast

text \<open>
  Both append functions have this body.  Whatever the stdio calls do, the file grows by a prefix of
  the record, by all of it when the append reports success.
\<close>

definition append_record :: "string \<Rightarrow> world \<Rightarrow> bool \<times> world" where
  "append_record r w =
     (let (ok, w) = fopen_append aof_file w in
      if \<not> ok then (False, w)
      else let (ok, buf, w) = fprintf [] r w in
      if \<not> ok then (let (_, w) = fclose aof_file buf w in (False, w))
      else let (ok, w) = fclose aof_file buf w in
      if \<not> ok then (False, w) else (True, w))"

lemma append_set_record: "persistence_append_set_expiry k v x w = append_record (set_record k v x) w"
  by (simp add: persistence_append_set_expiry_def append_record_def)

lemma append_del_record: "persistence_append_del k w = append_record (del_record k) w"
  by (simp add: persistence_append_del_def append_record_def)

lemma append_record_prefix:
  assumes "append_record r w = (ok, w')"
  obtains p where "prefix p r" "aof_text w' = aof_text w @ p" "ok \<Longrightarrow> p = r"
    "clock w' = clock w" "mallocs w' = mallocs w" "\<And>f. f \<noteq> aof_file \<Longrightarrow> files w' f = files w f"
proof -
  have "\<exists>p. prefix p r \<and> aof_text w' = aof_text w @ p \<and> (ok \<longrightarrow> p = r)
    \<and> clock w' = clock w \<and> mallocs w' = mallocs w \<and> (\<forall>f. f \<noteq> aof_file \<longrightarrow> files w' f = files w f)"
    using assms
    by (auto simp: append_record_def fopen_append_def fprintf_def fclose_def io_step_def aof_text_def
        Let_def prefix_io_data io_data_prefix split: if_splits option.splits intro: exI [of _ "[]"])
  with that show ?thesis by blast
qed

lemma append_record_ok [world_simps]:
  assumes "io_ok w"
  shows "append_record r w = (True, w\<lparr>files := (files w)(aof_file \<mapsto> aof_text w @ r)\<rparr>)"
  using assms by (simp add: append_record_def world_simps aof_text_def split: option.split)

subsection \<open>Rewriting: lemmas\<close>

lemma rewrite_buckets_concat: "rewrite_buckets cs buf w = rewrite_chain (concat cs) buf w"
proof -
  have app: "rewrite_chain (xs @ ys) buf w =
      (let (ok, buf, w) = rewrite_chain xs buf w in if \<not> ok then (False, buf, w) else rewrite_chain ys buf w)"
    for xs ys buf w
    by (induction xs buf w rule: rewrite_chain.induct) (auto simp: Let_def split: prod.splits)
  show ?thesis
    by (induction cs buf w rule: rewrite_buckets.induct) (auto simp: app Let_def split: prod.splits)
qed

text \<open>The entries that are not expired when the rewrite reaches them.\<close>

fun survivors :: "entry list \<Rightarrow> world \<Rightarrow> entry list \<times> world" where
  "survivors [] w = ([], w)"
| "survivors (e # es) w =
     (let check = entry_is_expired (Some e) w; rest = survivors es (snd check) in
      (if fst check then fst rest else e # fst rest, snd rest))"

definition entry_op :: "entry \<Rightarrow> aof_op" where
  "entry_op e = Op_set (key e) (val e) (expires_at e)"

lemma render_entry_op [simp]: "render (entry_op e) = set_record (key e) (val e) (expires_at e)"
  by (simp add: entry_op_def)

lemma rewrite_chain_ok:
  "io_ok w \<Longrightarrow> rewrite_chain es buf w =
     (True, buf @ concat (map (\<lambda>e. render (entry_op e)) (fst (survivors es w))), snd (survivors es w))"
  by (induction es arbitrary: buf w) (simp_all add: Let_def case_prod_beta fprintf_ok)

lemma survivors_frame:
  "files (snd (survivors es w)) = files w \<and> io (snd (survivors es w)) = io w
   \<and> mallocs (snd (survivors es w)) = mallocs w"
  by (induction es arbitrary: w) (simp_all add: Let_def)

lemma survivors_clock:
  "clock_ok w \<Longrightarrow> clock_ok (snd (survivors es w)) \<and> now w \<le> now (snd (survivors es w))"
proof (induction es arbitrary: w)
  case (Cons e es)
  let ?w1 = "snd (entry_is_expired (Some e) w)"
  have "clock_ok ?w1" "now w \<le> now ?w1" using entry_is_expired_clock [OF Cons.prems, of "Some e"] by auto
  with Cons.IH [of ?w1] show ?case by (simp add: Let_def)
qed simp

lemma survivors_subset: "set (fst (survivors es w)) \<subseteq> set es"
  by (induction es arbitrary: w) (auto simp: Let_def)

lemma survivors_distinct: "distinct (map key es) \<Longrightarrow> distinct (map key (fst (survivors es w)))"
proof (induction es arbitrary: w)
  case (Cons e es)
  then show ?case
    using image_mono [OF survivors_subset [of es "snd (entry_is_expired (Some e) w)"], of key]
    by (auto simp: Let_def)
qed simp

text \<open>An entry that is live when the rewrite is over has been written.\<close>

lemma survivors_live:
  "clock_ok w \<Longrightarrow> e \<in> set es \<Longrightarrow> live_at (now (snd (survivors es w))) (expires_at e) \<Longrightarrow>
   e \<in> set (fst (survivors es w))"
proof (induction es arbitrary: w)
  case (Cons a es)
  let ?w1 = "snd (entry_is_expired (Some a) w)"
  have c: "clock_ok ?w1" "now w \<le> now ?w1" using entry_is_expired_clock [OF Cons.prems(1), of "Some a"] by auto
  have "now w \<le> now (snd (survivors es ?w1))" using c survivors_clock [OF c(1), of es] by simp
  then show ?case
    using Cons.prems Cons.IH [OF c(1)] live_at_mono by (auto simp: Let_def entry_is_expired_live)
qed simp

text \<open>A rewrite replaces the file by the records of the survivors, or leaves it alone.\<close>

lemma rewrite_ok [world_simps]:
  assumes "io_ok w"
  shows "persistence_rewrite t w = (True, (snd (survivors (entries t) w))\<lparr>files :=
    (files w)(aof_file \<mapsto> concat (map (\<lambda>e. render (entry_op e)) (fst (survivors (entries t) w))),
      tmp_file := None)\<rparr>)"
proof -
  have shift: "survivors es (w\<lparr>files := fs\<rparr>) = (fst (survivors es w), (snd (survivors es w))\<lparr>files := fs\<rparr>)"
    for es w fs
  proof (induction es arbitrary: w)
    case (Cons e es)
    have "entry_is_expired (Some e) (w\<lparr>files := fs\<rparr>) =
        (fst (entry_is_expired (Some e) w), (snd (entry_is_expired (Some e) w))\<lparr>files := fs\<rparr>)"
      by (simp add: entry_is_expired_def time_now_def)
    with Cons show ?case by (simp add: Let_def)
  qed simp
  have "io_ok (snd (survivors es w))" for es using survivors_frame [of es w] assms by (simp add: io_ok_def)
  moreover have "aof_file \<noteq> tmp_file" by (simp add: aof_file_def tmp_file_def)
  ultimately show ?thesis
    using assms
    by (simp add: persistence_rewrite_def world_simps rewrite_buckets_concat rewrite_chain_ok shift
        entries_def [symmetric] fun_upd_twist)
qed

text \<open>Whatever fails, the live file is replaced only by the final \<open>rename\<close>.\<close>

lemma rewrite_chain_files: "files (snd (snd (rewrite_chain es buf w))) = files w"
  by (induction es arbitrary: buf w) (simp_all add: Let_def fprintf_def io_step_def case_prod_beta)

lemma rewrite_failure_atomic:
  assumes "persistence_rewrite t w = (False, w')"
  shows "files w' aof_file = files w aof_file"
proof -
  have "aof_file \<noteq> tmp_file" by (simp add: aof_file_def tmp_file_def)
  then show ?thesis
    using assms rewrite_chain_files [of "entries t" "[]" "snd (fopen_write tmp_file w)"]
    by (auto simp: persistence_rewrite_def rewrite_buckets_concat entries_def [symmetric] fopen_write_def
        fclose_def rename_def io_step_def Let_def split: prod.splits if_splits)
qed

text \<open>A rewrite that succeeds in an environment that may fail has written the same file.\<close>

lemma survivors_clock_only:
  "clock w = clock w1 \<Longrightarrow> fst (survivors es w) = fst (survivors es w1)
   \<and> clock (snd (survivors es w)) = clock (snd (survivors es w1))"
proof (induction es arbitrary: w w1)
  case (Cons e es)
  have c: "fst (entry_is_expired (Some e) w) = fst (entry_is_expired (Some e) w1)"
    "clock (snd (entry_is_expired (Some e) w)) = clock (snd (entry_is_expired (Some e) w1))"
    using Cons.prems by (simp_all add: entry_is_expired_def time_now_def)
  from Cons.IH [OF c(2)] c(1) show ?case by (simp add: Let_def)
qed simp

lemma rewrite_chain_success:
  "rewrite_chain es buf w = (True, buf', w') \<Longrightarrow>
   buf' = buf @ concat (map (\<lambda>e. render (entry_op e)) (fst (survivors es w))) \<and> files w' = files w
   \<and> clock w' = clock (snd (survivors es w)) \<and> mallocs w' = mallocs w"
proof (induction es arbitrary: buf w)
  case (Cons e es)
  define w1 where "w1 = snd (entry_is_expired (Some e) w)"
  have w1: "files w1 = files w" "mallocs w1 = mallocs w" by (simp_all add: w1_def)
  show ?case
  proof (cases "fst (entry_is_expired (Some e) w)")
    case True
    then have "rewrite_chain es buf w1 = (True, buf', w')"
      using Cons.prems by (simp add: w1_def case_prod_beta)
    with Cons.IH True w1 show ?thesis by (simp add: w1_def Let_def)
  next
    case False
    obtain ok b w2 where f: "fprintf buf (set_record (key e) (val e) (expires_at e)) w1 = (ok, b, w2)"
      by (metis prod_cases3)
    with False Cons.prems have r: "ok" "rewrite_chain es b w2 = (True, buf', w')"
      by (auto simp: w1_def case_prod_beta split: if_splits)
    from f r(1) have b: "b = buf @ set_record (key e) (val e) (expires_at e)" "files w2 = files w1"
      "mallocs w2 = mallocs w1" "clock w2 = clock w1"
      by (auto simp: fprintf_def io_step_def Let_def)
    with Cons.IH [OF r(2)] survivors_clock_only [OF b(4), of es] False w1 show ?thesis
      by (simp add: w1_def Let_def)
  qed
qed simp

lemma rewrite_success:
  assumes "persistence_rewrite t w = (True, w')"
  shows "aof_text w' = concat (map (\<lambda>e. render (entry_op e)) (fst (survivors (entries t) w)))
    \<and> clock w' = clock (snd (survivors (entries t) w)) \<and> mallocs w' = mallocs w"
proof -
  obtain w1 where w1: "fopen_write tmp_file w = (True, w1)"
    using assms by (auto simp: persistence_rewrite_def split: prod.splits if_splits)
  obtain buf w2 where w2: "rewrite_chain (entries t) [] w1 = (True, buf, w2)"
    using assms w1 by (auto simp: persistence_rewrite_def rewrite_buckets_concat entries_def split: prod.splits if_splits)
  obtain w3 where w3: "fclose tmp_file buf w2 = (True, w3)"
    using assms w1 w2 by (auto simp: persistence_rewrite_def rewrite_buckets_concat entries_def [symmetric]
        split: prod.splits if_splits)
  have w4: "rename tmp_file aof_file w3 = (True, w')"
    using assms w1 w2 w3 by (auto simp: persistence_rewrite_def rewrite_buckets_concat entries_def [symmetric]
        split: prod.splits if_splits)
  note r = rewrite_chain_success [OF w2]
  have c1: "clock w1 = clock w" "files w1 tmp_file = Some []" "mallocs w1 = mallocs w"
    using w1 by (auto simp: fopen_write_def io_step_def Let_def split: if_splits)
  have "files w3 tmp_file = Some buf" "clock w3 = clock w2" "mallocs w3 = mallocs w2"
    using w3 r c1(2) by (auto simp: fclose_def io_step_def Let_def)
  with w4 have "aof_text w' = buf" "clock w' = clock w2" "mallocs w' = mallocs w2"
    by (auto simp: rename_def io_step_def aof_text_def aof_file_def tmp_file_def Let_def split: if_splits)
  with r survivors_clock_only [OF c1(1), of "entries t"] c1(3) show ?thesis by simp
qed

lemma rewrite_frame:
  "persistence_rewrite t w = (ok, w') \<Longrightarrow> mallocs w' = mallocs w"
proof -
  have m: "mallocs (snd (snd (rewrite_chain es buf w))) = mallocs w" for es buf w
    by (induction es arbitrary: buf w) (simp_all add: Let_def fprintf_def io_step_def case_prod_beta)
  assume "persistence_rewrite t w = (ok, w')"
  then show ?thesis using m [of "entries t" "[]" "snd (fopen_write tmp_file w)"]
    by (auto simp: persistence_rewrite_def rewrite_buckets_concat entries_def [symmetric] fopen_write_def
        fclose_def rename_def io_step_def Let_def split: prod.splits if_splits)
qed

text \<open>A file of complete records and something else is read up to the something.\<close>

lemma load_loop_log:
  "mem_ok w \<Longrightarrow> wf_table t \<Longrightarrow> \<forall>op \<in> set ops. good_op op \<Longrightarrow> fold replay_op ops (t, w) = (t', w') \<Longrightarrow>
   mem_ok w' \<and> load_loop (concat (map render ops) @ p) t w = load_loop p t' w'"
proof (induction ops arbitrary: t w)
  case (Cons op ops)
  obtain t1 w1 where r: "replay_op op (t, w) = (t1, w1)" by fastforce
  have "mem_ok w1" "wf_table t1" using replay_op_inv [OF Cons.prems(1,2) r] by simp_all
  with Cons r show ?case by (simp add: load_loop_render)
qed simp

subsection \<open>Properties\<close>

fun append_op :: "aof_op \<Rightarrow> world \<Rightarrow> bool \<times> world" where
  "append_op (Op_set k v x) w = persistence_append_set_expiry k v x w"
| "append_op (Op_del k) w = persistence_append_del k w"

text \<open>
  An append never damages what is in the file.  Whatever the calls to \<^verbatim>\<open>fopen\<close>, \<^verbatim>\<open>fprintf\<close> and
  \<^verbatim>\<open>fclose\<close> do, the append-only file afterwards is its old contents followed by a prefix of the new
  record; it is the whole record when the append reports success.
\<close>

lemma append_keeps_old_contents:
  assumes "append_op op w = (ok, w')"
  shows "\<exists>p. prefix p (render op) \<and> aof_text w' = aof_text w @ p \<and> (p = render op \<or> \<not> ok)"
proof -
  have "append_record (render op) w = (ok, w')"
    using assms by (cases op) (simp_all add: append_set_record append_del_record)
  then show ?thesis by (rule append_record_prefix) blast
qed

text \<open>
  C15: loading a file of printed records replays exactly these records.  When the file is the
  concatenation of the records of \<open>ops\<close> and the clock shows \<open>n\<close> throughout, \<open>persistence_load\<close>
  succeeds, and the map of the table is the old map updated by the records in order: a SET whose
  expiration has not passed binds its key, a SET whose expiration has passed is skipped, a DEL
  unbinds its key.  The lengths in the records make keys and values with spaces, colons, newlines or
  digits read back as they were.
\<close>

theorem load_replays_printed_log:
  assumes "mem_ok w" "io_ok w" "clock w = sconst n" "wf_table t" "\<forall>op \<in> set ops. good_op op"
    and "files w aof_file = Some (concat (map render ops))"
  shows "\<exists>t' w'. persistence_load t w = Some (True, t', w') \<and> wf_table t'
    \<and> tmap t' = fold (\<lambda>op m. case op of Op_set k v x \<Rightarrow> if live_at n x then m(k \<mapsto> (v, x)) else m
                                    | Op_del k \<Rightarrow> m(k := None)) ops (tmap t)"
proof -
  have "\<exists>t'. fold replay_op ops (t, w) = (t', w) \<and> wf_table t'
    \<and> tmap t' = fold (\<lambda>op m. case op of Op_set k v x \<Rightarrow> if live_at n x then m(k \<mapsto> (v, x)) else m
                                    | Op_del k \<Rightarrow> m(k := None)) ops (tmap t)"
    using assms(4)
  proof (induction ops arbitrary: t)
    case (Cons op ops)
    have tick: "time_now w = (n, w)" using assms(3) by (cases w) (simp add: time_now_def)
    obtain t1 w1 where r: "replay_op op (t, w) = (t1, w1)" by fastforce
    obtain bs w2 where e: "op_effect op w = (bs, w2)" by fastforce
    have "w2 = w" "fold bind_key bs (tmap t) =
        (case op of Op_set k v x \<Rightarrow> if live_at n x then (tmap t)(k \<mapsto> (v, x)) else tmap t | Op_del k \<Rightarrow> (tmap t)(k := None))"
      using e tick by (cases op; auto simp: live_at_iff split: if_splits)+
    with replay_op_state [OF assms(1) Cons.prems r e] Cons.IH [of t1] r show ?case
      by (simp del: replay_op.simps fun_upd_apply)
  qed simp
  moreover have "load_loop (concat (map render ops)) t w = Some (True, fold replay_op ops (t, w))"
    using aof.load_log [of ops "(t, w)"] assms(1,4,5)
    by (auto simp: load_state_def split: option.splits prod.splits bool.splits)
  ultimately show ?thesis
    using assms(2,6) by (auto simp: persistence_load_def fopen_read_ok)
qed

theorem load_replays_printed_log_witness:
  "\<exists>t' w'. persistence_load (empty_table 8)
      (calm 50 [aof_file \<mapsto> set_record ''a b'' ''1:2'' 0 @ set_record ''c'' ''d'' 40 @ set_record ''e'' ''f'' 60])
      = (Some (True, t', w')) \<and> tmap t' = [''a b'' \<mapsto> (''1:2'', 0), ''e'' \<mapsto> (''f'', 60)]"
proof -
  let ?ops = "[Op_set ''a b'' ''1:2'' 0, Op_set ''c'' ''d'' 40, Op_set ''e'' ''f'' 60]"
  let ?w = "calm 50 [aof_file \<mapsto> concat (map render ?ops)]"
  have "\<exists>t' w'. persistence_load (empty_table 8) ?w = Some (True, t', w') \<and> wf_table t'
    \<and> tmap t' = fold (\<lambda>op m. case op of Op_set k v x \<Rightarrow> if live_at 50 x then m(k \<mapsto> (v, x)) else m
                                    | Op_del k \<Rightarrow> m(k := None)) ?ops (tmap (empty_table 8))"
    by (rule load_replays_printed_log) (simp_all add: c_field_def)
  then show ?thesis by (auto simp: live_at_iff)
qed

text \<open>
  C24: a record that was cut off is noticed.  When the file ends in a non-empty proper prefix of a
  record (the append was interrupted), \<open>persistence_load\<close> reports failure, whatever the records before.
\<close>

theorem load_rejects_torn_log:
  assumes "mem_ok w" "io_ok w" "wf_table t" "\<forall>op \<in> set ops. good_op op" "good_op op"
    and "p \<noteq> []" "strict_prefix p (render op)" "files w aof_file = Some (concat (map render ops) @ p)"
  shows "\<exists>t' w'. persistence_load t w = Some (False, t', w')"
proof -
  obtain t1 w1 where f: "fold replay_op ops (t, w) = (t1, w1)" by fastforce
  from load_loop_log [OF assms(1,3,4) f] have "mem_ok w1"
    "load_loop (concat (map render ops) @ p) t w = load_loop p t1 w1" by simp_all
  with load_loop_torn [OF _ assms(5-7), of w1 t1] assms(2,8) show ?thesis
    by (simp add: persistence_load_def fopen_read_ok)
qed

theorem load_rejects_torn_log_witness:
  "\<exists>t' w'. persistence_load (empty_table 8) (calm 0 [aof_file \<mapsto> set_record ''a'' ''b'' 0 @ ''SET 1:''])
    = Some (False, t', w')"
proof (rule load_rejects_torn_log [of _ _ "[Op_set ''a'' ''b'' 0]" "Op_set ''k'' ''v'' 0" "''SET 1:''"])
  show "strict_prefix ''SET 1:'' (render (Op_set ''k'' ''v'' 0))"
    by (simp add: set_record_def show_nat.simps digit_char_def char_of_def bit_0)
qed (simp_all add: c_field_def)

text \<open>
  C26: the rewrite is atomic and complete.  Whatever fails on the way, the append-only file is either
  untouched (the rewrite reports failure) or (it reports success) the records of exactly the entries
  of the table that were not expired when the rewrite reached them, one record per key.
\<close>

theorem rewrite_is_atomic:
  assumes "wf_table t" "persistence_rewrite t w = (ok, w')"
  shows "if ok then (\<exists>es. aof_text w' = concat (map (\<lambda>e. set_record (key e) (val e) (expires_at e)) es)
                        \<and> es = fst (survivors (entries t) w) \<and> distinct (map key es))
         else files w' aof_file = files w aof_file"
proof (cases ok)
  case True
  then show ?thesis
    using rewrite_success [of t w w'] assms survivors_distinct wf_distinct by auto
next
  case False
  then show ?thesis using rewrite_failure_atomic [of t w w'] assms(2) by simp
qed

theorem rewrite_is_atomic_witness:
  "\<exists>w'. persistence_rewrite (one_table ''a'' ''b'' 0) (calm 0 [aof_file \<mapsto> ''old'']) = (True, w')
    \<and> aof_text w' = concat (map (\<lambda>e. set_record (key e) (val e) (expires_at e))
        (fst (survivors (entries (one_table ''a'' ''b'' 0)) (calm 0 [aof_file \<mapsto> ''old'']))))"
proof -
  obtain ok w' where r: "persistence_rewrite (one_table ''a'' ''b'' 0) (calm 0 [aof_file \<mapsto> ''old'']) = (ok, w')"
    by fastforce
  then have "ok" by (simp add: rewrite_ok)
  with rewrite_is_atomic [OF _ r] r show ?thesis by auto
qed

end
