(* ===== verification/CommandParse.thy ===== *)
theory CommandParse
  imports CLib "HOL-Library.Monad_Syntax"
begin

text \<open>
  Splitting a command line into arguments: \<open>parse_command\<close> and \<open>parse_expiry_seconds\<close> of
  \<^verbatim>\<open>src/command.c\<close>.

  The code works in place: it writes NUL bytes into the line and lets \<open>argv\<close> point into it.  The
  model does the same on the byte array of the line (its bytes and the terminating NUL), with
  pointers as positions in the array.  Every read \<^verbatim>\<open>*p\<close> is a \<open>fetch\<close> and every write \<^verbatim>\<open>*p = c\<close> a \<open>put\<close>, which
  have no result outside the array: a loop that runs past the terminator is undefined, not cut short.  The lemmas
  show that this never happens, that every loop ends, and that
  the strings \<open>argv\<close> points to are the arguments of a pure reference tokenizer, \<open>tokens\<close>.
\<close>

abbreviation quote :: char where
  "quote \<equiv> CHR 0x22"

subsection \<open>The loops over the array\<close>

text \<open>\<open>None\<close> is an access outside the array or a loop that does not end.\<close>

partial_function (option) skip_space :: "string \<Rightarrow> nat \<Rightarrow> nat option" where
  "skip_space buf p = do { c \<leftarrow> fetch buf p; if isspace c then skip_space buf (Suc p) else Some p }"

partial_function (option) copy_quoted :: "string \<Rightarrow> nat \<Rightarrow> nat \<Rightarrow> (string \<times> nat \<times> nat) option" where
  "copy_quoted buf out p =
     do {
       c \<leftarrow> fetch buf p;
       if c \<noteq> NUL \<and> c \<noteq> quote then do { buf \<leftarrow> put buf out c; copy_quoted buf (Suc out) (Suc p) }
       else Some (buf, out, p) }"

partial_function (option) skip_word :: "string \<Rightarrow> nat \<Rightarrow> nat option" where
  "skip_word buf p =
     do { c \<leftarrow> fetch buf p; if c \<noteq> NUL \<and> \<not> isspace c then skip_word buf (Suc p) else Some p }"

text \<open>
  The outer loop: \<open>argv\<close> are the positions found so far.  The result, when there is one, is \<open>None\<close> for the return value
  \<open>-1\<close> and otherwise the array and \<open>argv\<close> (of length \<open>argc\<close>).
\<close>

partial_function (option) parse_loop :: "nat \<Rightarrow> string \<Rightarrow> nat \<Rightarrow> nat list \<Rightarrow> (string \<times> nat list) option option" where
  "parse_loop max_args buf p argv =
     do {
       c \<leftarrow> fetch buf p;
       if c = NUL then Some (Some (buf, argv))
       else do {
         q \<leftarrow> skip_space buf p;
         c \<leftarrow> fetch buf q;
         if c = NUL then Some (Some (buf, argv))
         else if length argv \<ge> max_args then Some None
         else if c = quote then do {
           (buf, out, r) \<leftarrow> copy_quoted buf (Suc q) (Suc q);
           c \<leftarrow> fetch buf r;
           if c \<noteq> quote then Some None
           else do { buf \<leftarrow> put buf out NUL; parse_loop max_args buf (Suc r) (argv @ [Suc q]) } }
         else do {
           r \<leftarrow> skip_word buf q;
           c \<leftarrow> fetch buf r;
           if c \<noteq> NUL then do { buf \<leftarrow> put buf r NUL; parse_loop max_args buf (Suc r) (argv @ [q]) }
           else parse_loop max_args buf r (argv @ [q]) } } }"

text \<open>The strings a list of pointers into the array stands for.\<close>

definition strings_at :: "string \<Rightarrow> nat list \<Rightarrow> cstr list" where
  "strings_at buf ps = map (\<lambda>p. c_str (drop p buf)) ps"

text \<open>
  The parser on the array of a line.  Its callers on tables of lists use \<open>parse_command\<close>, for which a parse without a result would
  be a failed one; \<open>parse_line_defined\<close> shows that there is none.  The interpreter in memory (\<open>HeapCommand\<close>) uses \<open>parse_line\<close>
  and is undefined where the parser is.
\<close>

definition parse_line :: "cstr \<Rightarrow> nat \<Rightarrow> cstr list option option" where
  "parse_line input max_args =
     do {
       parsed \<leftarrow> parse_loop max_args (input @ [NUL]) 0 [];
       Some (case parsed of None \<Rightarrow> None | Some (buf, argv) \<Rightarrow> Some (strings_at buf argv)) }"

definition parse_command :: "cstr \<Rightarrow> nat \<Rightarrow> cstr list option" where
  "parse_command input max_args = (case parse_line input max_args of None \<Rightarrow> None | Some res \<Rightarrow> res)"

definition parse_expiry_seconds :: "cstr \<Rightarrow> int option" where
  "parse_expiry_seconds v =
     (if v = [] then None
      else let (parsed, end) = strtoll v in
      if end \<noteq> [] then None
      else if parsed \<le> 0 then None
      else Some parsed)"

subsection \<open>The reference tokenizer\<close>

function tokens :: "string \<Rightarrow> cstr list option" where
  "tokens s =
     (case dropWhile isspace s of
        [] \<Rightarrow> Some []
      | c # cs \<Rightarrow>
          if c = quote then
            (case dropWhile (\<lambda>d. d \<noteq> quote) cs of
               [] \<Rightarrow> None
             | _ # r \<Rightarrow> map_option (Cons (takeWhile (\<lambda>d. d \<noteq> quote) cs)) (tokens r))
          else map_option (Cons (c # takeWhile (\<lambda>d. \<not> isspace d) cs)) (tokens (dropWhile (\<lambda>d. \<not> isspace d) cs)))"
  by pat_completeness auto
termination
proof (relation "measure length", goal_cases)
  case 1
  show ?case by simp
next
  case (2 s c cs q r)
  have "length (dropWhile (\<lambda>d. d \<noteq> quote) cs) \<le> length cs" "length (dropWhile isspace s) \<le> length s" by simp_all
  with 2 show ?case by simp
next
  case (3 s c cs)
  have "length (dropWhile (\<lambda>d. \<not> isspace d) cs) \<le> length cs" by simp
  moreover have "Suc (length cs) \<le> length s" using length_dropWhile_le [of isspace s] 3 by simp
  ultimately have "length (dropWhile (\<lambda>d. \<not> isspace d) cs) < length s" by linarith
  then show ?case by simp
qed

declare tokens.simps [simp del]

subsection \<open>The in-place parser refines the tokenizer\<close>

text \<open>What each loop does when the array holds \<open>s\<close> and a NUL from the position on.\<close>

lemma skip_space_at:
  "no_nul s \<Longrightarrow> skip_space (pre @ s @ NUL # post) (length pre) = Some (length pre + length (takeWhile isspace s))"
proof (induction s arbitrary: pre)
  case Nil
  then show ?case by (simp add: skip_space.simps [of _ "length pre"])
next
  case (Cons c s)
  with Cons.IH [of "pre @ [c]"] show ?case by (simp add: skip_space.simps [of _ "length pre"])
qed

lemma skip_word_at:
  "no_nul s \<Longrightarrow>
   skip_word (pre @ s @ NUL # post) (length pre) = Some (length pre + length (takeWhile (\<lambda>d. \<not> isspace d) s))"
proof (induction s arbitrary: pre)
  case Nil
  then show ?case by (simp add: skip_word.simps [of _ "length pre"])
next
  case (Cons c s)
  with Cons.IH [of "pre @ [c]"] show ?case by (simp add: skip_word.simps [of _ "length pre"])
qed

text \<open>The copy loop never moves a byte: the output pointer keeps up with the input pointer.\<close>

lemma copy_quoted_at:
  "no_nul s \<Longrightarrow>
   copy_quoted (pre @ s @ NUL # post) (length pre) (length pre) =
     Some (pre @ s @ NUL # post, length pre + length (takeWhile (\<lambda>d. d \<noteq> quote) s),
      length pre + length (takeWhile (\<lambda>d. d \<noteq> quote) s))"
proof (induction s arbitrary: pre)
  case Nil
  then show ?case by (simp add: copy_quoted.simps [of _ "length pre" "length pre"])
next
  case (Cons c s)
  with Cons.IH [of "pre @ [c]"] show ?case by (simp add: copy_quoted.simps [of _ "length pre" "length pre"])
qed

text \<open>
  The relation between the parser's result and the tokenizer's: the same strings, the array keeps
  its length, its prefix and its terminator, and the pointers stay inside.
\<close>

definition parsed :: "nat \<Rightarrow> string \<Rightarrow> string \<Rightarrow> string \<Rightarrow> nat list \<Rightarrow> (string \<times> nat list) option option \<Rightarrow> bool" where
  "parsed max_args pre s post argv res \<longleftrightarrow>
     (case res of
        None \<Rightarrow> False
      | Some None \<Rightarrow> (case tokens s of None \<Rightarrow> True | Some ts \<Rightarrow> max_args < length argv + length ts)
      | Some (Some (buf, argv')) \<Rightarrow>
          (\<exists>s' ps. buf = pre @ s' @ NUL # post \<and> length s' = length s \<and> argv' = argv @ ps
             \<and> tokens s = Some (strings_at buf ps) \<and> (length argv \<le> max_args \<longrightarrow> length argv' \<le> max_args)
             \<and> (\<forall>p \<in> set ps. length pre \<le> p \<and> p \<le> length pre + length s)))"

lemma strings_at_simps [simp]:
  "strings_at buf [] = []" "strings_at buf (p # ps) = c_str (drop p buf) # strings_at buf ps"
  by (simp_all add: strings_at_def)

lemma parsedI_more:
  assumes rec: "parsed max_args (pre @ front @ word @ [NUL]) rest post (argv @ [length pre + length front]) res"
    and word: "no_nul word" and room: "length argv < max_args"
    and toks: "tokens s = map_option (Cons word) (tokens rest)"
    and len: "length s = length front + length word + 1 + length rest"
  shows "parsed max_args pre s post argv res"
proof -
  consider "res = Some None" | buf argv' where "res = Some (Some (buf, argv'))"
    using rec by (auto simp: parsed_def split: option.splits)
  then show ?thesis
  proof cases
    case 1
    with rec toks show ?thesis by (auto simp: parsed_def split: option.splits)
  next
    case (2 buf argv')
    with rec obtain s' ps where *: "buf = (pre @ front @ word @ [NUL]) @ s' @ NUL # post" "length s' = length rest"
      "argv' = (argv @ [length pre + length front]) @ ps" "tokens rest = Some (strings_at buf ps)"
      "length (argv @ [length pre + length front]) \<le> max_args \<longrightarrow> length argv' \<le> max_args"
      "\<forall>p \<in> set ps. length (pre @ front @ word @ [NUL]) \<le> p \<and> p \<le> length (pre @ front @ word @ [NUL]) + length rest"
      by (auto simp: parsed_def)
    have "tokens s = Some (strings_at buf ((length pre + length front) # ps))"
      using toks *(1,4) word by simp
    then show ?thesis
      unfolding parsed_def 2 using * len room
      by (auto intro!: exI [of _ "front @ word @ NUL # s'"] exI [of _ "(length pre + length front) # ps"])
  qed
qed

lemma tokens_space: "isspace d \<Longrightarrow> tokens (d # s) = tokens s"
  by (simp add: tokens.simps [of "d # s"] tokens.simps [of s])

lemma tokens_unfold:
  assumes "\<forall>d \<in> set ws. isspace d" "\<not> isspace c"
  shows "tokens (ws @ c # cs) =
    (if c = quote then
       (case dropWhile (\<lambda>d. d \<noteq> quote) cs of
          [] \<Rightarrow> None
        | _ # r \<Rightarrow> map_option (Cons (takeWhile (\<lambda>d. d \<noteq> quote) cs)) (tokens r))
     else map_option (Cons (c # takeWhile (\<lambda>d. \<not> isspace d) cs)) (tokens (dropWhile (\<lambda>d. \<not> isspace d) cs)))"
  using assms by (subst tokens.simps) (simp add: dropWhile_append)

lemma tokens_turn_nonempty:
  assumes "\<forall>d \<in> set ws. isspace d" "\<not> isspace c"
  shows "tokens (ws @ c # cs) \<noteq> Some []"
  unfolding tokens_unfold [OF assms] by (simp split: list.split)

text \<open>One turn of the outer loop, on white space followed by a byte that is not.\<close>

lemma parse_loop_turn:
  assumes "no_nul (ws @ c # cs)" "\<forall>d \<in> set ws. isspace d" "\<not> isspace c"
  shows "parse_loop max_args (pre @ ws @ c # cs @ NUL # post) (length pre) argv =
    (let buf = pre @ ws @ c # cs @ NUL # post; q = length pre + length ws in
     if length argv \<ge> max_args then Some None
     else if c = quote then
       (let r = Suc q + length (takeWhile (\<lambda>d. d \<noteq> quote) cs) in
        if buf ! r \<noteq> quote then Some None
        else parse_loop max_args (buf[r := NUL]) (Suc r) (argv @ [Suc q]))
     else
       (let r = Suc q + length (takeWhile (\<lambda>d. \<not> isspace d) cs) in
        if buf ! r \<noteq> NUL then parse_loop max_args (buf[r := NUL]) (Suc r) (argv @ [q])
        else parse_loop max_args buf r (argv @ [q])))"
proof -
  let ?buf = "pre @ ws @ c # cs @ NUL # post"
  have n: "no_nul cs" "no_nul ws" "c \<noteq> NUL" using assms(1) by simp_all
  have q: "skip_space ?buf (length pre) = Some (length pre + length ws)"
    using skip_space_at [of "ws @ c # cs" pre post] assms by (simp add: takeWhile_append)
  have start: "\<exists>d. fetch ?buf (length pre) = Some d \<and> d \<noteq> NUL"
    using n by (cases ws) simp_all
  have cq: "copy_quoted ?buf (Suc (length pre + length ws)) (Suc (length pre + length ws)) =
      Some (?buf, Suc (length pre + length ws) + length (takeWhile (\<lambda>d. d \<noteq> quote) cs),
       Suc (length pre + length ws) + length (takeWhile (\<lambda>d. d \<noteq> quote) cs))"
    using copy_quoted_at [OF n(1), of "pre @ ws @ [c]" post] by simp
  have w: "skip_word ?buf (length pre + length ws) =
      Some (Suc (length pre + length ws) + length (takeWhile (\<lambda>d. \<not> isspace d) cs))"
    using skip_word_at [of "c # cs" "pre @ ws" post] n assms(3) by simp
  have at_q: "fetch ?buf (length pre + length ws) = Some c" using fetch_at [of "pre @ ws" c] by simp
  have "Suc (length pre + length ws) + length (takeWhile P cs) < length ?buf" for P
    using length_takeWhile_le [of P cs] by (simp add: le_imp_less_Suc trans_le_add1)
  then have inside: "fetch ?buf (Suc (length pre + length ws) + length (takeWhile P cs))
      = Some (?buf ! (Suc (length pre + length ws) + length (takeWhile P cs)))"
    "put ?buf (Suc (length pre + length ws) + length (takeWhile P cs)) x
      = Some (?buf[Suc (length pre + length ws) + length (takeWhile P cs) := x])" for P x
    by (simp_all only: fetch_def put_def if_True)
  show ?thesis
  proof (cases "c = quote")
    case True
    then show ?thesis using start q cq at_q inside [of "\<lambda>d. d \<noteq> quote"]
      by (subst parse_loop.simps) (auto simp: Let_def)
  next
    case False
    then show ?thesis using start n(3) q w at_q inside [of "\<lambda>d. \<not> isspace d"]
      by (subst parse_loop.simps) (auto simp: Let_def)
  qed
qed

text \<open>One argument, given the result on what follows it.\<close>

lemma parsed_quoted:
  assumes s: "s = ws @ c # cs" and n: "no_nul (ws @ c # cs)" and ws: "\<forall>d \<in> set ws. isspace d"
    and c: "\<not> isspace c" and True: "c = quote" and room: "length argv < max_args"
    and IH: "\<And>s' pre' argv'. length s' < length s \<Longrightarrow> no_nul s' \<Longrightarrow>
      parsed max_args pre' s' post argv' (parse_loop max_args (pre' @ s' @ NUL # post) (length pre') argv')"
  shows "parsed max_args pre s post argv (parse_loop max_args (pre @ s @ NUL # post) (length pre) argv)"
proof -
  note turn = parse_loop_turn [OF n ws c, of max_args pre post argv]
  note toks = tokens_unfold [OF ws c, of cs]
  define word where "word = takeWhile (\<lambda>d. d \<noteq> quote) cs"
  have cs: "cs = word @ dropWhile (\<lambda>d. d \<noteq> quote) cs" by (simp add: word_def)
  then have nw: "no_nul word" using n by (metis no_nul_simps(2,3))
  show ?thesis
  proof (cases "dropWhile (\<lambda>d. d \<noteq> quote) cs")
    case Nil
    then have "length (takeWhile (\<lambda>d. d \<noteq> quote) cs) = length cs"
      using cs word_def by (metis append_Nil2)
    then have "parse_loop max_args (pre @ s @ NUL # post) (length pre) argv = Some None"
      using turn room True by (simp add: s Let_def nth_append)
    moreover have "tokens s = None" using toks True Nil by (simp add: s)
    ultimately show ?thesis by (simp add: parsed_def)
  next
    case (Cons x rest)
    then have x: "x = quote" by (simp add: dropWhile_eq_Cons_conv)
    with Cons cs have cs': "cs = word @ quote # rest" by simp
    let ?front = "ws @ [c]"
    have "parse_loop max_args (pre @ s @ NUL # post) (length pre) argv =
        parse_loop max_args ((pre @ ?front @ word @ [NUL]) @ rest @ NUL # post)
          (length (pre @ ?front @ word @ [NUL])) (argv @ [length pre + length ?front])"
      using turn [folded word_def] room True cs' by (simp add: s Let_def nth_append list_update_append add.assoc)
    moreover have "parsed max_args (pre @ ?front @ word @ [NUL]) rest post (argv @ [length pre + length ?front])
        (parse_loop max_args ((pre @ ?front @ word @ [NUL]) @ rest @ NUL # post)
          (length (pre @ ?front @ word @ [NUL])) (argv @ [length pre + length ?front]))"
      by (rule IH) (use n in \<open>simp_all add: s cs'\<close>)
    moreover have "tokens s = map_option (Cons word) (tokens rest)"
      using toks True Cons by (simp add: s word_def)
    ultimately show ?thesis
      using parsedI_more [of max_args pre ?front word rest post argv _ s] nw room by (simp add: s cs')
  qed
qed

lemma parsed_last_word:
  assumes s: "s = ws @ c # cs" and n: "no_nul (ws @ c # cs)" and ws: "\<forall>d \<in> set ws. isspace d"
    and c: "\<not> isspace c" and False: "c \<noteq> quote" and room: "length argv < max_args"
    and Nil: "dropWhile (\<lambda>d. \<not> isspace d) cs = []"
  shows "parsed max_args pre s post argv (parse_loop max_args (pre @ s @ NUL # post) (length pre) argv)"
proof -
  note turn = parse_loop_turn [OF n ws c, of max_args pre post argv]
  note toks = tokens_unfold [OF ws c, of cs]
  define word where "word = c # takeWhile (\<lambda>d. \<not> isspace d) cs"
  have cs: "c # cs = word @ dropWhile (\<lambda>d. \<not> isspace d) cs" by (simp add: word_def)
  then have nw: "no_nul word" using n by (metis no_nul_simps(3))
  have word: "word = c # cs" using cs Nil by (metis append_Nil2)
  then have "length (takeWhile (\<lambda>d. \<not> isspace d) cs) = length cs" using word_def by (metis list.inject)
  note turn = turn [unfolded this]
  let ?q = "length pre + length ws"
  have "parse_loop max_args (pre @ s @ NUL # post) (length pre) argv =
      parse_loop max_args (pre @ s @ NUL # post) (?q + length word) (argv @ [?q])"
    using turn room False word by (simp add: s Let_def nth_append)
  also have "\<dots> = Some (Some (pre @ s @ NUL # post, argv @ [?q]))"
    using fetch_at [of "pre @ s" NUL post] by (subst parse_loop.simps) (simp add: s word add.assoc)
  finally have "parse_loop max_args (pre @ s @ NUL # post) (length pre) argv = Some (Some (pre @ s @ NUL # post, argv @ [?q]))" .
  moreover have "tokens [] = Some []" by (subst tokens.simps) simp
  then have "tokens s = Some [word]" using toks False Nil by (simp add: s word_def)
  moreover have "strings_at (pre @ s @ NUL # post) [?q] = [word]" using nw c_str_terminated [OF nw, of post] by (simp add: s word)
  ultimately show ?thesis
    using room by (auto simp: parsed_def s intro!: exI [of _ "ws @ word"] simp: word)
qed

lemma parsed_word:
  assumes s: "s = ws @ c # cs" and n: "no_nul (ws @ c # cs)" and ws: "\<forall>d \<in> set ws. isspace d"
    and c: "\<not> isspace c" and False: "c \<noteq> quote" and room: "length argv < max_args"
    and IH: "\<And>s' pre' argv'. length s' < length s \<Longrightarrow> no_nul s' \<Longrightarrow>
      parsed max_args pre' s' post argv' (parse_loop max_args (pre' @ s' @ NUL # post) (length pre') argv')"
  shows "parsed max_args pre s post argv (parse_loop max_args (pre @ s @ NUL # post) (length pre) argv)"
proof (cases "dropWhile (\<lambda>d. \<not> isspace d) cs")
  case Nil
  then show ?thesis using parsed_last_word [OF assms(1-6)] by blast
next
  case (Cons d rest)
  note turn = parse_loop_turn [OF n ws c, of max_args pre post argv]
  note toks = tokens_unfold [OF ws c, of cs]
  define word where "word = c # takeWhile (\<lambda>d. \<not> isspace d) cs"
  have cs: "c # cs = word @ dropWhile (\<lambda>d. \<not> isspace d) cs" by (simp add: word_def)
  then have nw: "no_nul word" using n by (metis no_nul_simps(3))
  have d: "isspace d" using Cons by (simp add: dropWhile_eq_Cons_conv)
  with Cons cs have cs': "c # cs = word @ d # rest" by simp
  define w where "w = takeWhile (\<lambda>d. \<not> isspace d) cs"
  note turn = turn [folded w_def]
  have word: "word = c # w" and "cs = w @ d # rest" using cs' by (simp_all add: word_def w_def)
  have "d \<noteq> NUL" using n cs' by (metis no_nul_simps(2,3))
  then have "parse_loop max_args (pre @ s @ NUL # post) (length pre) argv =
      parse_loop max_args ((pre @ ws @ word @ [NUL]) @ rest @ NUL # post)
        (length (pre @ ws @ word @ [NUL])) (argv @ [length pre + length ws])"
    using turn room False \<open>cs = w @ d # rest\<close> by (simp add: s word Let_def nth_append list_update_append add.assoc)
  moreover have "parsed max_args (pre @ ws @ word @ [NUL]) rest post (argv @ [length pre + length ws])
      (parse_loop max_args ((pre @ ws @ word @ [NUL]) @ rest @ NUL # post)
        (length (pre @ ws @ word @ [NUL])) (argv @ [length pre + length ws]))"
  proof (rule IH)
    show "length rest < length s" using arg_cong [OF cs', of length] by (simp add: s)
    show "no_nul rest" using n cs' by (metis no_nul_simps(2,3))
  qed
  moreover have "tokens s = map_option (Cons word) (tokens rest)"
    using toks False Cons tokens_space [OF d] by (simp add: s word_def)
  moreover have "length s = length ws + length word + 1 + length rest"
    using arg_cong [OF cs', of length] by (simp add: s)
  ultimately show ?thesis
    using parsedI_more [of max_args pre ws word rest post argv _ s] nw room by simp
qed

lemma parse_loop_refines:
  "no_nul s \<Longrightarrow> parsed max_args pre s post argv (parse_loop max_args (pre @ s @ NUL # post) (length pre) argv)"
proof (induction s arbitrary: pre argv rule: length_induct)
  case (1 s)
  define ws where "ws = takeWhile isspace s"
  have ws: "\<forall>d \<in> set ws. isspace d" by (auto simp: ws_def dest: set_takeWhileD)
  show ?case
  proof (cases "dropWhile isspace s")
    case Nil
    have "skip_space (pre @ s @ NUL # post) (length pre) = Some (length pre + length s)"
      using skip_space_at [OF 1(2), of pre post] Nil by (simp add: takeWhile_all)
    moreover have "fetch (pre @ s @ NUL # post) (length pre) \<noteq> None" by (simp add: fetch_def)
    ultimately have "parse_loop max_args (pre @ s @ NUL # post) (length pre) argv = Some (Some (pre @ s @ NUL # post, argv))"
      using fetch_at [of "pre @ s" NUL post] by (subst parse_loop.simps) auto
    moreover have "tokens s = Some []" unfolding tokens.simps [of s] Nil by simp
    ultimately show ?thesis by (auto simp: parsed_def)
  next
    case (Cons c cs)
    have s: "s = ws @ c # cs" using Cons by (metis takeWhile_dropWhile_id ws_def)
    have c: "\<not> isspace c" using Cons by (simp add: dropWhile_eq_Cons_conv)
    have n: "no_nul (ws @ c # cs)" using 1(2) s by simp
    note turn = parse_loop_turn [OF n ws c, of max_args pre post argv]
    have IH: "parsed max_args pre' s' post argv' (parse_loop max_args (pre' @ s' @ NUL # post) (length pre') argv')"
      if "length s' < length s" "no_nul s'" for s' pre' argv' using 1(1) that by blast
    show ?thesis
    proof (cases "length argv < max_args")
      case False
      then have "parse_loop max_args (pre @ s @ NUL # post) (length pre) argv = Some None"
        using turn by (simp add: s Let_def)
      moreover have "tokens s \<noteq> Some []" using tokens_turn_nonempty [OF ws c] by (simp add: s)
      then have "tokens s = Some ts \<Longrightarrow> max_args < length argv + length ts" for ts
        using False by (cases ts) simp_all
      ultimately show ?thesis by (simp add: parsed_def split: option.split)
    next
      case room: True
      show ?thesis
      proof (cases "c = quote")
        case True
        then show ?thesis by (rule parsed_quoted [OF s n ws c _ room IH])
      next
        case False
        then show ?thesis by (rule parsed_word [OF s n ws c _ room IH])
      qed
    qed
  qed
qed

subsection \<open>Results\<close>

text \<open>The whole parser: it returns the tokens when there are at most \<open>max_args\<close> of them.\<close>

lemma parse_line_tokens:
  assumes "no_nul input"
  shows "parse_line input n = Some (case tokens input of None \<Rightarrow> None | Some ts \<Rightarrow> if length ts \<le> n then Some ts else None)"
proof -
  have "parsed n [] input [] [] (parse_loop n (input @ [NUL]) 0 [])"
    using parse_loop_refines [OF assms, of n "[]" "[]"] by simp
  then show ?thesis
    by (auto simp: parse_line_def parsed_def strings_at_def split: option.splits)
qed

lemma parse_command_tokens:
  assumes "no_nul input"
  shows "parse_command input n =
    (case tokens input of None \<Rightarrow> None | Some ts \<Rightarrow> if length ts \<le> n then Some ts else None)"
  using parse_line_tokens [OF assms, of n] by (simp add: parse_command_def)

text \<open>The parser stops at the first NUL of its array, so that it has a result on every line.\<close>

lemma parse_line_defined: "parse_line input n = Some (parse_command input n)"
proof -
  have "\<exists>s post. no_nul s \<and> input @ [NUL] = s @ NUL # post"
    using split_list_first [of NUL "input @ [NUL]"] by (auto simp: no_nul_def)
  then obtain s post where s: "no_nul s" "input @ [NUL] = s @ NUL # post" by blast
  from parse_loop_refines [OF s(1), of n "[]" post "[]"] s(2) have "parse_line input n \<noteq> None"
    by (auto simp: parse_line_def parsed_def split: option.splits)
  then show ?thesis by (auto simp: parse_command_def)
qed

lemma parse_command_no_nul:
  assumes "parse_command input n = Some ts" "t \<in> set ts"
  shows "no_nul t"
  using assms by (auto simp: parse_command_def parse_line_def strings_at_def Option.bind_eq_Some_conv split: option.splits)

lemma parse_command_length: "no_nul input \<Longrightarrow> parse_command input n = Some ts \<Longrightarrow> length ts \<le> n"
  by (auto simp: parse_command_tokens split: option.splits if_splits)

text \<open>No argument is longer than the line.\<close>

lemma tokens_short: "tokens s = Some ts \<Longrightarrow> t \<in> set ts \<Longrightarrow> length t \<le> length s"
proof (induction s arbitrary: ts rule: tokens.induct)
  case (1 s)
  show ?case
  proof (cases "dropWhile isspace s")
    case Nil
    then show ?thesis using "1.prems" unfolding tokens.simps [of s] Nil by simp
  next
    case (Cons c cs)
    have s: "Suc (length cs) \<le> length s" using length_dropWhile_le [of isspace s] Cons by simp
    show ?thesis
    proof (cases "c = quote")
      case True
      then obtain q r us where d: "dropWhile (\<lambda>d. d \<noteq> quote) cs = q # r" and us: "tokens r = Some us"
        "ts = takeWhile (\<lambda>d. d \<noteq> quote) cs # us"
        using "1.prems"(1) unfolding tokens.simps [of s] Cons by (auto split: list.splits)
      have "length r \<le> length cs" using length_dropWhile_le [of "\<lambda>d. d \<noteq> quote" cs] d by simp
      moreover have "length (takeWhile (\<lambda>d. d \<noteq> quote) cs) \<le> length cs" by (rule length_takeWhile_le)
      ultimately show ?thesis using "1.IH"(1) [OF Cons True d us(1)] "1.prems"(2) us(2) s by fastforce
    next
      case False
      then obtain us where us: "tokens (dropWhile (\<lambda>d. \<not> isspace d) cs) = Some us"
        "ts = (c # takeWhile (\<lambda>d. \<not> isspace d) cs) # us"
        using "1.prems"(1) unfolding tokens.simps [of s] Cons by auto
      have "t \<in> set us \<Longrightarrow> length t \<le> length cs"
        using "1.IH"(2) [OF Cons False us(1)] length_dropWhile_le le_trans by blast
      moreover have "length (takeWhile (\<lambda>d. \<not> isspace d) cs) \<le> length cs" by (rule length_takeWhile_le)
      ultimately show ?thesis using "1.prems"(2) us(2) s by auto
    qed
  qed
qed

lemma parse_command_short:
  "no_nul input \<Longrightarrow> parse_command input n = Some ts \<Longrightarrow> t \<in> set ts \<Longrightarrow> length t \<le> length input"
  using tokens_short by (auto simp: parse_command_tokens split: option.splits if_splits)

text \<open>A quoted argument is read back as it is.\<close>

lemma tokens_quoted:
  assumes "quote \<notin> set a"
  shows "tokens (quote # a @ quote # r) = map_option (Cons a) (tokens r)"
proof -
  have "takeWhile (\<lambda>d. d \<noteq> quote) (a @ quote # r) = a" using assms by (induction a) auto
  moreover have "dropWhile (\<lambda>d. d \<noteq> quote) (a @ quote # r) = quote # r" using assms by (induction a) auto
  ultimately show ?thesis using tokens_unfold [of "[]" quote "a @ quote # r"] by (simp add: isspace_def)
qed

definition quote_args :: "cstr list \<Rightarrow> string" where
  "quote_args as = concat (map (\<lambda>a. quote # a @ [quote, CHR '' '']) as)"

lemma tokens_quote_args: "\<forall>a \<in> set as. quote \<notin> set a \<Longrightarrow> tokens (quote_args as) = Some as"
proof (induction as)
  case Nil
  show ?case by (simp add: quote_args_def tokens.simps [of "[]"])
next
  case (Cons a as)
  have "quote_args (a # as) = quote # a @ quote # CHR '' '' # quote_args as" by (simp add: quote_args_def)
  with Cons show ?case by (simp add: tokens_quoted tokens_space)
qed

lemma no_nul_quote_args [simp]: "no_nul (quote_args as) \<longleftrightarrow> (\<forall>a \<in> set as. no_nul a)"
  by (induction as) (auto simp: quote_args_def)

text \<open>The seconds of \<open>EX\<close> are positive and saturate at the largest \<open>long long\<close>.\<close>

lemma strtoll_range: "strtoll v = (i, r) \<Longrightarrow> - (2 ^ 63) \<le> i \<and> i < 2 ^ 63"
  by (auto simp: strtoll_def scan_lld_def clamp_i64_def split: option.splits)

lemma parse_expiry_range: "parse_expiry_seconds v = Some n \<Longrightarrow> 0 < n \<and> n < 2 ^ 63"
  using strtoll_range [of v] by (auto simp: parse_expiry_seconds_def split: prod.splits if_splits)

lemma parse_expiry_show_nat:
  "parse_expiry_seconds (show_nat n) = (if n = 0 then None else Some (min (2 ^ 63 - 1) (int n)))"
  using scan_number_show_nat [of "[]" n]
  by (simp add: parse_expiry_seconds_def strtoll_def scan_lld_def clamp_i64_def min_def)

subsection \<open>Properties\<close>

text \<open>
  C18: the in-place parser is the pure tokenizer, and it stays inside its buffer.  On the array of a C
  string, for any capacity of \<open>argv\<close>, it has a result: it reads and writes no byte outside the array and ends.
  It fails exactly when a quote is not closed or there are more
  arguments than \<open>argv\<close> holds; otherwise the array keeps its length, every pointer in \<open>argv\<close> points
  into it, and the strings they point to are the tokens of the line.
\<close>

theorem parse_in_place:
  assumes "no_nul input"
  shows "\<exists>res. parse_loop n (input @ [NUL]) 0 [] = Some res \<and> (case res of
      None \<Rightarrow> parse_command input n = None \<and> (case tokens input of None \<Rightarrow> True | Some ts \<Rightarrow> n < length ts)
    | Some (buf, argv) \<Rightarrow> length buf = length input + 1 \<and> length argv \<le> n \<and> (\<forall>p \<in> set argv. p < length buf)
        \<and> parse_command input n = Some (strings_at buf argv) \<and> tokens input = Some (strings_at buf argv))"
proof -
  have p: "parsed n [] input [] [] (parse_loop n (input @ [NUL]) 0 [])"
    using parse_loop_refines [OF assms, of n "[]" "[]"] by simp
  then obtain res where res: "parse_loop n (input @ [NUL]) 0 [] = Some res" by (auto simp: parsed_def split: option.splits)
  then have "parse_command input n = (case res of None \<Rightarrow> None | Some (buf, argv) \<Rightarrow> Some (strings_at buf argv))"
    by (simp add: parse_command_def parse_line_def split: option.split)
  with p res show ?thesis by (auto simp: parsed_def split: option.splits)
qed

theorem parse_in_place_witness:
  "parse_command ''set  k \"a b\"'' 5 = Some [''set'', ''k'', ''a b'']
   \<and> tokens ''set  k \"a b\"'' = Some [''set'', ''k'', ''a b'']"
proof -
  have t: "tokens ''set  k \"a b\"'' = Some [''set'', ''k'', ''a b'']"
    by (simp add: tokens.simps isspace_def)
  have "no_nul ''set  k \"a b\"''" by (simp add: no_nul_def)
  from parse_in_place [OF this, of 5] t show ?thesis by (auto split: option.splits)
qed

text \<open>
  Any argument without a double quote can be written: a line of quoted arguments, at most as many
  as \<open>argv\<close> holds, is parsed back to these arguments, whatever spaces or other bytes they contain.
\<close>

lemma quoted_arguments_roundtrip:
  assumes "\<forall>a \<in> set as. no_nul a \<and> quote \<notin> set a" "length as \<le> n"
  shows "parse_command (quote_args as) n = Some as"
proof -
  have "no_nul (quote_args as)" using assms(1) by simp
  then show ?thesis using assms by (simp add: parse_command_tokens tokens_quote_args)
qed

text \<open>
  The seconds of \<open>EX\<close>.  The decimal notation of a number is accepted exactly when it is not zero,
  and a number beyond the range of \<^verbatim>\<open>long long\<close> is taken for the largest one; whatever else is
  accepted is positive and in range too.
\<close>

lemma expiry_seconds_positive:
  "parse_expiry_seconds (show_nat n) = (if n = 0 then None else Some (min (2 ^ 63 - 1) (int n)))
   \<and> parse_expiry_seconds v \<in> {None} \<union> Some ` {0 <..< 2 ^ 63}"
  using parse_expiry_show_nat [of n] parse_expiry_range [of v]
  by (cases "parse_expiry_seconds v") auto

end
