(* ===== verification/Command.thy ===== *)
theory Command
  imports Persistence CommandParse
begin

text \<open>
  The command interpreter of \<^verbatim>\<open>src/command.c\<close>: \<open>command_execute\<close> with one definition per command, and
  the local command loop.

  A command returns its status (\<open>0\<close>, \<open>1\<close> for EXIT, \<open>-1\<close> for an error), the response as it is left in
  the response buffer, the table and the world.  The calls are made in the order of the code: the
  append to the file before the change of the table, each reading of the clock where the code
  reads it.  The lemmas give the result of every command on every branch in terms of the map the
  table stands for.
\<close>

type_synonym outcome = "int \<times> cstr \<times> hash_table \<times> world"

definition max_args :: nat where
  "max_args = 5"

definition input_size :: nat where
  "input_size = 256"

definition line :: "string \<Rightarrow> string" where
  "line s = s @ [NL]"

text \<open>\<open>snprintf(response, response_size, ...); return -1;\<close>\<close>

definition err :: "nat \<Rightarrow> string \<Rightarrow> hash_table \<Rightarrow> world \<Rightarrow> outcome" where
  "err n msg t w = (-1, snprintf n (line msg), t, w)"

definition reply :: "nat \<Rightarrow> string \<Rightarrow> hash_table \<Rightarrow> world \<Rightarrow> outcome" where
  "reply n msg t w = (0, snprintf n (line msg), t, w)"

subsection \<open>SET\<close>

text \<open>Appending to the file first: the absolute time and whether the record was written.\<close>

definition persist_set :: "cstr \<Rightarrow> cstr \<Rightarrow> int option \<Rightarrow> world \<Rightarrow> time_t \<times> bool \<times> world" where
  "persist_set k v expiry w =
     (case expiry of
        Some seconds \<Rightarrow>
          let (n, w) = time_now w; x = add_time n seconds; (ok, w) = persistence_append_set_expiry k v x w
          in (x, ok, w)
      | None \<Rightarrow> let (ok, w) = persistence_append_set k v w in (0, ok, w))"

text \<open>Then the table, and the expiration through the pointer to the entry.\<close>

definition store_set :: "nat \<Rightarrow> cstr \<Rightarrow> cstr \<Rightarrow> int option \<Rightarrow> time_t \<Rightarrow> hash_table \<Rightarrow> world \<Rightarrow> outcome" where
  "store_set n k v expiry x t w =
     (let (ok, t, w) = hash_table_set k v t w in
      if \<not> ok then err n ''ERR failed to set key'' t w
      else if expiry \<noteq> None then
        (case find_entry t k of
           None \<Rightarrow> err n ''ERR failed to set expiration'' t w
         | Some _ \<Rightarrow> reply n ''OK'' (write_entry k (\<lambda>e. e\<lparr>expires_at := x\<rparr>) t) w)
      else
        (case find_entry t k of
           None \<Rightarrow> reply n ''OK'' t w
         | Some _ \<Rightarrow> reply n ''OK'' (write_entry k (\<lambda>e. e\<lparr>expires_at := 0\<rparr>) t) w))"

definition cmd_set :: "nat \<Rightarrow> cstr list \<Rightarrow> hash_table \<Rightarrow> world \<Rightarrow> outcome" where
  "cmd_set n argv t w =
     (if length argv \<noteq> 3 \<and> length argv \<noteq> 5 then err n ''ERR wrong number of arguments'' t w
      else if length argv = 5 \<and> map toupper (argv ! 3) \<noteq> ''EX'' then err n ''ERR syntax error'' t w
      else if length argv = 5 \<and> parse_expiry_seconds (argv ! 4) = None
           then err n ''ERR invalid expire time'' t w
      else
        let expiry = (if length argv = 5 then parse_expiry_seconds (argv ! 4) else None);
            (x, persisted, w) = persist_set (argv ! 1) (argv ! 2) expiry w
        in if \<not> persisted then err n ''ERR failed to write AOF'' t w
           else store_set n (argv ! 1) (argv ! 2) expiry x t w)"

subsection \<open>GET, TTL and DEL\<close>

definition cmd_get :: "nat \<Rightarrow> cstr list \<Rightarrow> hash_table \<Rightarrow> world \<Rightarrow> outcome" where
  "cmd_get n argv t w =
     (if length argv \<noteq> 2 then err n ''ERR wrong number of arguments'' t w
      else
        (case find_entry t (argv ! 1) of
           None \<Rightarrow> reply n ''(nil)'' t w
         | Some e \<Rightarrow>
             let (expired, w) = entry_is_expired (Some e) w in
             if expired then reply n ''(nil)'' t w else reply n (val e) t w))"

definition cmd_ttl :: "nat \<Rightarrow> cstr list \<Rightarrow> hash_table \<Rightarrow> world \<Rightarrow> outcome" where
  "cmd_ttl n argv t w =
     (if length argv \<noteq> 2 then err n ''ERR wrong number of arguments'' t w
      else
        (case find_entry t (argv ! 1) of
           None \<Rightarrow> reply n ''-2'' t w
         | Some e \<Rightarrow>
             let (expired, w) = entry_is_expired (Some e) w in
             if expired then reply n ''-2'' t w
             else if expires_at e = 0 then reply n ''-1'' t w
             else let (s, w) = time_now w; remaining = sub_time (expires_at e) s in
             if remaining \<le> 0 then reply n ''-2'' t w else reply n (show_int remaining) t w))"

definition cmd_del :: "nat \<Rightarrow> cstr list \<Rightarrow> hash_table \<Rightarrow> world \<Rightarrow> outcome" where
  "cmd_del n argv t w =
     (if length argv \<noteq> 2 then err n ''ERR wrong number of arguments'' t w
      else
        let entry = find_entry t (argv ! 1) in
        if entry = None then reply n ''0'' t w
        else let (expired, w) = entry_is_expired entry w in
        if expired then reply n ''0'' t w
        else let (persisted, w) = persistence_append_del (argv ! 1) w in
        if \<not> persisted then err n ''ERR failed to write AOF'' t w
        else let (ok, t) = hash_table_delete (argv ! 1) t in
        if \<not> ok then err n ''ERR failed to delete key'' t w
        else reply n ''1'' t w)"

subsection \<open>PING and EXIT, and the dispatch\<close>

definition cmd_ping :: "nat \<Rightarrow> cstr list \<Rightarrow> hash_table \<Rightarrow> world \<Rightarrow> outcome" where
  "cmd_ping n argv t w =
     (if length argv \<noteq> 1 then err n ''ERR wrong number of arguments'' t w else reply n ''PONG'' t w)"

definition cmd_exit :: "nat \<Rightarrow> cstr list \<Rightarrow> hash_table \<Rightarrow> world \<Rightarrow> outcome" where
  "cmd_exit n argv t w =
     (if length argv \<noteq> 1 then err n ''ERR wrong number of arguments'' t w
      else let (ok, w) = persistence_rewrite t w in
      if \<not> ok then err n ''ERR failed to rewrite AOF'' t w
      else (1, snprintf n (line ''BYE''), t, w))"

text \<open>The commands by their upper-case names.\<close>

definition dispatch :: "cstr \<Rightarrow> nat \<Rightarrow> cstr list \<Rightarrow> hash_table \<Rightarrow> world \<Rightarrow> outcome" where
  "dispatch command n argv t w =
     (if command = ''SET'' then cmd_set n argv t w
      else if command = ''GET'' then cmd_get n argv t w
      else if command = ''TTL'' then cmd_ttl n argv t w
      else if command = ''DEL'' then cmd_del n argv t w
      else if command = ''PING'' then cmd_ping n argv t w
      else if command = ''EXIT'' then cmd_exit n argv t w
      else err n ''ERR unknown command'' t w)"

definition command_execute :: "hash_table \<Rightarrow> cstr \<Rightarrow> nat \<Rightarrow> world \<Rightarrow> outcome" where
  "command_execute t input n w =
     (case parse_command input max_args of
        None \<Rightarrow> err n ''ERR invalid command'' t w
      | Some argv \<Rightarrow>
          if argv = [] then (0, [], t, w)
          else dispatch (map toupper (hd argv)) n argv t w)"

subsection \<open>The local command loop\<close>

text \<open>\<^verbatim>\<open>fgets\<close>: at most \<open>n - 1\<close> bytes, up to and including a newline; \<open>None\<close> at the end of the input.\<close>

definition fgets :: "nat \<Rightarrow> string \<Rightarrow> (string \<times> string) option" where
  "fgets n s =
     (if s = [] then None
      else let body = take (n - 1) s; pre = takeWhile (\<lambda>c. c \<noteq> NL) body in
      if length pre < length body then Some (pre @ [NL], drop (Suc (length pre)) s)
      else Some (pre, drop (length pre) s))"

lemma fgets_shorter: "1 < n \<Longrightarrow> fgets n s = Some (l, r) \<Longrightarrow> length r < length s"
proof -
  assume n: "1 < n" and f: "fgets n s = Some (l, r)"
  then have "s \<noteq> []" by (simp add: fgets_def split: if_splits)
  show ?thesis
  proof (cases "length (takeWhile (\<lambda>c. c \<noteq> NL) (take (n - 1) s)) < length (take (n - 1) s)")
    case True
    with f \<open>s \<noteq> []\<close> show ?thesis by (auto simp: fgets_def Let_def)
  next
    case False
    then have "0 < length (takeWhile (\<lambda>c. c \<noteq> NL) (take (n - 1) s))"
      using n \<open>s \<noteq> []\<close> by (metis diff_is_0_eq' gr0I length_0_conv less_le_not_le nat_le_linear take_eq_Nil zero_less_diff)
    with f False \<open>s \<noteq> []\<close> show ?thesis by (auto simp: fgets_def Let_def)
  qed
qed

text \<open>The prompt and the responses go to the output; the input ends at its end or at EXIT.\<close>

function command_loop :: "string \<Rightarrow> hash_table \<Rightarrow> world \<Rightarrow> string list \<times> hash_table \<times> world" where
  "command_loop stdin t w =
     (case fgets input_size stdin of
        None \<Rightarrow> ([''InMemDB> ''], t, w)
      | Some (l, rest) \<Rightarrow>
          let input = takeWhile (\<lambda>c. c \<noteq> NL) (c_str l);
              (result, response, t, w) = command_execute t input input_size w;
              printed = (if response \<noteq> [] then [''InMemDB> '', response] else [''InMemDB> '']) in
          if result = 1 then (printed, t, w)
          else let (more, t, w) = command_loop rest t w in (printed @ more, t, w))"
  by pat_completeness auto
termination
  by (relation "measure (\<lambda>(s, t, w). length s)") (auto simp: input_size_def dest: fgets_shorter [rotated])

declare command_loop.simps [simp del]

subsection \<open>Responses\<close>

lemma err_reply [simp]:
  "err n m t w = (st, r, t', w') \<longleftrightarrow> st = -1 \<and> r = snprintf n (line m) \<and> t' = t \<and> w' = w"
  "reply n m t w = (st, r, t', w') \<longleftrightarrow> st = 0 \<and> r = snprintf n (line m) \<and> t' = t \<and> w' = w"
  "(st, r, t', w') = err n m t w \<longleftrightarrow> st = -1 \<and> r = snprintf n (line m) \<and> t' = t \<and> w' = w"
  "(st, r, t', w') = reply n m t w \<longleftrightarrow> st = 0 \<and> r = snprintf n (line m) \<and> t' = t \<and> w' = w"
  by (auto simp: err_def reply_def)

lemma snprintf_short: "length s < n \<Longrightarrow> snprintf n s = s"
  by (simp add: snprintf_def)

lemma snprintf_bound: "0 < n \<Longrightarrow> length (snprintf n s) < n"
  by (auto simp: snprintf_def)

subsection \<open>SET: lemmas\<close>

lemma write_expiry_tmap:
  assumes "wf_table t" "tmap t k = Some (v, y)"
  shows "wf_table (write_entry k (\<lambda>e. e\<lparr>expires_at := x\<rparr>) t)
    \<and> tmap (write_entry k (\<lambda>e. e\<lparr>expires_at := x\<rparr>) t) = (tmap t)(k \<mapsto> (v, x))"
  using assms by (auto simp: write_entry_wf tmap_def content_def find_write_entry fun_eq_iff)

lemma store_set_cases:
  assumes "wf_table t" "store_set n k v expiry x t w = (st, r, t', w')" "expiry = None \<Longrightarrow> x = 0"
  obtains (stored) "st = 0" "r = snprintf n (line ''OK'')" "wf_table t'" "tmap t' = (tmap t)(k \<mapsto> (v, x))"
      "files w' = files w" "clock w' = clock w" "io w' = io w"
  | (failed) "st = -1" "r = snprintf n (line ''ERR failed to set key'')" "wf_table t'" "tmap t' = tmap t"
      "files w' = files w" "clock w' = clock w" "io w' = io w" "\<not> mem_ok w"
proof -
  obtain ok t1 w1 where set: "hash_table_set_with_expiry k v 0 t w = (ok, t1, w1)"
    by (cases "hash_table_set_with_expiry k v 0 t w") auto
  note t1 = set_correct [OF assms(1) set] and w1 = set_world [OF set]
  show ?thesis
  proof (cases ok)
    case False
    then show ?thesis
      using assms(2) set t1 w1 set_mem_ok [OF _ set]
      by (intro failed) (auto simp: store_set_def hash_table_set_def)
  next
    case True
    then have m: "tmap t1 k = Some (v, 0)" "wf_table t1" using t1 by simp_all
    then obtain e where "find_entry t1 k = Some e" by (auto simp: tmap_def)
    then have "t' = write_entry k (\<lambda>e. e\<lparr>expires_at := x\<rparr>) t1 \<and> st = 0 \<and> r = snprintf n (line ''OK'') \<and> w' = w1"
      using assms(2,3) set True by (auto simp: store_set_def hash_table_set_def split: if_splits)
    with stored write_expiry_tmap [OF m(2,1), of x] t1 w1 True show ?thesis by simp
  qed
qed

text \<open>What the arguments of a SET mean: key, value and the seconds of \<open>EX\<close>.\<close>

fun set_request :: "cstr list \<Rightarrow> (cstr \<times> cstr \<times> int option) option" where
  "set_request [c, k, v] = Some (k, v, None)"
| "set_request [c, k, v, ex, sec] =
     (if map toupper ex = ''EX''
      then (case parse_expiry_seconds sec of None \<Rightarrow> None | Some s \<Rightarrow> Some (k, v, Some s))
      else None)"
| "set_request _ = None"

lemma length_5: "length xs = 5 \<longleftrightarrow> (\<exists>a b c d e. xs = [a, b, c, d, e])"
  by (auto simp: length_Suc_conv numeral_eq_Suc)

lemma length_3: "length xs = 3 \<longleftrightarrow> (\<exists>a b c. xs = [a, b, c])"
  by (auto simp: length_Suc_conv numeral_eq_Suc)

lemma set_request_length: "set_request argv = Some r \<Longrightarrow> length argv = 3 \<or> length argv = 5"
  by (induction argv rule: set_request.induct) auto

text \<open>A request that is not well-formed is refused before anything is written.\<close>

lemma cmd_set_refused:
  assumes "set_request argv = None"
  shows "\<exists>m. cmd_set n argv t w = err n m t w \<and>
    m \<in> {''ERR wrong number of arguments'', ''ERR syntax error'', ''ERR invalid expire time''}"
proof -
  have "length argv = 3 \<Longrightarrow> False" using assms by (auto simp: length_3)
  then consider "length argv \<noteq> 3" "length argv \<noteq> 5" | c k v ex sec where "argv = [c, k, v, ex, sec]"
    by (metis length_5)
  then show ?thesis
    by cases (use assms in \<open>auto simp: cmd_set_def split: option.splits if_splits\<close>)
qed

lemma cmd_set_request:
  assumes "set_request argv = Some (k, v, expiry)"
  shows "cmd_set n argv t w =
    (let (x, persisted, w) = persist_set k v expiry w in
     if \<not> persisted then err n ''ERR failed to write AOF'' t w else store_set n k v expiry x t w)"
  using assms
proof (cases "length argv = 3")
  case True
  with assms show ?thesis by (auto simp: length_3 cmd_set_def split: prod.splits)
next
  case False
  with set_request_length [OF assms] obtain a b c d e where "argv = [a, b, c, d, e]" by (auto simp: length_5)
  with assms show ?thesis by (auto simp: cmd_set_def split: option.splits if_splits prod.splits)
qed

text \<open>The absolute expiration time of a request made at time \<open>n\<close>.\<close>

definition expiry_time :: "time_t \<Rightarrow> int option \<Rightarrow> time_t" where
  "expiry_time n expiry = (case expiry of None \<Rightarrow> 0 | Some s \<Rightarrow> add_time n s)"

definition tick :: "int option \<Rightarrow> world \<Rightarrow> world" where
  "tick expiry w = (case expiry of None \<Rightarrow> w | Some _ \<Rightarrow> snd (time_now w))"

lemma persist_set_record:
  "persist_set k v expiry w =
    (let x = expiry_time (now w) expiry; (ok, w) = append_record (set_record k v x) (tick expiry w) in (x, ok, w))"
  by (cases expiry) (auto simp: persist_set_def persistence_append_set_def append_set_record expiry_time_def
      tick_def time_now_def now_def Let_def split: prod.splits)

text \<open>
  The three outcomes of a well-formed SET.  The file always holds the old contents and a prefix of
  the record; the table changes only when the whole record was written.
\<close>

lemma cmd_set_cases:
  assumes "wf_table t" "set_request argv = Some (k, v, expiry)" "cmd_set n argv t w = (st, r, t', w')"
  obtains (ok) "st = 0" "r = snprintf n (line ''OK'')" "wf_table t'"
      "tmap t' = (tmap t)(k \<mapsto> (v, expiry_time (now w) expiry))"
      "aof_text w' = aof_text w @ set_record k v (expiry_time (now w) expiry)" "clock w' = clock (tick expiry w)"
  | (no_memory) "st = -1" "r = snprintf n (line ''ERR failed to set key'')" "wf_table t'" "tmap t' = tmap t"
      "aof_text w' = aof_text w @ set_record k v (expiry_time (now w) expiry)" "clock w' = clock (tick expiry w)"
      "\<not> mem_ok w"
  | (no_file) p where "st = -1" "r = snprintf n (line ''ERR failed to write AOF'')" "t' = t"
      "prefix p (set_record k v (expiry_time (now w) expiry))" "aof_text w' = aof_text w @ p"
      "clock w' = clock (tick expiry w)" "\<not> io_ok w"
proof -
  let ?x = "expiry_time (now w) expiry" and ?w = "tick expiry w"
  obtain ok w1 where app: "append_record (set_record k v ?x) ?w = (ok, w1)" by fastforce
  have frame: "aof_text ?w = aof_text w" "mallocs ?w = mallocs w" "io ?w = io w"
    by (cases expiry; simp add: tick_def aof_text_def)+
  from append_record_prefix [OF app] obtain p where p: "prefix p (set_record k v ?x)"
    "aof_text w1 = aof_text w @ p" "ok \<Longrightarrow> p = set_record k v ?x" "clock w1 = clock ?w" "mallocs w1 = mallocs w"
    using frame by metis
  have cmd: "cmd_set n argv t w = (if \<not> ok then err n ''ERR failed to write AOF'' t w1
      else store_set n k v expiry ?x t w1)"
    using app by (simp add: cmd_set_request [OF assms(2)] persist_set_record Let_def)
  show ?thesis
  proof (cases ok)
    case False
    then have "\<not> io_ok ?w" using app append_record_ok by (metis prod.inject)
    then show ?thesis using no_file p assms(3) cmd False frame by (simp add: io_ok_def)
  next
    case True
    then have s: "store_set n k v expiry ?x t w1 = (st, r, t', w')" using assms(3) cmd by simp
    have "expiry = None \<Longrightarrow> ?x = 0" by (simp add: expiry_time_def)
    with assms(1) s show ?thesis
      using ok no_memory p True by (cases rule: store_set_cases) (auto simp: aof_text_def mem_ok_def)
  qed
qed

text \<open>Without failures a SET succeeds, and the world is the old one with the longer file.\<close>

lemma store_set_world:
  assumes "mem_ok w" "store_set n k v expiry x t w = (st, r, t', w')"
  shows "w' = w"
proof -
  obtain ok t1 w1 where set: "hash_table_set_with_expiry k v 0 t w = (ok, t1, w1)"
    by (cases "hash_table_set_with_expiry k v 0 t w") auto
  with set_mem_ok [OF assms(1) set] assms(2) show ?thesis
    by (auto simp: store_set_def hash_table_set_def split: if_splits option.splits)
qed

lemma cmd_set_healthy:
  assumes "wf_table t" "set_request argv = Some (k, v, expiry)" "cmd_set n argv t w = (st, r, t', w')"
    and "mem_ok w" "io_ok w"
  shows "st = 0 \<and> r = snprintf n (line ''OK'') \<and> wf_table t' \<and> tmap t' = (tmap t)(k \<mapsto> (v, expiry_time (now w) expiry))
    \<and> w' = (tick expiry w)\<lparr>files := (files w)(aof_file \<mapsto> aof_text w @ set_record k v (expiry_time (now w) expiry))\<rparr>"
proof -
  have frame: "files (tick expiry w) = files w" "io_ok (tick expiry w)" "mem_ok (tick expiry w)"
    using assms(4,5) by (cases expiry; simp add: tick_def io_ok_def mem_ok_def)+
  let ?x = "expiry_time (now w) expiry"
  let ?w1 = "(tick expiry w)\<lparr>files := (files w)(aof_file \<mapsto> aof_text w @ set_record k v ?x)\<rparr>"
  have "store_set n k v expiry ?x t ?w1 = (st, r, t', w')"
    using assms(3) frame
    by (simp add: cmd_set_request [OF assms(2)] persist_set_record append_record_ok aof_text_def Let_def)
  with store_set_world [of ?w1] frame have "w' = ?w1" by simp
  with assms show ?thesis by (cases rule: cmd_set_cases [OF assms(1-3)]) simp_all
qed

subsection \<open>Commands that only read: lemmas\<close>

text \<open>Nothing but the clock moves.\<close>

definition only_clock :: "world \<Rightarrow> world \<Rightarrow> bool" where
  "only_clock w w' \<longleftrightarrow> files w' = files w \<and> io w' = io w \<and> mallocs w' = mallocs w
     \<and> (clock_ok w \<longrightarrow> clock_ok w' \<and> now w \<le> now w')"

lemma only_clock_refl [simp, intro]: "only_clock w w"
  by (simp add: only_clock_def)

lemma only_clock_trans: "only_clock u v \<Longrightarrow> only_clock v w \<Longrightarrow> only_clock u w"
  by (auto simp: only_clock_def)

lemma only_clock_time [intro]: "only_clock w (snd (time_now w))"
  by (simp add: only_clock_def clock_ok_tick now_tick)

lemma only_clock_expired [intro]: "only_clock w (snd (entry_is_expired p w))"
  by (simp add: only_clock_def entry_is_expired_clock)

lemma only_clock_ok: "only_clock w w' \<Longrightarrow> io_ok w' = io_ok w \<and> mem_ok w' = mem_ok w \<and> aof_text w' = aof_text w"
  by (simp add: only_clock_def io_ok_def mem_ok_def aof_text_def)

lemma survivors_only_clock: "only_clock w (snd (survivors es w))"
  using survivors_frame [of es w] survivors_clock [of w es] by (simp add: only_clock_def)

lemma cmd_get_frame: "cmd_get n argv t w = (st, r, t', w') \<Longrightarrow> t' = t \<and> only_clock w w'"
  using only_clock_expired
  by (auto simp: cmd_get_def Let_def split: if_splits option.splits prod.splits) (metis snd_conv)+

lemma cmd_ttl_frame: "cmd_ttl n argv t w = (st, r, t', w') \<Longrightarrow> t' = t \<and> only_clock w w'"
proof -
  assume a: "cmd_ttl n argv t w = (st, r, t', w')"
  define w1 where "w1 = snd (entry_is_expired (find_entry t (argv ! 1)) w)"
  have "only_clock w w1" unfolding w1_def by (rule only_clock_expired)
  moreover have "t' = t \<and> (w' = w \<or> w' = w1 \<or> w' = snd (time_now w1))"
    using a
    by (auto simp: cmd_ttl_def w1_def Let_def split: if_splits option.splits prod.splits)
  ultimately show ?thesis using only_clock_time only_clock_trans by blast
qed

lemma cmd_get_result:
  assumes "length argv = 2"
  shows "\<exists>w'. cmd_get n argv t w =
    (0, snprintf n (line (case visible (now w) (tmap t) (argv ! 1) of None \<Rightarrow> ''(nil)'' | Some v \<Rightarrow> v)), t, w')"
proof (cases "find_entry t (argv ! 1)")
  case None
  with assms show ?thesis by (simp add: cmd_get_def visible_def tmap_def reply_def)
next
  case (Some e)
  then show ?thesis
    using assms entry_is_expired_live [of e w]
    by (cases "entry_is_expired (Some e) w")
      (auto simp: cmd_get_def visible_def tmap_def content_def reply_def)
qed

text \<open>TTL answers for the time of its second reading of the clock.\<close>

definition ttl_text :: "time_t \<Rightarrow> (cstr \<times> time_t) option \<Rightarrow> string" where
  "ttl_text n b = (case b of
      None \<Rightarrow> ''-2''
    | Some (v, x) \<Rightarrow> if x = 0 then ''-1'' else if live_at n x then show_int (x - n) else ''-2'')"

lemma cmd_ttl_result:
  assumes "length argv = 2" "clock_ok w" "0 \<le> now w" "now (snd (time_now w)) < 2 ^ 63"
    and "\<And>v x. tmap t (argv ! 1) = Some (v, x) \<Longrightarrow> x < 2 ^ 63"
  shows "\<exists>w' m. cmd_ttl n argv t w = (0, snprintf n (line (ttl_text m (tmap t (argv ! 1)))), t, w')
    \<and> m \<in> {now w, now (snd (time_now w))}"
proof (cases "find_entry t (argv ! 1)")
  case None
  with assms(1) show ?thesis by (auto simp: cmd_ttl_def ttl_text_def tmap_def reply_def)
next
  case (Some e)
  then have x: "expires_at e < 2 ^ 63" and m: "tmap t (argv ! 1) = Some (val e, expires_at e)"
    using assms(5) tmap_find by blast+
  let ?n = "now (snd (time_now w))"
  have later: "0 \<le> ?n" using now_tick [OF assms(2)] assms(3) by linarith
  consider "expires_at e = 0" | "expires_at e \<noteq> 0" "\<not> live_at (now w) (expires_at e)"
    | "expires_at e \<noteq> 0" "live_at (now w) (expires_at e)" by blast
  then show ?thesis
  proof cases
    case 1
    with Some m assms(1) show ?thesis
      by (auto simp: cmd_ttl_def ttl_text_def reply_def entry_is_expired_def)
  next
    case 2
    with Some m assms(1) show ?thesis
      by (auto simp: cmd_ttl_def ttl_text_def reply_def entry_is_expired_def live_at_iff time_now_def now_def)
  next
    case 3
    then have "0 < expires_at e" using assms(3) by (simp add: live_at_iff)
    then have "sub_time (expires_at e) ?n = expires_at e - ?n"
      using x later assms(4) by (simp add: sub_time_def wrap64_id)
    with 3 Some m assms(1) show ?thesis
      by (auto simp: cmd_ttl_def ttl_text_def reply_def entry_is_expired_def live_at_iff time_now_def now_def
          intro!: exI [of _ ?n])
  qed
qed

subsection \<open>DEL and EXIT: lemmas\<close>

lemma visible_iff: "visible n m k = Some v \<longleftrightarrow> (\<exists>x. m k = Some (v, x) \<and> live_at n x)"
  by (auto simp: visible_def split: option.splits)

lemma cmd_del_cases:
  assumes "wf_table t" "length argv = 2" "cmd_del n argv t w = (st, r, t', w')"
  obtains (absent) "st = 0" "r = snprintf n (line ''0'')" "t' = t" "visible (now w) (tmap t) (argv ! 1) = None"
      "only_clock w w'"
  | (deleted) w1 where "st = 0" "r = snprintf n (line ''1'')" "wf_table t'" "tmap t' = (tmap t)(argv ! 1 := None)"
      "visible (now w) (tmap t) (argv ! 1) \<noteq> None" "only_clock w w1"
      "append_record (del_record (argv ! 1)) w1 = (True, w')"
  | (no_file) w1 where "st = -1" "r = snprintf n (line ''ERR failed to write AOF'')" "t' = t"
      "only_clock w w1" "append_record (del_record (argv ! 1)) w1 = (False, w')"
proof (cases "find_entry t (argv ! 1)")
  case None
  with assms show ?thesis using absent by (simp add: cmd_del_def visible_def tmap_def)
next
  case (Some e)
  obtain ex w1 where ex: "entry_is_expired (Some e) w = (ex, w1)" by fastforce
  then have w1: "only_clock w w1" using only_clock_expired [of w "Some e"] by simp
  have vis: "visible (now w) (tmap t) (argv ! 1) = (if ex then None else Some (val e))"
    using ex entry_is_expired_live [of e w] Some by (simp add: visible_def tmap_def content_def)
  obtain ok w2 where app: "append_record (del_record (argv ! 1)) w1 = (ok, w2)" by fastforce
  obtain ok' t1 where del: "hash_table_delete (argv ! 1) t = (ok', t1)" by fastforce
  with delete_correct [OF assms(1) del] Some have t1: "ok'" "wf_table t1" "tmap t1 = (tmap t)(argv ! 1 := None)"
    by (simp_all add: tmap_def)
  have cmd: "cmd_del n argv t w = (if ex then reply n ''0'' t w1
      else if \<not> ok then err n ''ERR failed to write AOF'' t w2 else reply n ''1'' t1 w2)"
    using assms(2) Some ex app del t1(1) by (simp add: cmd_del_def append_del_record)
  show ?thesis
  proof (cases "ex \<or> \<not> ok")
    case True
    then show ?thesis using absent no_file cmd assms(3) w1 app vis by (auto split: if_splits)
  next
    case False
    then show ?thesis using deleted cmd assms(3) w1 app vis t1 by simp
  qed
qed

lemma cmd_exit_cases:
  assumes "length argv = 1" "cmd_exit n argv t w = (st, r, t', w')"
  obtains (bye) "st = 1" "r = snprintf n (line ''BYE'')" "t' = t" "persistence_rewrite t w = (True, w')"
  | (failed) "st = -1" "r = snprintf n (line ''ERR failed to rewrite AOF'')" "t' = t"
      "persistence_rewrite t w = (False, w')"
  using assms by (auto simp: cmd_exit_def split: prod.splits if_splits)

subsection \<open>Every outcome\<close>

definition error_messages :: "string set" where
  "error_messages = {''ERR invalid command'', ''ERR unknown command'', ''ERR wrong number of arguments'',
     ''ERR syntax error'', ''ERR invalid expire time'', ''ERR failed to write AOF'', ''ERR failed to set key'',
     ''ERR failed to rewrite AOF''}"

text \<open>What holds of every outcome of a command on the table \<open>t\<close>.\<close>

definition outcome_ok :: "nat \<Rightarrow> hash_table \<Rightarrow> outcome \<Rightarrow> bool" where
  "outcome_ok n t out \<longleftrightarrow> (case out of (st, r, t', w') \<Rightarrow>
     wf_table t' \<and> st \<in> {-1, 0, 1} \<and> (r = [] \<or> (\<exists>s. r = snprintf n s))
     \<and> (st = -1 \<longrightarrow> tmap t' = tmap t \<and> (\<exists>m \<in> error_messages. r = snprintf n (line m))))"

lemma outcome_err: "wf_table t \<Longrightarrow> m \<in> error_messages \<Longrightarrow> outcome_ok n t (err n m t w)"
  by (auto simp: outcome_ok_def err_def)

lemma outcome_reply: "wf_table t \<Longrightarrow> outcome_ok n t (reply n m t w)"
  by (auto simp: outcome_ok_def reply_def)

lemma messages [simp]:
  "''ERR invalid command'' \<in> error_messages" "''ERR unknown command'' \<in> error_messages"
  "''ERR wrong number of arguments'' \<in> error_messages" "''ERR syntax error'' \<in> error_messages"
  "''ERR invalid expire time'' \<in> error_messages" "''ERR failed to write AOF'' \<in> error_messages"
  "''ERR failed to set key'' \<in> error_messages" "''ERR failed to rewrite AOF'' \<in> error_messages"
  by (simp_all add: error_messages_def)

lemma cmd_set_outcome:
  assumes "wf_table t"
  shows "outcome_ok n t (cmd_set n argv t w)"
proof (cases "set_request argv")
  case None
  from cmd_set_refused [OF None, of n t w] show ?thesis using outcome_err [OF assms] by auto
next
  case (Some req)
  obtain k v ex where req: "req = (k, v, ex)" by (cases req) auto
  obtain st r t' w' where c: "cmd_set n argv t w = (st, r, t', w')" by (metis prod_cases4)
  from assms Some [unfolded req] c show ?thesis
    by (cases rule: cmd_set_cases) (use assms c in \<open>auto simp: outcome_ok_def intro: bexI [rotated]\<close>)
qed

lemma cmd_get_outcome: "wf_table t \<Longrightarrow> outcome_ok n t (cmd_get n argv t w)"
  by (auto simp: cmd_get_def Let_def outcome_err outcome_reply split: option.split prod.split)

lemma cmd_ttl_outcome: "wf_table t \<Longrightarrow> outcome_ok n t (cmd_ttl n argv t w)"
  by (auto simp: cmd_ttl_def Let_def outcome_err outcome_reply split: option.split prod.split)

lemma cmd_del_outcome:
  assumes "wf_table t"
  shows "outcome_ok n t (cmd_del n argv t w)"
proof (cases "length argv = 2")
  case False
  then show ?thesis using outcome_err [OF assms] by (simp add: cmd_del_def)
next
  case True
  obtain st r t' w' where c: "cmd_del n argv t w = (st, r, t', w')" by (metis prod_cases4)
  from assms True c show ?thesis
    by (cases rule: cmd_del_cases) (use assms c in \<open>auto simp: outcome_ok_def intro: bexI [rotated]\<close>)
qed

lemma cmd_exit_outcome:
  assumes "wf_table t"
  shows "outcome_ok n t (cmd_exit n argv t w)"
proof (cases "length argv = 1")
  case False
  then show ?thesis using outcome_err [OF assms] by (simp add: cmd_exit_def)
next
  case True
  obtain st r t' w' where c: "cmd_exit n argv t w = (st, r, t', w')" by (metis prod_cases4)
  from True c show ?thesis
    by (cases rule: cmd_exit_cases) (use assms c in \<open>auto simp: outcome_ok_def intro: bexI [rotated]\<close>)
qed

lemmas command_outcomes = cmd_set_outcome cmd_get_outcome cmd_ttl_outcome cmd_del_outcome cmd_exit_outcome

lemma execute_outcome:
  assumes "wf_table t"
  shows "outcome_ok n t (command_execute t input n w)"
proof -
  have "outcome_ok n t (cmd_ping n argv t w)" for argv
    using assms by (simp add: cmd_ping_def outcome_err outcome_reply)
  moreover have "outcome_ok n t (0, [], t, w)" using assms by (simp add: outcome_ok_def)
  ultimately show ?thesis
    using assms command_outcomes outcome_err
    by (simp add: command_execute_def dispatch_def split: option.split)
qed

subsection \<open>The commands as functions on the map\<close>

text \<open>
  The reference: status, text and new map of a command at time \<open>n\<close> when nothing fails.
\<close>

fun set_error :: "cstr list \<Rightarrow> string" where
  "set_error [c, k, v, ex, sec] =
     (if map toupper ex \<noteq> ''EX'' then ''ERR syntax error'' else ''ERR invalid expire time'')"
| "set_error _ = ''ERR wrong number of arguments''"

definition spec_command ::
  "time_t \<Rightarrow> cstr list \<Rightarrow> (cstr \<rightharpoonup> cstr \<times> time_t) \<Rightarrow> int \<times> string \<times> (cstr \<rightharpoonup> cstr \<times> time_t)" where
  "spec_command n argv m =
     (let name = map toupper (hd argv); wrong = (-1, ''ERR wrong number of arguments'', m) in
      if name = ''SET'' then
        (case set_request argv of
           None \<Rightarrow> (-1, set_error argv, m)
         | Some (k, v, expiry) \<Rightarrow> (0, ''OK'', m(k \<mapsto> (v, expiry_time n expiry))))
      else if name = ''GET'' then
        (if length argv \<noteq> 2 then wrong
         else (0, case visible n m (argv ! 1) of None \<Rightarrow> ''(nil)'' | Some v \<Rightarrow> v, m))
      else if name = ''TTL'' then
        (if length argv \<noteq> 2 then wrong else (0, ttl_text n (m (argv ! 1)), m))
      else if name = ''DEL'' then
        (if length argv \<noteq> 2 then wrong
         else if visible n m (argv ! 1) = None then (0, ''0'', m) else (0, ''1'', m(argv ! 1 := None)))
      else if name = ''PING'' then (if length argv \<noteq> 1 then wrong else (0, ''PONG'', m))
      else if name = ''EXIT'' then (if length argv \<noteq> 1 then wrong else (1, ''BYE'', m))
      else (-1, ''ERR unknown command'', m))"

definition spec_execute ::
  "time_t \<Rightarrow> cstr \<Rightarrow> (cstr \<rightharpoonup> cstr \<times> time_t) \<Rightarrow> int \<times> string \<times> (cstr \<rightharpoonup> cstr \<times> time_t)" where
  "spec_execute n input m =
     (case tokens input of
        None \<Rightarrow> (-1, line ''ERR invalid command'', m)
      | Some argv \<Rightarrow>
          if length argv > max_args then (-1, line ''ERR invalid command'', m)
          else if argv = [] then (0, [], m)
          else (case spec_command n argv m of (st, text, m') \<Rightarrow> (st, line text, m')))"

text \<open>An outcome that shows the status, text and map of the reference.\<close>

definition shows_as :: "nat \<Rightarrow> outcome \<Rightarrow> int \<times> string \<times> (cstr \<rightharpoonup> cstr \<times> time_t) \<Rightarrow> bool" where
  "shows_as n out ref \<longleftrightarrow> (case (out, ref) of ((st, r, t', w'), (st', text, m)) \<Rightarrow>
     st = st' \<and> r = snprintf n text \<and> tmap t' = m)"

lemma cmd_set_error: "set_request argv = None \<Longrightarrow> cmd_set n argv t w = err n (set_error argv) t w"
proof -
  assume a: "set_request argv = None"
  have "length argv = 3 \<Longrightarrow> False" using a by (auto simp: length_3)
  then consider "length argv \<noteq> 3" "length argv \<noteq> 5" | c k v ex sec where "argv = [c, k, v, ex, sec]"
    by (metis length_5)
  then show ?thesis
  proof cases
    case 1
    then have "set_error argv = ''ERR wrong number of arguments''"
      by (cases argv rule: set_error.cases) simp_all
    with 1 show ?thesis by (simp add: cmd_set_def)
  next
    case 2
    with a show ?thesis by (auto simp: cmd_set_def split: option.splits if_splits)
  qed
qed

lemma cmd_del_result:
  assumes "wf_table t" "length argv = 2" "mem_ok w" "io_ok w"
  shows "shows_as n (cmd_del n argv t w)
    (if visible (now w) (tmap t) (argv ! 1) = None then (0, line ''0'', tmap t)
     else (0, line ''1'', (tmap t)(argv ! 1 := None)))"
proof -
  obtain st r t' w' where c: "cmd_del n argv t w = (st, r, t', w')" by (metis prod_cases4)
  from assms(1,2) c show ?thesis
  proof (cases rule: cmd_del_cases)
    case (no_file w1)
    then have "io_ok w1" using only_clock_ok assms(4) by blast
    with no_file(5) show ?thesis by (simp add: append_record_ok)
  qed (use c in \<open>auto simp: shows_as_def\<close>)
qed

lemma cmd_exit_result:
  assumes "length argv = 1" "io_ok w"
  shows "shows_as n (cmd_exit n argv t w) (1, line ''BYE'', tmap t)"
proof -
  obtain st r t' w' where c: "cmd_exit n argv t w = (st, r, t', w')" by (metis prod_cases4)
  from assms(1) c show ?thesis
    by (cases rule: cmd_exit_cases) (use c assms(2) in \<open>simp_all add: shows_as_def rewrite_ok\<close>)
qed

lemma wrong_refines: "shows_as n (err n m t w) (-1, line m, tmap t)"
  by (simp add: shows_as_def err_def)

lemma cmd_set_refines:
  assumes "wf_table t" "mem_ok w" "io_ok w" "now w = c"
  shows "shows_as n (cmd_set n argv t w) (case set_request argv of None \<Rightarrow> (-1, line (set_error argv), tmap t)
    | Some (k, v, ex) \<Rightarrow> (0, line ''OK'', (tmap t)(k \<mapsto> (v, expiry_time c ex))))"
proof (cases "set_request argv")
  case None
  then show ?thesis by (simp add: cmd_set_error wrong_refines)
next
  case (Some req)
  obtain k v ex where req: "req = (k, v, ex)" by (cases req) auto
  obtain st r t' w' where cs: "cmd_set n argv t w = (st, r, t', w')" by (metis prod_cases4)
  from cmd_set_healthy [OF assms(1) Some [unfolded req] cs assms(2,3)] Some req cs assms(4) show ?thesis
    by (simp add: shows_as_def)
qed

lemma dispatch_refines:
  assumes "wf_table t" "mem_ok w" "io_ok w" "clock w = sconst c" "0 \<le> c" "c < 2 ^ 63"
    and "\<And>k v x. tmap t k = Some (v, x) \<Longrightarrow> x < 2 ^ 63" "argv \<noteq> []"
  shows "shows_as n (dispatch (map toupper (hd argv)) n argv t w)
    (case spec_command c argv (tmap t) of (st, text, m') \<Rightarrow> (st, line text, m'))"
proof -
  have now: "now w = c" "now (snd (time_now w)) = c" using assms(4) by (simp_all add: now_def time_now_def)
  have clock: "clock_ok w" using assms(4) by (simp add: clock_ok_def)
  note defs = dispatch_def spec_command_def wrong_refines
  consider "map toupper (hd argv) = ''SET''" | "map toupper (hd argv) = ''GET''" | "map toupper (hd argv) = ''TTL''"
    | "map toupper (hd argv) = ''DEL''" | "map toupper (hd argv) = ''PING''" | "map toupper (hd argv) = ''EXIT''"
    | "map toupper (hd argv) \<notin> {''SET'', ''GET'', ''TTL'', ''DEL'', ''PING'', ''EXIT''}" by blast
  then show ?thesis
  proof cases
    case 1
    then show ?thesis using cmd_set_refines [OF assms(1-3) now(1), of n argv]
      by (auto simp: defs split: option.split option.split_asm)
  next
    case 2
    show ?thesis using cmd_get_result [of argv n t w] 2 now
      by (cases "length argv = 2") (auto simp: defs shows_as_def cmd_get_def [of n argv t w])
  next
    case 3
    then show ?thesis using cmd_ttl_result [OF _ clock, of argv t n] now assms(5-7)
      by (cases "length argv = 2") (auto simp: defs shows_as_def cmd_ttl_def [of n argv t w])
  next
    case 4
    show ?thesis using cmd_del_result [OF assms(1) _ assms(2,3), of argv n, unfolded now] 4
      by (cases "length argv = 2") (auto simp: defs cmd_del_def [of n argv t w] split: if_splits)
  next
    case 5
    then show ?thesis by (auto simp: defs cmd_ping_def shows_as_def reply_def)
  next
    case 6
    show ?thesis using cmd_exit_result [OF _ assms(3), of argv n t] 6
      by (cases "length argv = 1") (simp_all add: defs cmd_exit_def [of n argv t w])
  next
    case 7
    then show ?thesis by (simp add: defs)
  qed
qed

lemma execute_refines:
  assumes "wf_table t" "mem_ok w" "io_ok w" "clock w = sconst c" "0 \<le> c" "c < 2 ^ 63"
    and "\<And>k v x. tmap t k = Some (v, x) \<Longrightarrow> x < 2 ^ 63" "no_nul input"
  shows "shows_as n (command_execute t input n w) (spec_execute c input (tmap t))"
proof (cases "parse_command input max_args")
  case None
  then have "spec_execute c input (tmap t) = (-1, line ''ERR invalid command'', tmap t)"
    using assms(8) by (auto simp: spec_execute_def parse_command_tokens split: option.splits if_splits)
  with None show ?thesis by (simp add: command_execute_def err_def shows_as_def)
next
  case (Some argv)
  then have "tokens input = Some argv" "length argv \<le> max_args"
    using assms(8) by (auto simp: parse_command_tokens split: option.splits if_splits)
  with Some dispatch_refines [OF assms(1-7), where argv = argv and n = n] show ?thesis
    by (simp add: spec_execute_def command_execute_def shows_as_def snprintf_def)
qed

subsection \<open>Properties\<close>

text \<open>
  C25: a command that reports an error has not changed the database, whatever the allocator and the file
  system did.  The table is still well-formed and stands for the same map, and the response is one of
  eight messages: the branches \<^verbatim>\<open>failed to set expiration\<close> and \<^verbatim>\<open>failed to delete key\<close> of the code
  are never taken.
\<close>

theorem error_leaves_database:
  assumes "wf_table t" "command_execute t input n w = (-1, r, t', w')"
  shows "wf_table t' \<and> tmap t' = tmap t \<and> r \<in> (\<lambda>m. snprintf n (line m)) ` error_messages"
  using execute_outcome [OF assms(1), of n input w] assms(2) by (auto simp: outcome_ok_def)

theorem error_leaves_database_witness:
  "\<exists>r t' w'. command_execute (one_table ''a'' ''b'' 0) ''set a'' 1024 (calm 0 Map.empty) = (-1, r, t', w')
    \<and> tmap t' = [''a'' \<mapsto> (''b'', 0)]"
proof -
  have "tokens ''set a'' = Some [''set'', ''a'']" by (simp add: tokens.simps isspace_def)
  then have "parse_command ''set a'' max_args = Some [''set'', ''a'']"
    by (simp add: parse_command_tokens no_nul_def max_args_def)
  moreover have "map toupper ''set'' = ''SET''" by code_simp
  ultimately have c: "command_execute (one_table ''a'' ''b'' 0) ''set a'' 1024 (calm 0 Map.empty)
      = err 1024 ''ERR wrong number of arguments'' (one_table ''a'' ''b'' 0) (calm 0 Map.empty)"
    by (simp add: command_execute_def dispatch_def cmd_set_def)
  from error_leaves_database [OF _ c [unfolded err_def]] c show ?thesis by (auto simp: err_def)
qed

text \<open>
  C29: every command, on every input and with any failures, leaves a well-formed table, returns \<open>0\<close>, \<open>1\<close>
  or \<open>-1\<close>, and its response with the terminating NUL fits in the \<open>response_size\<close> bytes it was given.
\<close>

theorem execute_keeps_invariant:
  assumes "wf_table t" "0 < n" "command_execute t input n w = (st, r, t', w')"
  shows "wf_table t' \<and> st \<in> {-1, 0, 1} \<and> length r < n"
  using execute_outcome [OF assms(1), of n input w] assms(2,3) snprintf_bound [OF assms(2)]
  by (auto simp: outcome_ok_def)

theorem execute_keeps_invariant_witness:
  "\<exists>st r t' w'. command_execute (empty_table 8) ''get k'' 4 (calm 0 Map.empty) = (st, r, t', w') \<and> wf_table t'
    \<and> length r < 4"
proof -
  obtain st r t' w' where c: "command_execute (empty_table 8) ''get k'' 4 (calm 0 Map.empty) = (st, r, t', w')"
    by (metis prod_cases4)
  from execute_keeps_invariant [OF _ _ c] c show ?thesis by auto
qed

text \<open>
  C5: the interpreter implements the reference.  When neither the allocator nor the file system fails and
  the clock stays at \<open>c\<close> for the duration of the command, the status, the response (cut to the buffer)
  and the map of the new table are those of \<open>spec_execute\<close>, a function of the time, the line and the
  old map only: it does not depend on buckets, chains, the file or the order of earlier insertions.
\<close>

theorem execute_refines_reference:
  assumes "wf_table t" "mem_ok w" "io_ok w" "clock w = sconst c" "0 \<le> c" "c < 2 ^ 63"
    and "\<And>k v x. tmap t k = Some (v, x) \<Longrightarrow> x < 2 ^ 63" "no_nul input"
    and "command_execute t input n w = (st, r, t', w')"
  shows "case spec_execute c input (tmap t) of (st', text, m) \<Rightarrow> st = st' \<and> r = snprintf n text \<and> tmap t' = m"
  using execute_refines [OF assms(1-8), where n = n] assms(9) by (auto simp: shows_as_def)

theorem execute_refines_reference_witness:
  "\<exists>t' w'. command_execute (one_table ''a'' ''b'' 70) ''ttl a'' 1024 (calm 50 Map.empty) = (0, line ''20'', t', w')
    \<and> tmap t' = [''a'' \<mapsto> (''b'', 70)]"
proof -
  obtain st r t' w' where c:
    "command_execute (one_table ''a'' ''b'' 70) ''ttl a'' 1024 (calm 50 Map.empty) = (st, r, t', w')"
    by (metis prod_cases4)
  have "tokens ''ttl a'' = Some [''ttl'', ''a'']" by (simp add: tokens.simps isspace_def)
  moreover have "map toupper ''ttl'' = ''TTL''" by code_simp
  moreover have "show_int 20 = ''20''" by (simp add: show_int_def show_nat.simps digit_char_def char_of_def bit_0)
  ultimately have s: "spec_execute 50 ''ttl a'' [''a'' \<mapsto> (''b'', 70)] = (0, line ''20'', [''a'' \<mapsto> (''b'', 70)])"
    by (simp add: spec_execute_def spec_command_def ttl_text_def live_at_iff max_args_def)
  have "case spec_execute 50 ''ttl a'' (tmap (one_table ''a'' ''b'' 70)) of
      (st', text, m) \<Rightarrow> st = st' \<and> r = snprintf 1024 text \<and> tmap t' = m"
    by (rule execute_refines_reference [OF _ _ _ _ _ _ _ _ c]) (auto simp: no_nul_def split: if_splits)
  with s c show ?thesis by (simp add: snprintf_def line_def)
qed

lemma execute_quoted:
  assumes "\<forall>a \<in> set as. no_nul a \<and> quote \<notin> set a" "length as \<le> max_args" "as \<noteq> []"
  shows "command_execute t (quote_args as) n w = dispatch (map toupper (hd as)) n as t w"
proof -
  have "parse_command (quote_args as) max_args = Some as"
    using assms by (simp add: parse_command_tokens tokens_quote_args)
  then show ?thesis using assms(3) by (simp add: command_execute_def)
qed

lemma upper_letters [simp]:
  "toupper CHR ''S'' = CHR ''S''" "toupper CHR ''E'' = CHR ''E''" "toupper CHR ''T'' = CHR ''T''"
  "toupper CHR ''G'' = CHR ''G''" "toupper CHR ''X'' = CHR ''X''" "toupper CHR ''I'' = CHR ''I''"
  by code_simp+

text \<open>
  What SET stores, GET returns.  For a key and a value without NUL and double quote, the line
  \<^verbatim>\<open>"SET" "key" "value"\<close> is answered \<^verbatim>\<open>OK\<close> when nothing fails, and the line \<^verbatim>\<open>"GET" "key"\<close> on the
  resulting table is answered with the value, at any later time and in any environment.
\<close>

lemma set_then_get:
  assumes "wf_table t" "mem_ok w" "io_ok w" "no_nul k" "no_nul v" "quote \<notin> set k" "quote \<notin> set v"
    and "command_execute t (quote_args [''SET'', k, v]) n w = (st, r, t1, w1)"
  shows "st = 0 \<and> r = snprintf n (line ''OK'')
    \<and> (\<exists>w3. command_execute t1 (quote_args [''GET'', k]) n w2 = (0, snprintf n (line v), t1, w3))"
proof -
  have "cmd_set n [''SET'', k, v] t w = (st, r, t1, w1)"
    using assms(4-8) execute_quoted [of "[''SET'', k, v]" t n w] by (simp add: dispatch_def max_args_def)
  from cmd_set_healthy [OF assms(1) _ this assms(2,3)]
  have 1: "st = 0" "r = snprintf n (line ''OK'')" "tmap t1 = (tmap t)(k \<mapsto> (v, 0))"
    by (simp_all add: expiry_time_def)
  have "command_execute t1 (quote_args [''GET'', k]) n w2 = cmd_get n [''GET'', k] t1 w2"
    using assms(4,6) execute_quoted [of "[''GET'', k]" t1 n w2] by (simp add: dispatch_def max_args_def)
  with cmd_get_result [of "[''GET'', k]" n t1 w2] 1 show ?thesis
    by (simp add: visible_def live_at_iff)
qed

end
