(* ===== verification/TaskQueue.thy ===== *)
theory TaskQueue
  imports Command
begin

text \<open>
  The task queue of \<^verbatim>\<open>src/worker_pool.c\<close>: a singly linked list with a head and a tail pointer.

  The tasks live in a store from addresses to \<open>Task\<close> structs; \<^verbatim>\<open>malloc\<close> of a task is the argument
  \<open>block\<close> (\<open>None\<close> when it fails, otherwise an address that is not in use) and \<^verbatim>\<open>free\<close> removes the
  address.  An operation returns \<open>None\<close> when it follows a pointer that is not in the store.  The lemmas
  show that this never happens and that the pointers represent a first-in first-out list of
  addresses; the interface is the locale \<open>fifo\<close>, interpreted on the code's operations.
\<close>

type_synonym addr = nat

record task =
  client_fd :: fd
  command :: cstr
  next_task :: "addr option"

type_synonym task_store = "addr \<rightharpoonup> task"

text \<open>The fields of \<open>WorkerPool\<close> that the queue mutex protects.\<close>

record pool =
  head :: "addr option"
  tail :: "addr option"
  store :: task_store
  shutting_down :: bool

definition max_command_size :: nat where
  "max_command_size = 1024"

definition task_pop :: "pool \<Rightarrow> (addr option \<times> pool) option" where
  "task_pop p =
     (case head p of
        None \<Rightarrow> Some (None, p)
      | Some a \<Rightarrow>
          (case store p a of
             None \<Rightarrow> None
           | Some task \<Rightarrow>
               let p = p\<lparr>head := next_task task\<rparr>;
                   p = (if head p = None then p\<lparr>tail := None\<rparr> else p)
               in Some (Some a, p\<lparr>store := (store p)(a \<mapsto> task\<lparr>next_task := None\<rparr>)\<rparr>)))"

text \<open>The append at the tail, as it is in \<open>worker_pool_submit\<close>.\<close>

definition task_push :: "addr \<Rightarrow> pool \<Rightarrow> pool option" where
  "task_push a p =
     (case tail p of
        None \<Rightarrow> Some (p\<lparr>head := Some a, tail := Some a\<rparr>)
      | Some b \<Rightarrow>
          (case store p b of
             None \<Rightarrow> None
           | Some last_task \<Rightarrow>
               Some (p\<lparr>store := (store p)(b \<mapsto> last_task\<lparr>next_task := Some a\<rparr>), tail := Some a\<rparr>)))"

text \<open>\<^verbatim>\<open>strncpy\<close> of at most \<open>MAX_COMMAND_SIZE - 1\<close> bytes and the terminating NUL.\<close>

definition new_task :: "fd \<Rightarrow> cstr \<Rightarrow> task" where
  "new_task fd c = \<lparr>client_fd = fd, command = take (max_command_size - 1) c, next_task = None\<rparr>"

text \<open>The whole of \<open>worker_pool_submit\<close> but the mutex and the signal, with its \<open>NULL\<close> guards.\<close>

definition worker_pool_submit ::
  "addr option \<Rightarrow> fd \<Rightarrow> cstr option \<Rightarrow> pool option \<Rightarrow> (bool \<times> pool option) option" where
  "worker_pool_submit block fd cmd pool =
     (case (pool, cmd) of
        (Some p, Some c) \<Rightarrow>
          (case block of
             None \<Rightarrow> Some (False, Some p)
           | Some a \<Rightarrow>
               let p = p\<lparr>store := (store p)(a \<mapsto> new_task fd c)\<rparr> in
               if shutting_down p then Some (False, Some (p\<lparr>store := (store p)(a := None)\<rparr>))
               else map_option (\<lambda>p. (True, Some p)) (task_push a p))
      | _ \<Rightarrow> Some (False, pool))"

text \<open>
  The loop of \<open>worker_pool_destroy\<close> that frees what is left in the queue.  It follows pointers, so that it is
  defined as a partial function: \<open>None\<close> when it does not end or leaves the store.
\<close>

partial_function (option) free_tasks :: "addr option \<Rightarrow> task_store \<Rightarrow> task_store option" where
  "free_tasks current s =
     (case current of
        None \<Rightarrow> Some s
      | Some a \<Rightarrow>
          (case s a of
             None \<Rightarrow> None
           | Some task \<Rightarrow> free_tasks (next_task task) (s(a := None))))"

definition drop_queue :: "pool \<Rightarrow> pool option" where
  "drop_queue p =
     map_option (\<lambda>s. p\<lparr>store := s, head := None, tail := None\<rparr>) (free_tasks (head p) (store p))"

subsection \<open>The list a queue stands for\<close>

fun linked :: "task_store \<Rightarrow> addr option \<Rightarrow> addr list \<Rightarrow> bool" where
  "linked s p [] \<longleftrightarrow> p = None"
| "linked s p (a # as) \<longleftrightarrow> p = Some a \<and> (case s a of None \<Rightarrow> False | Some t \<Rightarrow> linked s (next_task t) as)"

definition queue_ok :: "pool \<Rightarrow> addr list \<Rightarrow> bool" where
  "queue_ok p as \<longleftrightarrow> linked (store p) (head p) as \<and> distinct as
     \<and> tail p = (if as = [] then None else Some (last as))"

text \<open>A cell that can be appended: initialised, and its \<open>next\<close> pointer is \<open>NULL\<close>.\<close>

definition fresh_task :: "pool \<Rightarrow> addr \<Rightarrow> bool" where
  "fresh_task p a \<longleftrightarrow> (case store p a of None \<Rightarrow> False | Some t \<Rightarrow> next_task t = None)"

text \<open>What a task says, apart from its link.\<close>

definition task_data :: "pool \<Rightarrow> addr \<Rightarrow> (fd \<times> cstr) option" where
  "task_data p a = map_option (\<lambda>t. (client_fd t, command t)) (store p a)"

lemma linked_cong: "(\<And>a. a \<in> set as \<Longrightarrow> s' a = s a) \<Longrightarrow> linked s' p as = linked s p as"
  by (induction as arbitrary: p) (auto split: option.splits)

lemma linked_dom: "linked s p as \<Longrightarrow> a \<in> set as \<Longrightarrow> s a \<noteq> None"
  by (induction as arbitrary: p) (auto split: option.splits)

lemma linked_unique: "linked s p as \<Longrightarrow> linked s p bs \<Longrightarrow> as = bs"
proof (induction as arbitrary: p bs)
  case (Cons a as)
  then show ?case by (cases bs) (auto split: option.splits)
qed (auto elim: linked.elims)

text \<open>Following the links from the last cell.\<close>

lemma linked_snoc:
  "linked s p (as @ [b]) \<Longrightarrow> distinct (as @ [b]) \<Longrightarrow> s b = Some t \<Longrightarrow> a \<notin> set (as @ [b]) \<Longrightarrow>
   s a = Some u \<Longrightarrow> next_task u = None \<Longrightarrow>
   linked (s(b \<mapsto> t\<lparr>next_task := Some a\<rparr>)) p (as @ [b, a])"
  by (induction as arbitrary: p) (auto split: option.splits)

lemma queue_ok_Nil: "queue_ok p [] \<longleftrightarrow> head p = None \<and> tail p = None"
  by (simp add: queue_ok_def)

lemma queue_ok_head: "queue_ok p as \<Longrightarrow> head p = None \<longleftrightarrow> as = []"
  by (cases as) (auto simp: queue_ok_def)

lemma queue_ok_unique: "queue_ok p as \<Longrightarrow> queue_ok p bs \<Longrightarrow> as = bs"
  using linked_unique by (auto simp: queue_ok_def)

lemma queue_ok_dom: "queue_ok p as \<Longrightarrow> a \<in> set as \<Longrightarrow> store p a \<noteq> None"
  using linked_dom by (auto simp: queue_ok_def)

lemma pop_empty_queue: "queue_ok p [] \<Longrightarrow> task_pop p = Some (None, p)"
  by (simp add: queue_ok_Nil task_pop_def)

lemma pop_first:
  assumes "queue_ok p (a # as)"
  shows "\<exists>p'. task_pop p = Some (Some a, p') \<and> queue_ok p' as"
proof -
  from assms obtain t where t: "head p = Some a" "store p a = Some t" "linked (store p) (next_task t) as"
    "a \<notin> set as" "distinct as" "tail p = (if as = [] then Some a else Some (last as))"
    by (auto simp: queue_ok_def split: option.splits)
  define p' where "p' = p\<lparr>head := next_task t, tail := (if next_task t = None then None else tail p),
    store := (store p)(a \<mapsto> t\<lparr>next_task := None\<rparr>)\<rparr>"
  have "task_pop p = Some (Some a, p')" using t by (simp add: task_pop_def p'_def Let_def)
  moreover have "linked (store p') (next_task t) as"
  proof -
    have "linked (store p') (next_task t) as = linked (store p) (next_task t) as"
      by (rule linked_cong) (use t(4) in \<open>auto simp: p'_def\<close>)
    with t(3) show ?thesis by simp
  qed
  moreover have "next_task t = None \<longleftrightarrow> as = []" using t(3) by (cases as) auto
  ultimately show ?thesis using t by (auto simp: queue_ok_def p'_def)
qed

lemma push_last:
  assumes "queue_ok p as" "fresh_task p a" "a \<notin> set as"
  shows "\<exists>p'. task_push a p = Some p' \<and> queue_ok p' (as @ [a])"
proof (cases as rule: rev_cases)
  case Nil
  with assms show ?thesis
    by (auto simp: task_push_def queue_ok_def fresh_task_def split: option.splits)
next
  case (snoc bs b)
  from assms(1) snoc obtain t where t: "store p b = Some t" "linked (store p) (head p) (bs @ [b])"
    "distinct (bs @ [b])" "tail p = Some b"
    using queue_ok_dom [OF assms(1), of b] by (auto simp: queue_ok_def)
  obtain u where u: "store p a = Some u" "next_task u = None"
    using assms(2) by (auto simp: fresh_task_def split: option.splits)
  have "linked ((store p)(b \<mapsto> t\<lparr>next_task := Some a\<rparr>)) (head p) (bs @ [b, a])"
    using linked_snoc [OF t(2,3,1) _ u] assms(3) snoc by simp
  with t assms(3) snoc show ?thesis by (auto simp: task_push_def queue_ok_def)
qed

text \<open>The links of a cell change, never what it says; no cell appears or disappears.\<close>

lemma pop_data: "task_pop p = Some (r, p') \<Longrightarrow> task_data p' = task_data p \<and> shutting_down p' = shutting_down p"
  by (auto simp: task_pop_def task_data_def Let_def fun_eq_iff split: option.splits if_splits)

lemma push_data: "task_push a p = Some p' \<Longrightarrow> task_data p' = task_data p \<and> shutting_down p' = shutting_down p"
  by (auto simp: task_push_def task_data_def fun_eq_iff split: option.splits)

lemma task_data_dom: "task_data p a = None \<longleftrightarrow> store p a = None"
  by (simp add: task_data_def)

text \<open>Changing cells outside the queue does not matter.\<close>

lemma queue_ok_store:
  assumes "queue_ok p as" "\<And>a. a \<in> set as \<Longrightarrow> s a = store p a"
  shows "queue_ok (p\<lparr>store := s\<rparr>) as"
proof -
  have "linked s (head p) as = linked (store p) (head p) as" using assms(2) by (rule linked_cong)
  with assms(1) show ?thesis by (simp add: queue_ok_def)
qed

subsection \<open>First in, first out\<close>

text \<open>
  The contract of a queue on which the worker pool relies: \<open>rep q xs\<close> says that the queue \<open>q\<close> holds the list
  \<open>xs\<close>, \<open>new q a\<close> that \<open>a\<close> can be appended.  The client submits and takes in any order.
\<close>

datatype 'a queue_op = Submit 'a | Take

locale fifo =
  fixes rep :: "'q \<Rightarrow> 'a list \<Rightarrow> bool"
    and new :: "'q \<Rightarrow> 'a \<Rightarrow> bool"
    and push :: "'a \<Rightarrow> 'q \<Rightarrow> 'q option"
    and pop :: "'q \<Rightarrow> ('a option \<times> 'q) option"
  assumes push_law: "rep q xs \<Longrightarrow> new q a \<Longrightarrow> a \<notin> set xs \<Longrightarrow> \<exists>q'. push a q = Some q' \<and> rep q' (xs @ [a])"
    and pop_law: "rep q (x # xs) \<Longrightarrow> \<exists>q'. pop q = Some (Some x, q') \<and> rep q' xs"
    and pop_nil: "rep q [] \<Longrightarrow> pop q = Some (None, q)"
    and new_push: "new q b \<Longrightarrow> b \<noteq> a \<Longrightarrow> rep q xs \<Longrightarrow> b \<notin> set xs \<Longrightarrow> push a q = Some q' \<Longrightarrow> new q' b"
    and new_pop: "new q b \<Longrightarrow> pop q = Some (r, q') \<Longrightarrow> new q' b"
begin

text \<open>The taken elements, in the order they were taken.\<close>

fun client :: "'a queue_op list \<Rightarrow> 'q \<Rightarrow> ('a list \<times> 'q) option" where
  "client [] q = Some ([], q)"
| "client (Submit a # ops) q = (case push a q of None \<Rightarrow> None | Some q \<Rightarrow> client ops q)"
| "client (Take # ops) q =
     (case pop q of
        None \<Rightarrow> None
      | Some (r, q) \<Rightarrow> map_option (\<lambda>(out, q). ((case r of None \<Rightarrow> [] | Some a \<Rightarrow> [a]) @ out, q)) (client ops q))"

fun submitted :: "'a queue_op list \<Rightarrow> 'a list" where
  "submitted [] = []"
| "submitted (Submit a # ops) = a # submitted ops"
| "submitted (Take # ops) = submitted ops"

lemma client_fifo:
  "rep q xs \<Longrightarrow> distinct (xs @ submitted ops) \<Longrightarrow> \<forall>a \<in> set (submitted ops). new q a \<Longrightarrow>
   \<exists>out q' rest. client ops q = Some (out, q') \<and> rep q' rest \<and> out @ rest = xs @ submitted ops"
proof (induction ops arbitrary: q xs)
  case (Cons op ops)
  show ?case
  proof (cases op)
    case (Submit a)
    with Cons.prems have a: "new q a" "a \<notin> set xs" by auto
    from push_law [OF Cons.prems(1) a] obtain q1 where q1: "push a q = Some q1" "rep q1 (xs @ [a])" by blast
    have "\<forall>b \<in> set (submitted ops). new q1 b"
      using Cons.prems Submit new_push [OF _ _ Cons.prems(1) _ q1(1)] by auto
    with Cons.IH [OF q1(2)] Cons.prems(2) Submit q1(1) show ?thesis by auto
  next
    case Take
    show ?thesis
    proof (cases xs)
      case Nil
      with Take Cons pop_nil [of q] show ?thesis by fastforce
    next
      case (Cons x ys)
      from pop_law Cons.prems(1) Cons obtain q1 where q1: "pop q = Some (Some x, q1)" "rep q1 ys" by blast
      have "\<forall>b \<in> set (submitted ops). new q1 b" using Cons.prems(3) Take new_pop [OF _ q1(1)] by auto
      with Cons.IH [OF q1(2)] Cons.prems(2) Take q1(1) Cons show ?thesis by fastforce
    qed
  qed
qed fastforce

end

interpretation tq: fifo queue_ok fresh_task task_push task_pop
proof unfold_locales
  fix q xs a b q'
  assume "fresh_task q b" "b \<noteq> a" "queue_ok q xs" "b \<notin> set xs" "task_push a q = Some q'"
  moreover from this have "tail q \<noteq> Some b" by (auto simp: queue_ok_def split: if_splits)
  ultimately show "fresh_task q' b"
    by (auto simp: task_push_def fresh_task_def split: option.splits)
next
  fix q b r q'
  assume "fresh_task q b" "task_pop q = Some (r, q')"
  then show "fresh_task q' b"
    by (auto simp: task_pop_def fresh_task_def Let_def split: option.splits if_splits)
qed (use pop_empty_queue pop_first push_last in auto)

subsection \<open>Submitting and dropping\<close>

lemma submit_accepts:
  assumes "queue_ok p as" "store p a = None" "\<not> shutting_down p"
  shows "\<exists>p'. worker_pool_submit (Some a) fd (Some c) (Some p) = Some (True, Some p') \<and> queue_ok p' (as @ [a])
    \<and> task_data p' = (task_data p)(a \<mapsto> (fd, take (max_command_size - 1) c)) \<and> \<not> shutting_down p'"
proof -
  let ?p = "p\<lparr>store := (store p)(a \<mapsto> new_task fd c)\<rparr>"
  have a: "a \<notin> set as" using queue_ok_dom [OF assms(1)] assms(2) by blast
  then have "queue_ok ?p as" using assms(1) by (intro queue_ok_store) auto
  moreover have "fresh_task ?p a" by (simp add: fresh_task_def new_task_def)
  ultimately obtain p' where p': "task_push a ?p = Some p'" "queue_ok p' (as @ [a])" using tq.push_law a by blast
  have "task_data ?p = (task_data p)(a \<mapsto> (fd, take (max_command_size - 1) c))"
    by (simp add: task_data_def new_task_def fun_eq_iff)
  with push_data [OF p'(1)] p' assms(3) show ?thesis by (simp add: worker_pool_submit_def)
qed

lemma submit_refused:
  assumes "store p a = None" "shutting_down p"
  shows "worker_pool_submit (Some a) fd (Some c) (Some p) = Some (False, Some p)"
  using assms by (cases p) (simp add: worker_pool_submit_def fun_upd_idem)

lemma free_tasks_linked:
  "linked s p as \<Longrightarrow> distinct as \<Longrightarrow> free_tasks p s = Some (s |` (- set as))"
proof (induction as arbitrary: s p)
  case Nil
  then show ?case by (simp add: free_tasks.simps)
next
  case (Cons a as)
  then obtain t where t: "p = Some a" "s a = Some t" "linked s (next_task t) as" by (auto split: option.splits)
  define s' where "s' = s(a := None)"
  have "linked s' (next_task t) as = linked s (next_task t) as"
    by (rule linked_cong) (use Cons.prems(2) in \<open>auto simp: s'_def\<close>)
  then have "free_tasks (next_task t) s' = Some (s' |` (- set as))"
    using Cons.IH [of s' "next_task t"] Cons.prems(2) t(3) by simp
  moreover have "s' |` (- set as) = s |` (- set (a # as))" by (auto simp: s'_def restrict_map_def)
  ultimately have "free_tasks (next_task t) (s(a := None)) = Some (s |` (- set (a # as)))" by (simp only: s'_def)
  with t(1,2) show ?case by (subst free_tasks.simps) simp
qed

subsection \<open>Properties\<close>

text \<open>
  C27: the queue is first-in first-out.  On a queue whose pointers represent the list \<open>as\<close>, any sequence of
  appends of distinct new tasks and of \<open>task_pop\<close>s succeeds without following a bad pointer, and the
  tasks that were taken, followed by those that are still in the queue, are the old and the appended
  ones in the order of their submission.
\<close>

theorem task_queue_fifo:
  assumes "queue_ok p as" "distinct (as @ tq.submitted ops)" "\<forall>a \<in> set (tq.submitted ops). fresh_task p a"
  shows "\<exists>out p' rest. tq.client ops p = Some (out, p') \<and> queue_ok p' rest \<and> out @ rest = as @ tq.submitted ops"
  using assms by (rule tq.client_fifo)

definition idle_pool :: pool where
  "idle_pool = \<lparr>head = None, tail = None, store = Map.empty, shutting_down = False\<rparr>"

lemma idle_pool_ok [simp]: "queue_ok idle_pool []" "store idle_pool = Map.empty" "\<not> shutting_down idle_pool"
  by (simp_all add: queue_ok_Nil idle_pool_def)

theorem task_queue_fifo_witness:
  "\<exists>p'. tq.client [Submit 1, Submit 2, Take, Take, Take]
      (idle_pool\<lparr>store := [1 \<mapsto> new_task 7 ''get a'', 2 \<mapsto> new_task 8 ''get b'']\<rparr>) = Some ([1, 2], p')
    \<and> queue_ok p' []"
proof -
  let ?p = "idle_pool\<lparr>store := [1 \<mapsto> new_task 7 ''get a'', 2 \<mapsto> new_task 8 ''get b'']\<rparr>"
  let ?ops = "[Submit 1, Submit 2, Take, Take, Take]"
  have q: "queue_ok ?p []" by (simp add: queue_ok_Nil idle_pool_def)
  have r: "tq.client ?ops ?p \<noteq> None \<Longrightarrow> fst (the (tq.client ?ops ?p)) = [1, 2]"
    by (simp add: task_push_def task_pop_def idle_pool_def new_task_def Let_def)
  from task_queue_fifo [OF q, of ?ops] obtain out p' rest where
    c: "tq.client ?ops ?p = Some (out, p')" "queue_ok p' rest" "out @ rest = [1, 2]"
    by (auto simp: fresh_task_def new_task_def)
  with r have "out = [1, 2]" by simp
  with c show ?thesis by auto
qed

text \<open>
  \<open>worker_pool_submit\<close> puts the task last.  With a block from \<^verbatim>\<open>malloc\<close> and unless the pool is
  shutting down, it succeeds: the queue holds the old tasks and then the new one, which carries the
  client and the first 1023 bytes of the command; no other task changes.  During shutdown, or
  without memory, it reports failure and the pool is exactly as before.
\<close>

lemma submit_appends:
  assumes "queue_ok p as" "\<forall>a. block = Some a \<longrightarrow> store p a = None"
  shows "if block = None \<or> shutting_down p
    then worker_pool_submit block fd (Some c) (Some p) = Some (False, Some p)
    else \<exists>p'. worker_pool_submit block fd (Some c) (Some p) = Some (True, Some p')
      \<and> queue_ok p' (as @ [the block]) \<and> task_data p' = (task_data p)(the block \<mapsto> (fd, take 1023 c))"
proof (cases block)
  case None
  then show ?thesis by (simp add: worker_pool_submit_def)
next
  case (Some a)
  then show ?thesis
    using submit_refused [of p a fd c] submit_accepts [OF assms(1), of a fd c] assms(2)
    by (auto simp: max_command_size_def)
qed

text \<open>
  The shutdown loop frees every queued task once.  It ends, follows no bad pointer, and afterwards the
  queue is empty and the store holds exactly the cells that were not in the queue.
\<close>

lemma drop_queue_frees_all:
  assumes "queue_ok p as"
  shows "\<exists>p'. drop_queue p = Some p' \<and> queue_ok p' [] \<and> store p' = store p |` (- set as)"
proof -
  have "free_tasks (head p) (store p) = Some (store p |` (- set as))"
    by (rule free_tasks_linked) (use assms in \<open>auto simp: queue_ok_def\<close>)
  then show ?thesis by (simp add: drop_queue_def queue_ok_Nil)
qed

end
