(* ===== verification/WorkerPool.thy ===== *)
theory WorkerPool
  imports TaskQueue
begin

text \<open>
  The worker threads of \<^verbatim>\<open>src/worker_pool.c\<close> as a transition system.

  A state holds the queue, the owner of the queue mutex, the holders of the read/write lock and, for
  each of the four workers, the point of \<open>worker_main\<close> it has reached.  A step is one action of one
  worker (\<open>worker_step\<close>), a submission, a spurious wake-up or the start of the shutdown, in any order.
  A command is not atomic: it begins on the table it finds (its effects on the file and the clock
  happen then) and writes the resulting table back in a later step, so that without the lock an
  update could be lost.  The last three fields of the state only record what happened; \<open>sent\<close> are the calls
  of \<^verbatim>\<open>send\<close>, whose result the code ignores, and \<open>notify_pipe\<close> is everything written to the pipe.

  The lemmas here are the invariants of single steps: who holds which lock, who owns which task, and that
  no wake-up is lost.
\<close>

definition worker_count :: nat where
  "worker_count = 4"

subsection \<open>Reads and writes\<close>

definition is_read_command :: "cstr \<Rightarrow> bool" where
  "is_read_command cmd =
     (let c = dropWhile isspace cmd in
      if strncasecmp_eq c ''get'' 3 then (drop 3 c = [] \<or> isspace (hd (drop 3 c)))
      else if strncasecmp_eq c ''ttl'' 3 then (drop 3 c = [] \<or> isspace (hd (drop 3 c)))
      else False)"

text \<open>The index of the calling thread in \<open>workers\<close>, or \<open>-1\<close>.\<close>

fun get_worker_id_from :: "int \<Rightarrow> 'thread \<Rightarrow> 'thread list \<Rightarrow> int" where
  "get_worker_id_from i self [] = -1"
| "get_worker_id_from i self (w # ws) = (if self = w then i else get_worker_id_from (i + 1) self ws)"

definition get_worker_id :: "'thread \<Rightarrow> 'thread list \<Rightarrow> int" where
  "get_worker_id self workers = get_worker_id_from 0 self (take worker_count workers)"

lemma toupper_tolower: "toupper (tolower c) = toupper c"
proof (cases "(of_char c :: nat) \<in> {65..90}")
  case True
  then have "(of_char (tolower c) :: nat) = of_char c + 32" by (simp add: tolower_def)
  with True show ?thesis by (simp add: toupper_def)
next
  case False
  then have "tolower c = c" by (auto simp: tolower_def)
  then show ?thesis by simp
qed

lemma map_tolower_upper: "map tolower s = map tolower t \<Longrightarrow> map toupper s = map toupper t"
  using toupper_tolower by (metis (no_types, lifting) list.map_comp list.map_cong0 comp_apply)

lemma tolower_space: "isspace (tolower c) = isspace c"
proof (cases "(of_char c :: nat) \<in> {65..90}")
  case True
  then have "(of_char (tolower c) :: nat) = of_char c + 32" by (simp add: tolower_def)
  moreover have "\<not> isspace c" using True by (auto simp: isspace_def)
  ultimately show ?thesis using True by (auto simp: isspace_def)
next
  case False
  then have "tolower c = c" by (auto simp: tolower_def)
  then show ?thesis by simp
qed

text \<open>The first argument of a line that begins with a word of three letters.\<close>

lemma first_token:
  assumes "d = dropWhile isspace cmd" "strncasecmp_eq d w 3" "length w = 3"
    and "\<forall>c \<in> set w. \<not> isspace c \<and> tolower c \<noteq> quote"
    and "drop 3 d = [] \<or> isspace (hd (drop 3 d))" "tokens cmd = Some ts"
  shows "\<exists>as. ts = take 3 d # as \<and> map toupper (take 3 d) = map toupper w"
proof -
  have low: "map tolower (take 3 d) = map tolower w" using assms(2,3) by (simp add: strncasecmp_eq_def)
  have word: "\<not> isspace c \<and> c \<noteq> quote" if "c \<in> set (take 3 d)" for c
  proof -
    from that have "tolower c \<in> set (map tolower w)" unfolding low [symmetric] by simp
    then obtain x where x: "x \<in> set w" "tolower c = tolower x" by auto
    have "tolower quote = quote" by (simp add: tolower_def)
    then show ?thesis using assms(4) x tolower_space by metis
  qed
  have "take 3 d \<noteq> []" using low assms(3) by (cases "take 3 d") auto
  then obtain c cs where d: "d = c # cs" by (cases d) auto
  have c: "\<not> isspace c" "c \<noteq> quote" using word [of c] d by simp_all
  have "takeWhile (\<lambda>e. \<not> isspace e) (take 3 d @ drop 3 d) = take 3 d"
    by (rule takeWhile_stop) (use word assms(5) in auto)
  then have first: "c # takeWhile (\<lambda>e. \<not> isspace e) cs = take 3 d" using d c(1) by simp
  have cmd: "cmd = takeWhile isspace cmd @ c # cs" using assms(1) d by (metis takeWhile_dropWhile_id)
  have ws: "\<forall>e \<in> set (takeWhile isspace cmd). isspace e" by (auto dest: set_takeWhileD)
  have "tokens cmd = map_option (Cons (take 3 d)) (tokens (dropWhile (\<lambda>e. \<not> isspace e) cs))"
    using tokens_unfold [OF ws c(1), of cs] c(2) first cmd by simp
  with assms(6) map_tolower_upper [OF low] show ?thesis by auto
qed

lemma read_names:
  assumes "is_read_command cmd" "tokens cmd = Some ts"
  shows "\<exists>a as. ts = a # as \<and> (map toupper a = ''GET'' \<or> map toupper a = ''TTL'')"
proof -
  let ?d = "dropWhile isspace cmd"
  have end_ok: "drop 3 ?d = [] \<or> isspace (hd (drop 3 ?d))"
    using assms(1) by (auto simp: is_read_command_def Let_def split: if_splits)
  consider "strncasecmp_eq ?d ''get'' 3" | "strncasecmp_eq ?d ''ttl'' 3"
    using assms(1) by (auto simp: is_read_command_def Let_def split: if_splits)
  then show ?thesis
  proof cases
    case 1
    have "\<forall>c \<in> set ''get''. \<not> isspace c \<and> tolower c \<noteq> quote" by (simp add: isspace_def tolower_def)
    moreover have "map toupper ''get'' = ''GET''" by code_simp
    ultimately show ?thesis using first_token [OF refl 1 _ _ end_ok assms(2)] by auto
  next
    case 2
    have "\<forall>c \<in> set ''ttl''. \<not> isspace c \<and> tolower c \<noteq> quote" by (simp add: isspace_def tolower_def)
    moreover have "map toupper ''ttl'' = ''TTL''" by code_simp
    ultimately show ?thesis using first_token [OF refl 2 _ _ end_ok assms(2)] by auto
  qed
qed

text \<open>A command that is executed under the read lock only reads.\<close>

lemma read_command_reads:
  assumes "is_read_command cmd" "no_nul cmd" "command_execute t cmd n w = (st, r, t', w')"
  shows "t' = t \<and> only_clock w w'"
proof (cases "parse_command cmd max_args")
  case None
  with assms(3) show ?thesis by (auto simp: command_execute_def)
next
  case (Some argv)
  then have "tokens cmd = Some argv"
    using assms(2) by (auto simp: parse_command_tokens split: option.splits if_splits)
  from read_names [OF assms(1) this] obtain a as where
    argv: "argv = a # as \<and> (map toupper a = ''GET'' \<or> map toupper a = ''TTL'')" by (elim exE)
  have "dispatch (map toupper a) n argv t w = (st, r, t', w')"
    using assms(3) Some argv by (simp add: command_execute_def)
  then consider "cmd_get n argv t w = (st, r, t', w')" | "cmd_ttl n argv t w = (st, r, t', w')"
    using argv unfolding dispatch_def by fastforce
  then show ?thesis by cases (auto dest: cmd_get_frame cmd_ttl_frame)
qed

subsection \<open>The states of the pool\<close>

text \<open>
  The points of the loop of \<open>worker_main\<close>: before the lock of the queue mutex; with the mutex, at the
  condition of the inner loop; inside \<^verbatim>\<open>pthread_cond_wait\<close>; woken and about to lock the mutex again;
  with a task; with the database lock (the flag says whether for writing); inside
  \<open>command_execute\<close>, with the status, the response and the table it will leave; after the unlock, before
  \<^verbatim>\<open>send\<close>; before the notification and the \<^verbatim>\<open>free\<close>; returned.
\<close>

datatype work =
    Idle
  | Checking
  | Sleeping
  | Woken
  | Loaded addr
  | Locked bool addr
  | Running bool addr int cstr hash_table
  | Replying addr int cstr
  | Closing addr int
  | Exited

record state =
  queue :: pool
  mutex :: "nat option"
  readers :: "nat set"
  writer :: "nat option"
  work :: "nat \<Rightarrow> work"
  db :: hash_table
  env :: world
  sent :: "(fd \<times> cstr) list"
  notify_pipe :: "fd list"
  accepted :: "(fd \<times> cstr) list"
  taken :: "(fd \<times> cstr) list"
  executed :: "(fd \<times> cstr \<times> int \<times> cstr) list"

text \<open>An action of a worker: it is blocked, it follows a bad pointer, or it reaches a state.\<close>

datatype 'a action = Blocked | Undefined | Next 'a

abbreviation at :: "nat \<Rightarrow> work \<Rightarrow> state \<Rightarrow> state" where
  "at i w s \<equiv> s\<lparr>work := (work s)(i := w)\<rparr>"

definition lock_mutex :: "nat \<Rightarrow> state \<Rightarrow> state action" where
  "lock_mutex i s = (if mutex s = None then Next (at i Checking (s\<lparr>mutex := Some i\<rparr>)) else Blocked)"

text \<open>With the mutex: wait, leave, or take a task and unlock.\<close>

definition take_task :: "nat \<Rightarrow> state \<Rightarrow> state action" where
  "take_task i s =
     (if head (queue s) = None \<and> \<not> shutting_down (queue s) then Next (at i Sleeping (s\<lparr>mutex := None\<rparr>))
      else if head (queue s) = None \<and> shutting_down (queue s) then Next (at i Exited (s\<lparr>mutex := None\<rparr>))
      else
        (case task_pop (queue s) of
           None \<Rightarrow> Undefined
         | Some (None, p) \<Rightarrow> Next (at i Idle (s\<lparr>queue := p, mutex := None\<rparr>))
         | Some (Some a, p) \<Rightarrow>
             Next (at i (Loaded a) (s\<lparr>queue := p, mutex := None,
               taken := taken s @ (case task_data p a of None \<Rightarrow> [] | Some d \<Rightarrow> [d])\<rparr>))))"

definition lock_db :: "nat \<Rightarrow> addr \<Rightarrow> state \<Rightarrow> state action" where
  "lock_db i a s =
     (case task_data (queue s) a of
        None \<Rightarrow> Undefined
      | Some (fd, cmd) \<Rightarrow>
          if is_read_command cmd then
            (if writer s = None then Next (at i (Locked False a) (s\<lparr>readers := insert i (readers s)\<rparr>)) else Blocked)
          else
            (if writer s = None \<and> readers s = {} then Next (at i (Locked True a) (s\<lparr>writer := Some i\<rparr>)) else Blocked))"

definition begin_command :: "nat \<Rightarrow> bool \<Rightarrow> addr \<Rightarrow> state \<Rightarrow> state action" where
  "begin_command i wr a s =
     (case task_data (queue s) a of
        None \<Rightarrow> Undefined
      | Some (fd, cmd) \<Rightarrow>
          (case command_execute (db s) cmd max_command_size (env s) of
             (result, response, t, w) \<Rightarrow>
               Next (at i (Running wr a result response t)
                 (s\<lparr>env := w, executed := executed s @ [(fd, cmd, result, response)]\<rparr>))))"

definition end_command :: "nat \<Rightarrow> bool \<Rightarrow> addr \<Rightarrow> int \<Rightarrow> cstr \<Rightarrow> hash_table \<Rightarrow> state \<Rightarrow> state action" where
  "end_command i wr a result response t s =
     Next (at i (Replying a result response)
       (if wr then s\<lparr>db := t, writer := None\<rparr> else s\<lparr>db := t, readers := readers s - {i}\<rparr>))"

definition send_reply :: "nat \<Rightarrow> addr \<Rightarrow> int \<Rightarrow> cstr \<Rightarrow> state \<Rightarrow> state action" where
  "send_reply i a result response s =
     (case task_data (queue s) a of
        None \<Rightarrow> Undefined
      | Some (fd, cmd) \<Rightarrow>
          Next (at i (Closing a result) (if response \<noteq> [] then s\<lparr>sent := sent s @ [(fd, response)]\<rparr> else s)))"

definition finish_task :: "nat \<Rightarrow> addr \<Rightarrow> int \<Rightarrow> state \<Rightarrow> state action" where
  "finish_task i a result s =
     (case task_data (queue s) a of
        None \<Rightarrow> Undefined
      | Some (fd, cmd) \<Rightarrow>
          Next (at i Idle (s\<lparr>notify_pipe := (if result = 1 then notify_pipe s @ [fd] else notify_pipe s),
            queue := (queue s)\<lparr>store := (store (queue s))(a := None)\<rparr>\<rparr>)))"

definition worker_step :: "nat \<Rightarrow> state \<Rightarrow> state action" where
  "worker_step i s =
     (case work s i of
        Idle \<Rightarrow> lock_mutex i s
      | Woken \<Rightarrow> lock_mutex i s
      | Checking \<Rightarrow> take_task i s
      | Sleeping \<Rightarrow> Blocked
      | Loaded a \<Rightarrow> lock_db i a s
      | Locked wr a \<Rightarrow> begin_command i wr a s
      | Running wr a result response t \<Rightarrow> end_command i wr a result response t s
      | Replying a result response \<Rightarrow> send_reply i a result response s
      | Closing a result \<Rightarrow> finish_task i a result s
      | Exited \<Rightarrow> Blocked)"

text \<open>
  \<^verbatim>\<open>pthread_cond_signal\<close> wakes one sleeping worker, the scheduler chooses which; without a sleeping
  worker it does nothing.
\<close>

definition may_wake :: "nat option \<Rightarrow> state \<Rightarrow> bool" where
  "may_wake wake s \<longleftrightarrow> (case wake of
      None \<Rightarrow> (\<forall>i < worker_count. work s i \<noteq> Sleeping)
    | Some i \<Rightarrow> i < worker_count \<and> work s i = Sleeping)"

definition signal :: "nat option \<Rightarrow> state \<Rightarrow> state" where
  "signal wake s = (case wake of None \<Rightarrow> s | Some i \<Rightarrow> at i Woken s)"

definition broadcast :: "state \<Rightarrow> state" where
  "broadcast s = s\<lparr>work := (\<lambda>i. if i < worker_count \<and> work s i = Sleeping then Woken else work s i)\<rparr>"

text \<open>The critical section of the submission, with the mutex free: refused, or queued and signalled.\<close>

definition submit_step :: "addr option \<Rightarrow> fd \<Rightarrow> cstr \<Rightarrow> nat option \<Rightarrow> state \<Rightarrow> state action" where
  "submit_step block fd c wake s =
     (if mutex s \<noteq> None then Blocked
      else
        (case worker_pool_submit block fd (Some c) (Some (queue s)) of
           Some (True, Some p) \<Rightarrow>
             Next (signal wake (s\<lparr>queue := p, accepted := accepted s @ [(fd, take (max_command_size - 1) c)]\<rparr>))
         | Some (False, Some p) \<Rightarrow> Next (s\<lparr>queue := p\<rparr>)
         | _ \<Rightarrow> Undefined))"

text \<open>The first critical section of \<open>worker_pool_destroy\<close>.\<close>

definition shutdown_step :: "state \<Rightarrow> state action" where
  "shutdown_step s =
     (if mutex s \<noteq> None then Blocked
      else Next (broadcast (s\<lparr>queue := (queue s)\<lparr>shutting_down := True\<rparr>\<rparr>)))"

inductive step :: "state \<Rightarrow> state \<Rightarrow> bool" where
  worker: "i < worker_count \<Longrightarrow> worker_step i s = Next s' \<Longrightarrow> step s s'"
| spurious: "i < worker_count \<Longrightarrow> work s i = Sleeping \<Longrightarrow> step s (at i Woken s)"
| submit: "\<forall>a. block = Some a \<longrightarrow> store (queue s) a = None \<Longrightarrow> may_wake wake s \<Longrightarrow> no_nul c \<Longrightarrow>
    submit_step block fd c wake s = Next s' \<Longrightarrow> step s s'"
| shutdown: "shutdown_step s = Next s' \<Longrightarrow> step s s'"

text \<open>After \<open>worker_pool_init\<close>: nothing is queued and the threads are at the top of their loop.\<close>

definition start_state :: "hash_table \<Rightarrow> world \<Rightarrow> state" where
  "start_state t w =
     \<lparr>queue = \<lparr>head = None, tail = None, store = Map.empty, shutting_down = False\<rparr>, mutex = None,
      readers = {}, writer = None, work = (\<lambda>_. Idle), db = t, env = w, sent = [], notify_pipe = [],
      accepted = [], taken = [], executed = []\<rparr>"

inductive reachable :: "hash_table \<Rightarrow> world \<Rightarrow> state \<Rightarrow> bool" for t0 :: hash_table and w0 :: world where
  start: "reachable t0 w0 (start_state t0 w0)"
| more: "reachable t0 w0 s \<Longrightarrow> step s s' \<Longrightarrow> reachable t0 w0 s'"

subsection \<open>What a worker can do\<close>

lemma pop_some: "task_pop p = Some (r, p') \<Longrightarrow> r = head p"
  by (auto simp: task_pop_def Let_def split: option.splits)

lemma worker_step_cases:
  assumes "worker_step i s = Next s'"
  obtains (lock) "work s i = Idle \<or> work s i = Woken" "mutex s = None" "s' = at i Checking (s\<lparr>mutex := Some i\<rparr>)"
  | (wait) "work s i = Checking" "head (queue s) = None" "\<not> shutting_down (queue s)"
      "s' = at i Sleeping (s\<lparr>mutex := None\<rparr>)"
  | (leave) "work s i = Checking" "head (queue s) = None" "shutting_down (queue s)"
      "s' = at i Exited (s\<lparr>mutex := None\<rparr>)"
  | (pop) a p where "work s i = Checking" "task_pop (queue s) = Some (Some a, p)" "head (queue s) = Some a"
      "s' = at i (Loaded a) (s\<lparr>queue := p, mutex := None,
         taken := taken s @ (case task_data p a of None \<Rightarrow> [] | Some d \<Rightarrow> [d])\<rparr>)"
  | (acquire) a fd cmd wr where "work s i = Loaded a" "task_data (queue s) a = Some (fd, cmd)"
      "wr \<longleftrightarrow> \<not> is_read_command cmd" "writer s = None" "wr \<longrightarrow> readers s = {}"
      "s' = at i (Locked wr a) (if wr then s\<lparr>writer := Some i\<rparr> else s\<lparr>readers := insert i (readers s)\<rparr>)"
  | (begins) a fd cmd wr result response t w where "work s i = Locked wr a"
      "task_data (queue s) a = Some (fd, cmd)"
      "command_execute (db s) cmd max_command_size (env s) = (result, response, t, w)"
      "s' = at i (Running wr a result response t) (s\<lparr>env := w, executed := executed s @ [(fd, cmd, result, response)]\<rparr>)"
  | (ends) a wr result response t where "work s i = Running wr a result response t"
      "s' = at i (Replying a result response)
         (if wr then s\<lparr>db := t, writer := None\<rparr> else s\<lparr>db := t, readers := readers s - {i}\<rparr>)"
  | (sends) a fd cmd result response where "work s i = Replying a result response"
      "task_data (queue s) a = Some (fd, cmd)"
      "s' = at i (Closing a result) (if response \<noteq> [] then s\<lparr>sent := sent s @ [(fd, response)]\<rparr> else s)"
  | (finishes) a fd cmd result where "work s i = Closing a result" "task_data (queue s) a = Some (fd, cmd)"
      "s' = at i Idle (s\<lparr>notify_pipe := (if result = 1 then notify_pipe s @ [fd] else notify_pipe s),
            queue := (queue s)\<lparr>store := (store (queue s))(a := None)\<rparr>\<rparr>)"
proof (cases "work s i")
  case Idle
  with assms show ?thesis by (intro lock) (auto simp: worker_step_def lock_mutex_def split: if_splits)
next
  case Woken
  with assms show ?thesis by (intro lock) (auto simp: worker_step_def lock_mutex_def split: if_splits)
next
  case Checking
  then have t: "take_task i s = Next s'" using assms by (simp add: worker_step_def)
  show ?thesis
  proof (cases "head (queue s)")
    case None
    with t Checking wait leave show ?thesis by (auto simp: take_task_def split: if_splits)
  next
    case (Some b)
    with t obtain r p where r: "task_pop (queue s) = Some (r, p)"
      by (auto simp: take_task_def split: option.splits)
    with Some pop_some have "r = Some b" by fastforce
    with r t Checking Some pop show ?thesis by (auto simp: take_task_def)
  qed
next
  case (Loaded a)
  then have "lock_db i a s = Next s'" using assms by (simp add: worker_step_def)
  with Loaded acquire [of a] show ?thesis
    by (auto simp: lock_db_def split: option.splits prod.splits if_splits)
next
  case (Locked wr a)
  then have "begin_command i wr a s = Next s'" using assms by (simp add: worker_step_def)
  with Locked begins [of wr a] show ?thesis by (auto simp: begin_command_def split: option.splits prod.splits)
next
  case (Running wr a result response t)
  with assms ends show ?thesis by (auto simp: worker_step_def end_command_def)
next
  case (Replying a result response)
  then have "send_reply i a result response s = Next s'" using assms by (simp add: worker_step_def)
  with Replying sends [of a result response] show ?thesis by (auto simp: send_reply_def split: option.splits prod.splits)
next
  case (Closing a result)
  then have "finish_task i a result s = Next s'" using assms by (simp add: worker_step_def)
  with Closing finishes [of a result] show ?thesis by (auto simp: finish_task_def split: option.splits prod.splits)
next
  case Sleeping
  with assms show ?thesis by (simp add: worker_step_def)
next
  case Exited
  with assms show ?thesis by (simp add: worker_step_def)
qed

text \<open>The other steps.\<close>

lemma submit_step_cases:
  assumes "submit_step block fd c wake s = Next s'"
  obtains (refused) p where "mutex s = None"
      "worker_pool_submit block fd (Some c) (Some (queue s)) = Some (False, Some p)" "s' = s\<lparr>queue := p\<rparr>"
  | (queued) p where "mutex s = None"
      "worker_pool_submit block fd (Some c) (Some (queue s)) = Some (True, Some p)"
      "s' = signal wake (s\<lparr>queue := p, accepted := accepted s @ [(fd, take (max_command_size - 1) c)]\<rparr>)"
  using assms by (auto simp: submit_step_def split: if_splits option.splits prod.splits bool.splits)

lemma shutdown_step_iff:
  "shutdown_step s = Next s' \<longleftrightarrow> mutex s = None \<and> s' = broadcast (s\<lparr>queue := (queue s)\<lparr>shutting_down := True\<rparr>\<rparr>)"
  by (auto simp: shutdown_step_def)

subsection \<open>Locks\<close>

fun db_lock :: "work \<Rightarrow> bool option" where
  "db_lock (Locked wr a) = Some wr"
| "db_lock (Running wr a result response t) = Some wr"
| "db_lock _ = None"

definition inv_locks :: "state \<Rightarrow> bool" where
  "inv_locks s \<longleftrightarrow>
     (\<forall>i < worker_count. (work s i = Checking \<longleftrightarrow> mutex s = Some i)
        \<and> (db_lock (work s i) = Some False \<longleftrightarrow> i \<in> readers s)
        \<and> (db_lock (work s i) = Some True \<longleftrightarrow> writer s = Some i))
     \<and> (\<forall>i. mutex s = Some i \<longrightarrow> i < worker_count) \<and> (\<forall>i \<in> readers s. i < worker_count)
     \<and> (\<forall>i. writer s = Some i \<longrightarrow> i < worker_count) \<and> (writer s = None \<or> readers s = {})"

lemma signal_fields [simp]:
  "queue (signal wake s) = queue s" "mutex (signal wake s) = mutex s" "readers (signal wake s) = readers s"
  "writer (signal wake s) = writer s" "db (signal wake s) = db s" "env (signal wake s) = env s"
  "accepted (signal wake s) = accepted s" "taken (signal wake s) = taken s" "executed (signal wake s) = executed s"
  "sent (signal wake s) = sent s"
  by (simp_all add: signal_def split: option.split)

lemma signal_work:
  "may_wake wake s \<Longrightarrow> work (signal wake s') i = work s i \<or> work s i = Sleeping \<and> work (signal wake s') i = Woken"
  if "work s' = work s"
  using that by (auto simp: signal_def may_wake_def split: option.splits)

lemma inv_locksD:
  assumes "inv_locks s" "i < worker_count"
  shows "work s i = Checking \<longleftrightarrow> mutex s = Some i" "db_lock (work s i) = Some False \<longleftrightarrow> i \<in> readers s"
    "db_lock (work s i) = Some True \<longleftrightarrow> writer s = Some i"
  using assms by (auto simp: inv_locks_def)

text \<open>Steps that change neither lock, the mutex only, or the database lock only.\<close>

lemma frame_inv_locks:
  assumes "inv_locks s" "mutex s' = mutex s" "readers s' = readers s" "writer s' = writer s"
    and "\<And>j. (work s' j = Checking \<longleftrightarrow> work s j = Checking) \<and> db_lock (work s' j) = db_lock (work s j)"
  shows "inv_locks s'"
  using assms by (simp add: inv_locks_def)

lemma mutex_inv_locks:
  assumes "inv_locks s" "i < worker_count" "readers s' = readers s" "writer s' = writer s"
    and "work s' = (work s)(i := w)" "db_lock w = None" "db_lock (work s i) = None"
    and "mutex s' = (if w = Checking then Some i else None)" "mutex s = None \<or> mutex s = Some i"
  shows "inv_locks s'"
proof -
  have "j < worker_count \<Longrightarrow> work s' j = Checking \<longleftrightarrow> mutex s' = Some j" for j
    using inv_locksD(1) [OF assms(1), of j] assms(5,8,9) by (cases "j = i") auto
  moreover have "db_lock (work s' j) = db_lock (work s j)" for j using assms(5-7) by simp
  moreover have "mutex s' = Some j \<Longrightarrow> j < worker_count" for j using assms(2,8) by (auto split: if_splits)
  ultimately show ?thesis using assms(1,3,4) by (simp add: inv_locks_def)
qed

lemma db_inv_locks:
  assumes "inv_locks s" "i < worker_count" "mutex s' = mutex s" "work s' = (work s)(i := w)"
    and "work s i \<noteq> Checking" "w \<noteq> Checking"
    and "readers s' = (if db_lock w = Some False then insert i (readers s) else readers s - {i})"
    and "writer s' = (if db_lock w = Some True then Some i else if writer s = Some i then None else writer s)"
    and "db_lock w = None \<or> writer s = None" "db_lock w = Some True \<longrightarrow> readers s = {}"
  shows "inv_locks s'"
proof -
  have "work s' j = Checking \<longleftrightarrow> work s j = Checking" for j using assms(4-6) by simp
  moreover have "j < worker_count \<Longrightarrow> db_lock (work s' j) = Some False \<longleftrightarrow> j \<in> readers s'" for j
    using inv_locksD(2) [OF assms(1), of j] assms(4,7) by auto
  moreover have "j < worker_count \<Longrightarrow> db_lock (work s' j) = Some True \<longleftrightarrow> writer s' = Some j" for j
    using inv_locksD(3) [OF assms(1), of j] assms(4,8,9) by (cases "j = i") auto
  moreover have "writer s' = None \<or> readers s' = {}"
    using assms(1,7-10) by (auto simp: inv_locks_def)
  moreover have "\<forall>j \<in> readers s'. j < worker_count" "writer s' = Some j \<Longrightarrow> j < worker_count" for j
    using assms(1,2,7,8) by (auto simp: inv_locks_def split: if_splits)
  ultimately show ?thesis using assms(1,3) by (simp add: inv_locks_def)
qed

lemma worker_inv_locks:
  assumes "inv_locks s" "i < worker_count" "worker_step i s = Next s'"
  shows "inv_locks s'"
  using assms(3)
proof (cases rule: worker_step_cases)
  case lock
  then show ?thesis using mutex_inv_locks [OF assms(1,2), of s' Checking] by auto
next
  case wait
  then have "mutex s = Some i" using inv_locksD(1) [OF assms(1,2)] by simp
  with wait show ?thesis using mutex_inv_locks [OF assms(1,2), of s' Sleeping] by simp
next
  case leave
  then have "mutex s = Some i" using inv_locksD(1) [OF assms(1,2)] by simp
  with leave show ?thesis using mutex_inv_locks [OF assms(1,2), of s' Exited] by simp
next
  case (pop a p)
  then have "mutex s = Some i" using inv_locksD(1) [OF assms(1,2)] by simp
  with pop show ?thesis using mutex_inv_locks [OF assms(1,2), of s' "Loaded a"] by simp
next
  case (acquire a fd cmd wr)
  then have "i \<notin> readers s" using inv_locksD(2) [OF assms(1,2)] by simp
  with acquire have "mutex s' = mutex s" "work s' = (work s)(i := Locked wr a)"
    "readers s' = (if wr then readers s - {i} else insert i (readers s))"
    "writer s' = (if wr then Some i else writer s)" by auto
  with acquire(1,4,5) show ?thesis using db_inv_locks [OF assms(1,2), of s' "Locked wr a"] by simp
next
  case (begins a fd cmd wr)
  then show ?thesis using frame_inv_locks [OF assms(1), of s'] by simp
next
  case (ends a wr result response t)
  have "wr \<Longrightarrow> writer s = Some i \<and> i \<notin> readers s" "\<not> wr \<Longrightarrow> writer s \<noteq> Some i"
    using inv_locksD(2,3) [OF assms(1,2)] ends(1) by auto
  with ends have "mutex s' = mutex s" "work s' = (work s)(i := Replying a result response)"
    "readers s' = readers s - {i}" "writer s' = (if writer s = Some i then None else writer s)" by auto
  with ends(1) show ?thesis using db_inv_locks [OF assms(1,2), of s' "Replying a result response"] by simp
next
  case (sends a fd cmd result response)
  then show ?thesis using frame_inv_locks [OF assms(1), of s'] by simp
next
  case finishes
  then show ?thesis using frame_inv_locks [OF assms(1), of s'] by simp
qed

text \<open>Steps of the environment, on a queue that represents a list.\<close>

lemma step_cases_ok:
  assumes "step s s'" "queue_ok (queue s) as"
  obtains (worker) i where "i < worker_count" "worker_step i s = Next s'"
  | (spurious) i where "i < worker_count" "work s i = Sleeping" "s' = at i Woken s"
  | (refused) "s' = s"
  | (queued) a fd c p wake where "mutex s = None" "\<not> shutting_down (queue s)" "store (queue s) a = None" "no_nul c"
      "may_wake wake s" "queue_ok p (as @ [a])" "\<not> shutting_down p"
      "task_data p = (task_data (queue s))(a \<mapsto> (fd, take (max_command_size - 1) c))"
      "s' = signal wake (s\<lparr>queue := p, accepted := accepted s @ [(fd, take (max_command_size - 1) c)]\<rparr>)"
  | (shutdown) "mutex s = None" "s' = broadcast (s\<lparr>queue := (queue s)\<lparr>shutting_down := True\<rparr>\<rparr>)"
  using assms(1)
proof (cases rule: step.cases)
  case (submit block wake c fd)
  show ?thesis
  proof (cases "block = None \<or> shutting_down (queue s)")
    case True
    then have "worker_pool_submit block fd (Some c) (Some (queue s)) = Some (False, Some (queue s))"
      using submit(1) submit_refused by (cases block) (auto simp: worker_pool_submit_def)
    with submit(4) have "s' = s" by (cases rule: submit_step_cases) auto
    then show ?thesis by (rule refused)
  next
    case False
    then obtain a where a: "block = Some a" "store (queue s) a = None" "\<not> shutting_down (queue s)"
      using submit(1) by auto
    from submit_accepts [OF assms(2) a(2,3), of fd c] obtain p where
      p: "worker_pool_submit block fd (Some c) (Some (queue s)) = Some (True, Some p)" "queue_ok p (as @ [a])"
        "task_data p = (task_data (queue s))(a \<mapsto> (fd, take (max_command_size - 1) c))" "\<not> shutting_down p"
      using a(1) by blast
    with submit(4) have "mutex s = None"
      "s' = signal wake (s\<lparr>queue := p, accepted := accepted s @ [(fd, take (max_command_size - 1) c)]\<rparr>)"
      by (auto elim: submit_step_cases)
    then show ?thesis using queued [OF _ a(3,2) submit(3,2) p(2,4,3)] by simp
  qed
next
  case (worker i)
  then show ?thesis using that(1) by simp
next
  case (spurious i)
  then show ?thesis using that(2) by simp
next
  case shutdown
  then show ?thesis using that(5) by (simp only: shutdown_step_iff)
qed

text \<open>Steps that only wake sleepers keep the locks as they are.\<close>

lemma wake_inv_locks:
  assumes "inv_locks s" "mutex s' = mutex s" "readers s' = readers s" "writer s' = writer s"
    and "\<And>i. work s' i = work s i \<or> work s i = Sleeping \<and> work s' i = Woken"
  shows "inv_locks s'"
proof (rule frame_inv_locks [OF assms(1-4)])
  show "(work s' j = Checking \<longleftrightarrow> work s j = Checking) \<and> db_lock (work s' j) = db_lock (work s j)" for j
    using assms(5) [of j] by auto
qed

lemma broadcast_fields [simp]:
  "queue (broadcast s) = queue s" "mutex (broadcast s) = mutex s" "readers (broadcast s) = readers s"
  "writer (broadcast s) = writer s" "db (broadcast s) = db s" "env (broadcast s) = env s"
  "accepted (broadcast s) = accepted s" "taken (broadcast s) = taken s" "executed (broadcast s) = executed s"
  "sent (broadcast s) = sent s"
  "work (broadcast s) i = (if i < worker_count \<and> work s i = Sleeping then Woken else work s i)"
  by (simp_all add: broadcast_def)

lemma step_inv_locks:
  assumes "inv_locks s" "queue_ok (queue s) as" "step s s'"
  shows "inv_locks s'"
  using assms(3,2)
proof (cases rule: step_cases_ok)
  case worker
  then show ?thesis using worker_inv_locks [OF assms(1)] by blast
next
  case (queued a fd c p wake)
  show ?thesis
    by (rule wake_inv_locks [OF assms(1)])
      (use queued(9) signal_work [OF _ queued(5)] in \<open>simp_all\<close>)
next
  case shutdown
  show ?thesis by (rule wake_inv_locks [OF assms(1)]) (use shutdown(2) in simp_all)
qed (use assms(1) wake_inv_locks [OF assms(1)] in auto)

subsection \<open>Ownership of tasks\<close>

fun held :: "work \<Rightarrow> addr option" where
  "held (Loaded a) = Some a"
| "held (Locked wr a) = Some a"
| "held (Running wr a result response t) = Some a"
| "held (Replying a result response) = Some a"
| "held (Closing a result) = Some a"
| "held _ = None"

text \<open>
  Every task in the store is in the queue or in the hands of exactly one worker, its command is a C string,
  and a worker holds the kind of lock the command asks for.
\<close>

definition inv_tasks :: "addr list \<Rightarrow> state \<Rightarrow> bool" where
  "inv_tasks as s \<longleftrightarrow> queue_ok (queue s) as
     \<and> (\<forall>i < worker_count. \<forall>a. held (work s i) = Some a \<longrightarrow> a \<notin> set as \<and> task_data (queue s) a \<noteq> None)
     \<and> (\<forall>i < worker_count. \<forall>j < worker_count. \<forall>a. held (work s i) = Some a \<longrightarrow> held (work s j) = Some a \<longrightarrow> i = j)
     \<and> (\<forall>a. task_data (queue s) a \<noteq> None \<longrightarrow> a \<in> set as \<or> (\<exists>i < worker_count. held (work s i) = Some a))
     \<and> (\<forall>a fd c. task_data (queue s) a = Some (fd, c) \<longrightarrow> no_nul c)
     \<and> (\<forall>i < worker_count. \<forall>a fd c wr. held (work s i) = Some a \<longrightarrow> db_lock (work s i) = Some wr \<longrightarrow>
          task_data (queue s) a = Some (fd, c) \<longrightarrow> wr = (\<not> is_read_command c))"

lemma inv_tasksD:
  assumes "inv_tasks as s"
  shows "queue_ok (queue s) as"
    and "i < worker_count \<Longrightarrow> held (work s i) = Some a \<Longrightarrow> a \<notin> set as"
    and "i < worker_count \<Longrightarrow> held (work s i) = Some a \<Longrightarrow> task_data (queue s) a \<noteq> None"
    and "i < worker_count \<Longrightarrow> j < worker_count \<Longrightarrow> held (work s i) = Some a \<Longrightarrow> held (work s j) = Some a \<Longrightarrow> i = j"
    and "task_data (queue s) a \<noteq> None \<Longrightarrow> a \<in> set as \<or> (\<exists>i < worker_count. held (work s i) = Some a)"
    and "task_data (queue s) a = Some (fd, c) \<Longrightarrow> no_nul c"
    and "i < worker_count \<Longrightarrow> held (work s i) = Some a \<Longrightarrow> db_lock (work s i) = Some wr \<Longrightarrow>
      task_data (queue s) a = Some (fd, c) \<Longrightarrow> wr = (\<not> is_read_command c)"
  using assms unfolding inv_tasks_def by blast+

lemma inv_tasksI:
  assumes "queue_ok (queue s) as"
    and "\<And>i a. i < worker_count \<Longrightarrow> held (work s i) = Some a \<Longrightarrow> a \<notin> set as \<and> task_data (queue s) a \<noteq> None"
    and "\<And>i j a. i < worker_count \<Longrightarrow> j < worker_count \<Longrightarrow> held (work s i) = Some a \<Longrightarrow> held (work s j) = Some a \<Longrightarrow> i = j"
    and "\<And>a. task_data (queue s) a \<noteq> None \<Longrightarrow> a \<in> set as \<or> (\<exists>i < worker_count. held (work s i) = Some a)"
    and "\<And>a fd c. task_data (queue s) a = Some (fd, c) \<Longrightarrow> no_nul c"
    and "\<And>i a fd c wr. i < worker_count \<Longrightarrow> held (work s i) = Some a \<Longrightarrow> db_lock (work s i) = Some wr \<Longrightarrow>
      task_data (queue s) a = Some (fd, c) \<Longrightarrow> wr = (\<not> is_read_command c)"
  shows "inv_tasks as s"
  using assms unfolding inv_tasks_def by blast

lemma frame_inv_tasks:
  assumes "inv_tasks as s" "queue_ok (queue s') as" "task_data (queue s') = task_data (queue s)"
    and "\<And>i. held (work s' i) = held (work s i)"
    and "\<And>i. db_lock (work s' i) = db_lock (work s i) \<or> db_lock (work s' i) = None"
  shows "inv_tasks as s'"
proof -
  have "db_lock (work s' i) = Some wr \<Longrightarrow> db_lock (work s i) = Some wr" for i wr
    using assms(5) [of i] by auto
  with assms(1-4) show ?thesis by (simp add: inv_tasks_def)
qed

lemma update_inv_tasks:
  assumes "inv_tasks as s" "queue s' = queue s" "work s' = (work s)(i := w)" "held w = held (work s i)"
    and "db_lock w = db_lock (work s i) \<or> db_lock w = None"
  shows "inv_tasks as s'"
  by (rule frame_inv_tasks [OF assms(1)]) (use assms inv_tasksD(1) [OF assms(1)] in auto)

lemma pop_inv_tasks:
  assumes "inv_tasks as s" "i < worker_count" "held (work s i) = None" "task_pop (queue s) = Some (Some a, p)"
    and "queue s' = p" "work s' = (work s)(i := Loaded a)"
  shows "\<exists>as'. as = a # as' \<and> inv_tasks as' s'"
proof -
  note D = inv_tasksD [OF assms(1)]
  have "head (queue s) = Some a" using pop_some [OF assms(4)] by simp
  then obtain as' where as: "as = a # as'" using D(1) by (cases as) (auto simp: queue_ok_def)
  have q: "queue_ok p as'" using pop_first [of "queue s" a as'] D(1) as assms(4) by auto
  have a: "a \<notin> set as'" using D(1) as by (simp add: queue_ok_def)
  have data: "task_data p = task_data (queue s)" using pop_data [OF assms(4)] by simp
  have ad: "task_data (queue s) a \<noteq> None" using queue_ok_dom [OF D(1), of a] as by (simp add: task_data_dom)
  have own: "held (work s j) = Some b \<Longrightarrow> j < worker_count \<Longrightarrow> b \<noteq> a" for j b using D(2) as by auto
  have "inv_tasks as' s'"
  proof (rule inv_tasksI, unfold assms(5,6) data)
    show "queue_ok p as'" by (rule q)
  next
    fix j b
    assume "j < worker_count" "held (((work s)(i := Loaded a)) j) = Some b"
    then show "b \<notin> set as' \<and> task_data (queue s) b \<noteq> None"
      using a ad D(2,3) [of j b] as by (auto split: if_splits)
  next
    fix j k b
    assume "j < worker_count" "k < worker_count" "held (((work s)(i := Loaded a)) j) = Some b"
      "held (((work s)(i := Loaded a)) k) = Some b"
    then show "j = k" using own [of j b] own [of k b] D(4) [of j k b] by (auto split: if_splits)
  next
    fix b
    assume "task_data (queue s) b \<noteq> None"
    then consider "b = a" | "b \<in> set as'" | j where "j < worker_count" "held (work s j) = Some b"
      using D(5) as by auto
    then show "b \<in> set as' \<or> (\<exists>j < worker_count. held (((work s)(i := Loaded a)) j) = Some b)"
    proof cases
      case 1
      then show ?thesis using assms(2) by auto
    next
      case 3
      then have "j \<noteq> i" using assms(3) by auto
      with 3 show ?thesis by auto
    qed simp
  next
    fix b fd c
    assume "task_data (queue s) b = Some (fd, c)"
    then show "no_nul c" by (rule D(6))
  next
    fix j b fd c wr
    assume "j < worker_count" "held (((work s)(i := Loaded a)) j) = Some b"
      "db_lock (((work s)(i := Loaded a)) j) = Some wr" "task_data (queue s) b = Some (fd, c)"
    then show "wr = (\<not> is_read_command c)" using D(7) [of j b wr fd c] by (auto split: if_splits)
  qed
  with as show ?thesis by blast
qed

lemma finish_inv_tasks:
  assumes "inv_tasks as s" "i < worker_count" "held (work s i) = Some a"
    and "queue s' = (queue s)\<lparr>store := (store (queue s))(a := None)\<rparr>" "work s' = (work s)(i := Idle)"
  shows "inv_tasks as s'"
proof -
  note D = inv_tasksD [OF assms(1)]
  have a: "a \<notin> set as" using D(2) assms(2,3) by blast
  have q: "queue_ok (queue s') as" unfolding assms(4) by (rule queue_ok_store [OF D(1)]) (use a in auto)
  have data: "task_data (queue s') = (task_data (queue s))(a := None)"
    by (simp add: assms(4) task_data_def fun_eq_iff)
  have own: "held (work s j) = Some a \<Longrightarrow> j < worker_count \<Longrightarrow> j = i" for j using D(4) assms(2,3) by blast
  show ?thesis
  proof (rule inv_tasksI, rule q, unfold assms(5) data)
    fix j b
    assume "j < worker_count" "held (((work s)(i := Idle)) j) = Some b"
    then show "b \<notin> set as \<and> ((task_data (queue s))(a := None)) b \<noteq> None"
      using own [of j] D(2,3) [of j b] by (auto split: if_splits)
  next
    fix j k b
    assume "j < worker_count" "k < worker_count" "held (((work s)(i := Idle)) j) = Some b"
      "held (((work s)(i := Idle)) k) = Some b"
    then show "j = k" using D(4) [of j k b] by (auto split: if_splits)
  next
    fix b
    assume "((task_data (queue s))(a := None)) b \<noteq> None"
    then have "b \<noteq> a" "task_data (queue s) b \<noteq> None" by (auto split: if_splits)
    from D(5) [OF this(2)] show "b \<in> set as \<or> (\<exists>j < worker_count. held (((work s)(i := Idle)) j) = Some b)"
    proof
      assume "\<exists>j < worker_count. held (work s j) = Some b"
      then obtain j where "j < worker_count" "held (work s j) = Some b" by blast
      moreover from this \<open>b \<noteq> a\<close> assms(3) have "j \<noteq> i" by auto
      ultimately show ?thesis by auto
    qed simp
  next
    fix b fd c
    assume "((task_data (queue s))(a := None)) b = Some (fd, c)"
    then show "no_nul c" using D(6) by (auto split: if_splits)
  next
    fix j b fd c wr
    assume "j < worker_count" "held (((work s)(i := Idle)) j) = Some b" "db_lock (((work s)(i := Idle)) j) = Some wr"
      "((task_data (queue s))(a := None)) b = Some (fd, c)"
    then show "wr = (\<not> is_read_command c)" using D(7) [of j b wr fd c] by (auto split: if_splits)
  qed
qed

lemma queued_inv_tasks:
  assumes "inv_tasks as s" "queue_ok p (as @ [a])" "store (queue s) a = None" "no_nul c"
    and "task_data p = (task_data (queue s))(a \<mapsto> (fd, take n c))" "queue s' = p"
    and "\<And>i. held (work s' i) = held (work s i)" "\<And>i. db_lock (work s' i) = db_lock (work s i)"
  shows "inv_tasks (as @ [a]) s'"
proof -
  note D = inv_tasksD [OF assms(1)]
  have a: "task_data (queue s) a = None" using assms(3) by (simp add: task_data_dom)
  show ?thesis
  proof (rule inv_tasksI, unfold assms(5-8), rule assms(2))
    fix j b
    assume "j < worker_count" "held (work s j) = Some b"
    then show "b \<notin> set (as @ [a]) \<and> ((task_data (queue s))(a \<mapsto> (fd, take n c))) b \<noteq> None"
      using D(2,3) [of j b] a by auto
  next
    fix j k b
    assume "j < worker_count" "k < worker_count" "held (work s j) = Some b" "held (work s k) = Some b"
    then show "j = k" by (rule D(4))
  next
    fix b
    assume "((task_data (queue s))(a \<mapsto> (fd, take n c))) b \<noteq> None"
    then show "b \<in> set (as @ [a]) \<or> (\<exists>i < worker_count. held (work s i) = Some b)"
      using D(5) [of b] by (auto split: if_splits)
  next
    fix b fd' c'
    assume "((task_data (queue s))(a \<mapsto> (fd, take n c))) b = Some (fd', c')"
    then show "no_nul c'" using D(6) assms(4) by (auto split: if_splits)
  next
    fix j b fd' c' wr
    assume *: "j < worker_count" "held (work s j) = Some b" "db_lock (work s j) = Some wr"
      "((task_data (queue s))(a \<mapsto> (fd, take n c))) b = Some (fd', c')"
    then have "b \<noteq> a" using D(3) a by blast
    with * show "wr = (\<not> is_read_command c')" using D(7) [of j b wr fd' c'] by simp
  qed
qed

lemma shutdown_inv_tasks:
  assumes "inv_tasks as s"
  shows "inv_tasks as (broadcast (s\<lparr>queue := (queue s)\<lparr>shutting_down := True\<rparr>\<rparr>))"
proof (rule frame_inv_tasks [OF assms])
  show "queue_ok (queue (broadcast (s\<lparr>queue := (queue s)\<lparr>shutting_down := True\<rparr>\<rparr>))) as"
    using inv_tasksD(1) [OF assms] by (simp add: queue_ok_def)
qed (auto simp: task_data_def fun_eq_iff)

text \<open>How a step moves the tasks: the new queue is the old one, its tail, or the old one and a new task.\<close>

lemma worker_inv_tasks:
  assumes "inv_tasks as s" "i < worker_count" "worker_step i s = Next s'"
  shows "\<exists>as'. inv_tasks as' s'"
  using assms(3)
proof (cases rule: worker_step_cases)
  case lock
  then show ?thesis using update_inv_tasks [OF assms(1), of s' i Checking] by auto
next
  case wait
  then show ?thesis using update_inv_tasks [OF assms(1), of s' i Sleeping] by auto
next
  case leave
  then show ?thesis using update_inv_tasks [OF assms(1), of s' i Exited] by auto
next
  case (pop a p)
  then show ?thesis using pop_inv_tasks [OF assms(1,2) _ pop(2), of s'] by auto
next
  case (acquire a fd cmd wr)
  note D = inv_tasksD [OF assms(1)]
  have "held (work s i) = Some a" using acquire by simp
  show ?thesis
  proof (intro exI inv_tasksI)
    have q: "queue s' = queue s" using acquire(6) by simp
    have w: "held (work s' j) = held (work s j)" for j using acquire(1,6) by simp
    show "queue_ok (queue s') as" using D(1) q by simp
    show "j < worker_count \<Longrightarrow> held (work s' j) = Some b \<Longrightarrow> b \<notin> set as \<and> task_data (queue s') b \<noteq> None" for j b
      using D(2,3) q w by simp
    show "j < worker_count \<Longrightarrow> k < worker_count \<Longrightarrow> held (work s' j) = Some b \<Longrightarrow> held (work s' k) = Some b \<Longrightarrow> j = k"
      for j k b using D(4) [of j k b] w by simp
    show "task_data (queue s') b \<noteq> None \<Longrightarrow> b \<in> set as \<or> (\<exists>i < worker_count. held (work s' i) = Some b)" for b
      using D(5) q w by simp
    show "task_data (queue s') b = Some (f, c) \<Longrightarrow> no_nul c" for b f c using D(6) q by simp
    show "j < worker_count \<Longrightarrow> held (work s' j) = Some b \<Longrightarrow> db_lock (work s' j) = Some wr' \<Longrightarrow>
      task_data (queue s') b = Some (f, c) \<Longrightarrow> wr' = (\<not> is_read_command c)" for j b f c wr'
      using D(7) [of j b wr' f c] q acquire by (cases "j = i") auto
  qed
next
  case (begins a fd cmd wr result response t w)
  then show ?thesis using update_inv_tasks [OF assms(1), of s' i "Running wr a result response t"] by auto
next
  case (ends a wr result response t)
  then show ?thesis using update_inv_tasks [OF assms(1), of s' i "Replying a result response"] by auto
next
  case (sends a fd cmd result response)
  then show ?thesis using update_inv_tasks [OF assms(1), of s' i "Closing a result"] by auto
next
  case (finishes a fd cmd result)
  then show ?thesis using finish_inv_tasks [OF assms(1,2), of a s'] by auto
qed

lemma step_inv_tasks:
  assumes "inv_tasks as s" "step s s'"
  shows "\<exists>as'. inv_tasks as' s'"
  using assms(2) inv_tasksD(1) [OF assms(1)]
proof (cases rule: step_cases_ok)
  case (worker i)
  then show ?thesis using worker_inv_tasks [OF assms(1)] by blast
next
  case (spurious i)
  then show ?thesis using update_inv_tasks [OF assms(1), of s' i Woken] by auto
next
  case (queued a fd c p wake)
  have w: "work s' j = work s j \<or> work s j = Sleeping \<and> work s' j = Woken" for j
    using signal_work [OF _ queued(5)] queued(9) by simp
  have "held (work s' j) = held (work s j)" "db_lock (work s' j) = db_lock (work s j)" for j
    using w [of j] by auto
  moreover have "queue s' = p" using queued(9) by simp
  ultimately show ?thesis using queued_inv_tasks [OF assms(1) queued(6,3,4,8)] by blast
qed (use assms(1) shutdown_inv_tasks in blast)+

subsection \<open>Sleeping and leaving\<close>

text \<open>
  No wake-up is lost: while a task is queued, some worker is neither asleep nor gone.  During shutdown nobody
  sleeps, and a worker has left only when the queue was empty for good.
\<close>

definition inv_sleep :: "state \<Rightarrow> bool" where
  "inv_sleep s \<longleftrightarrow>
     (shutting_down (queue s) \<longrightarrow> (\<forall>i < worker_count. work s i \<noteq> Sleeping))
     \<and> (\<forall>i < worker_count. work s i = Exited \<longrightarrow> shutting_down (queue s) \<and> head (queue s) = None)
     \<and> (head (queue s) = None \<or> (\<exists>i < worker_count. work s i \<noteq> Sleeping \<and> work s i \<noteq> Exited))"

lemma awake_inv_sleep:
  assumes "inv_sleep s" "i < worker_count" "work s' = (work s)(i := w)" "w \<noteq> Sleeping" "w \<noteq> Exited"
    and "head (queue s') = None \<longleftrightarrow> head (queue s) = None" "shutting_down (queue s') = shutting_down (queue s)"
  shows "inv_sleep s'"
proof -
  have "\<exists>j < worker_count. work s' j \<noteq> Sleeping \<and> work s' j \<noteq> Exited"
    using assms(2-5) by (intro exI [of _ i]) simp
  moreover have "j < worker_count \<Longrightarrow> work s' j \<in> {Sleeping, Exited} \<Longrightarrow> work s' j = work s j" for j
    using assms(3-5) by (auto split: if_splits)
  ultimately show ?thesis using assms(1,6,7) unfolding inv_sleep_def by (metis insertCI)
qed

lemma worker_inv_sleep:
  assumes "inv_sleep s" "i < worker_count" "worker_step i s = Next s'"
  shows "inv_sleep s'"
  using assms(3)
proof (cases rule: worker_step_cases)
  case lock
  then show ?thesis using awake_inv_sleep [OF assms(1,2), of s' Checking] by simp
next
  case wait
  with assms(1) show ?thesis by (auto simp: inv_sleep_def)
next
  case leave
  with assms(1) show ?thesis by (auto simp: inv_sleep_def)
next
  case (pop a p)
  have "\<forall>j < worker_count. work s j \<noteq> Exited" using assms(1) pop(3) by (auto simp: inv_sleep_def)
  moreover have "shutting_down p = shutting_down (queue s)" using pop_data [OF pop(2)] by simp
  ultimately show ?thesis using assms(1,2) pop(4) by (auto simp: inv_sleep_def intro: exI [of _ i])
next
  case (acquire a fd cmd wr)
  then have "queue s' = queue s" "work s' = (work s)(i := Locked wr a)" by simp_all
  then show ?thesis using awake_inv_sleep [OF assms(1,2), of s' "Locked wr a"] by simp
next
  case (begins a fd cmd wr result response t w)
  then show ?thesis using awake_inv_sleep [OF assms(1,2), of s' "Running wr a result response t"] by simp
next
  case (ends a wr result response t)
  then have "queue s' = queue s" "work s' = (work s)(i := Replying a result response)" by simp_all
  then show ?thesis using awake_inv_sleep [OF assms(1,2), of s' "Replying a result response"] by simp
next
  case (sends a fd cmd result response)
  then have "queue s' = queue s" "work s' = (work s)(i := Closing a result)" by simp_all
  then show ?thesis using awake_inv_sleep [OF assms(1,2), of s' "Closing a result"] by simp
next
  case finishes
  then show ?thesis using awake_inv_sleep [OF assms(1,2), of s' Idle] by simp
qed

lemma step_inv_sleep:
  assumes "inv_sleep s" "queue_ok (queue s) as" "step s s'"
  shows "inv_sleep s'"
  using assms(3,2)
proof (cases rule: step_cases_ok)
  case (worker i)
  then show ?thesis using worker_inv_sleep [OF assms(1)] by blast
next
  case (spurious i)
  then show ?thesis using awake_inv_sleep [OF assms(1), of i s' Woken] by simp
next
  case refused
  then show ?thesis using assms(1) by simp
next
  case (queued a fd c p wake)
  have none: "\<forall>j < worker_count. work s j \<noteq> Exited" using assms(1) queued(2) by (auto simp: inv_sleep_def)
  have w: "work s' j = work s j \<or> work s j = Sleeping \<and> work s' j = Woken" for j
    using signal_work [OF _ queued(5)] queued(9) by simp
  have "\<exists>j < worker_count. work s' j \<noteq> Sleeping \<and> work s' j \<noteq> Exited"
  proof (cases wake)
    case None
    then have "work s 0 \<noteq> Sleeping" using queued(5) by (simp add: may_wake_def worker_count_def)
    then show ?thesis using none w [of 0] by (intro exI [of _ 0]) (auto simp: worker_count_def)
  next
    case (Some j)
    then show ?thesis using queued(5,9) by (intro exI [of _ j]) (auto simp: may_wake_def signal_def)
  qed
  moreover have "work s' j \<noteq> Exited" if "j < worker_count" for j using none w [of j] that by auto
  moreover have "\<not> shutting_down (queue s')" using queued(7,9) by simp
  ultimately show ?thesis by (simp add: inv_sleep_def)
next
  case shutdown
  then show ?thesis using assms(1) by (auto simp: inv_sleep_def)
qed

end
