(* ===== verification/WorkerHistory.thy ===== *)
theory WorkerHistory
  imports WorkerPool "HOL-Library.Multiset"
begin

text \<open>
  What the worker pool has done so far, as invariants of single steps: tasks are taken in the order of
  submission and each command is executed at most once, every reply and notification comes from an
  executed command, and the outcome is the one of a sequential execution.
\<close>

subsection \<open>Counting what the workers hold\<close>

text \<open>
  A tally adds up, over the workers, a multiset that depends on the point a worker has reached and on the
  task it holds.  A step of one worker changes its own contribution only, a step of the
  environment none.
\<close>

definition local_count :: "(pool \<Rightarrow> work \<Rightarrow> 'a multiset) \<Rightarrow> bool" where
  "local_count F \<longleftrightarrow> (\<forall>p w. held w = None \<longrightarrow> F p w = {#})
     \<and> (\<forall>p p' w a. held w = Some a \<longrightarrow> task_data p' a = task_data p a \<longrightarrow> F p' w = F p w)"

definition tally :: "(pool \<Rightarrow> work \<Rightarrow> 'a multiset) \<Rightarrow> state \<Rightarrow> 'a multiset" where
  "tally F s = (\<Sum>i<worker_count. F (queue s) (work s i))"

lemma local_countD:
  assumes "local_count F"
  shows "held w = None \<Longrightarrow> F p w = {#}"
    and "\<forall>a. held w = Some a \<longrightarrow> task_data p' a = task_data p a \<Longrightarrow> F p' w = F p w"
  using assms unfolding local_count_def by (blast, metis option.exhaust)

lemma sum_update:
  fixes F G :: "nat \<Rightarrow> 'a multiset" and n :: nat
  assumes "i < n" "\<And>j. j < n \<Longrightarrow> j \<noteq> i \<Longrightarrow> G j = F j"
  shows "sum G {..<n} + F i = sum F {..<n} + G i"
proof -
  have "sum H {..<n} = H i + sum H ({..<n} - {i})" for H :: "nat \<Rightarrow> 'a multiset"
    by (rule sum.remove) (use assms(1) in auto)
  moreover have "sum G ({..<n} - {i}) = sum F ({..<n} - {i})" by (rule sum.cong) (use assms(2) in auto)
  ultimately show ?thesis by (simp add: add_ac)
qed

lemma worker_frame:
  assumes "worker_step i s = Next s'"
  shows "j \<noteq> i \<Longrightarrow> work s' j = work s j"
    and "held (work s i) = None \<or> held (work s i) \<noteq> Some a \<or> held (work s' i) = Some a \<Longrightarrow>
      task_data (queue s') a = task_data (queue s) a"
proof -
  from assms show "j \<noteq> i \<Longrightarrow> work s' j = work s j" by (cases rule: worker_step_cases) simp_all
  from assms show "held (work s i) = None \<or> held (work s i) \<noteq> Some a \<or> held (work s' i) = Some a \<Longrightarrow>
      task_data (queue s') a = task_data (queue s) a"
  proof (cases rule: worker_step_cases)
    case (pop b p)
    then show ?thesis using pop_data [OF pop(2)] by simp
  next
    case finishes
    then show "held (work s i) = None \<or> held (work s i) \<noteq> Some a \<or> held (work s' i) = Some a \<Longrightarrow>
      task_data (queue s') a = task_data (queue s) a" by (auto simp: task_data_def)
  qed simp_all
qed

lemma worker_tally:
  assumes "inv_tasks as s" "i < worker_count" "worker_step i s = Next s'" "local_count F"
  shows "tally F s' + F (queue s) (work s i) = tally F s + F (queue s) (work s' i)"
proof -
  note D = inv_tasksD [OF assms(1)] and fr = worker_frame [OF assms(3)]
  have i: "F (queue s') (work s' i) = F (queue s) (work s' i)"
    using fr(2) by (intro local_countD(2) [OF assms(4)]) blast
  have "F (queue s') (work s' j) = F (queue s) (work s j)" if "j < worker_count" "j \<noteq> i" for j
  proof -
    have "\<forall>a. held (work s j) = Some a \<longrightarrow> task_data (queue s') a = task_data (queue s) a"
      using fr(2) D(4) [OF that(1) assms(2)] that(2) by metis
    then show ?thesis unfolding fr(1) [OF that(2)] by (rule local_countD(2) [OF assms(4)])
  qed
  from sum_update [of i worker_count "\<lambda>j. F (queue s') (work s' j)" "\<lambda>j. F (queue s) (work s j)", OF assms(2) this] i
  show ?thesis by (simp add: tally_def)
qed

text \<open>Steps of the environment.\<close>

lemma environment_tally:
  assumes "inv_tasks as s" "local_count F"
    and "\<And>i. work s' i = work s i \<or> work s i = Sleeping \<and> work s' i = Woken"
    and "\<And>a. task_data (queue s) a \<noteq> None \<Longrightarrow> task_data (queue s') a = task_data (queue s) a"
  shows "tally F s' = tally F s"
  unfolding tally_def
proof (rule sum.cong)
  fix i
  assume "i \<in> {..<worker_count}"
  then have i: "i < worker_count" by simp
  consider "work s' i = work s i" | "work s i = Sleeping" "work s' i = Woken" using assms(3) by blast
  then show "F (queue s') (work s' i) = F (queue s) (work s i)"
  proof cases
    case 1
    have "\<forall>a. held (work s i) = Some a \<longrightarrow> task_data (queue s') a = task_data (queue s) a"
      using assms(4) inv_tasksD(3) [OF assms(1) i] by blast
    then show ?thesis unfolding 1 by (rule local_countD(2) [OF assms(2)])
  next
    case 2
    then show ?thesis using local_countD(1) [OF assms(2)] by simp
  qed
qed simp

subsection \<open>Every task once\<close>

text \<open>
  What a worker owes: the task whose command it has not begun, the response it has not sent, the
  notification it has not written.
\<close>

definition of_task :: "pool \<Rightarrow> addr \<Rightarrow> (fd \<Rightarrow> cstr \<Rightarrow> 'a multiset) \<Rightarrow> 'a multiset" where
  "of_task p a f = (case task_data p a of None \<Rightarrow> {#} | Some (fd, c) \<Rightarrow> f fd c)"

fun pending :: "pool \<Rightarrow> work \<Rightarrow> (fd \<times> cstr) multiset" where
  "pending p (Loaded a) = of_task p a (\<lambda>fd c. {#(fd, c)#})"
| "pending p (Locked wr a) = of_task p a (\<lambda>fd c. {#(fd, c)#})"
| "pending p _ = {#}"

definition answer :: "fd \<Rightarrow> cstr \<Rightarrow> (fd \<times> cstr) multiset" where
  "answer fd r = (if r = [] then {#} else {#(fd, r)#})"

fun unsent :: "pool \<Rightarrow> work \<Rightarrow> (fd \<times> cstr) multiset" where
  "unsent p (Running wr a st r t) = of_task p a (\<lambda>fd c. answer fd r)"
| "unsent p (Replying a st r) = of_task p a (\<lambda>fd c. answer fd r)"
| "unsent p _ = {#}"

definition closes :: "fd \<Rightarrow> int \<Rightarrow> fd multiset" where
  "closes fd st = (if st = 1 then {#fd#} else {#})"

fun unclosed :: "pool \<Rightarrow> work \<Rightarrow> fd multiset" where
  "unclosed p (Running wr a st r t) = of_task p a (\<lambda>fd c. closes fd st)"
| "unclosed p (Replying a st r) = of_task p a (\<lambda>fd c. closes fd st)"
| "unclosed p (Closing a st) = of_task p a (\<lambda>fd c. closes fd st)"
| "unclosed p _ = {#}"

lemma local_counts [simp]: "local_count pending" "local_count unsent" "local_count unclosed"
proof -
  have "held w = None \<longrightarrow> pending p w = {#}" "held w = None \<longrightarrow> unsent p w = {#}"
    "held w = None \<longrightarrow> unclosed p w = {#}" for p w by (cases w; simp)+
  moreover have "held w = Some a \<longrightarrow> task_data p' a = task_data p a \<longrightarrow> pending p' w = pending p w"
    "held w = Some a \<longrightarrow> task_data p' a = task_data p a \<longrightarrow> unsent p' w = unsent p w"
    "held w = Some a \<longrightarrow> task_data p' a = task_data p a \<longrightarrow> unclosed p' w = unclosed p w" for p p' w a
    by (cases w; simp add: of_task_def)+
  ultimately show "local_count pending" "local_count unsent" "local_count unclosed"
    unfolding local_count_def by blast+
qed

definition queued_data :: "pool \<Rightarrow> addr list \<Rightarrow> (fd \<times> cstr) list" where
  "queued_data p as = map (\<lambda>a. the (task_data p a)) as"

definition commands :: "(fd \<times> cstr \<times> int \<times> cstr) list \<Rightarrow> (fd \<times> cstr) list" where
  "commands xs = map (\<lambda>(fd, c, st, r). (fd, c)) xs"

text \<open>The responses and the notifications that the executed commands call for.\<close>

definition answers :: "(fd \<times> cstr \<times> int \<times> cstr) list \<Rightarrow> (fd \<times> cstr) multiset" where
  "answers xs = (\<Sum>(fd, c, st, r) \<leftarrow> xs. answer fd r)"

definition closings :: "(fd \<times> cstr \<times> int \<times> cstr) list \<Rightarrow> fd multiset" where
  "closings xs = (\<Sum>(fd, c, st, r) \<leftarrow> xs. closes fd st)"

lemma history_snoc [simp]:
  "commands (xs @ [(fd, c, st, r)]) = commands xs @ [(fd, c)]"
  "answers (xs @ [(fd, c, st, r)]) = answers xs + answer fd r"
  "closings (xs @ [(fd, c, st, r)]) = closings xs + closes fd st"
  by (simp_all add: commands_def answers_def closings_def)

definition inv_count :: "state \<Rightarrow> bool" where
  "inv_count s \<longleftrightarrow> mset (taken s) = mset (commands (executed s)) + tally pending s
     \<and> answers (executed s) = mset (sent s) + tally unsent s
     \<and> closings (executed s) = mset (notify_pipe s) + tally unclosed s"

lemma worker_inv_count:
  assumes "inv_tasks as s" "inv_count s" "i < worker_count" "worker_step i s = Next s'"
  shows "inv_count s'"
proof -
  note T = worker_tally [OF assms(1,3,4)]
  note T3 = T [OF local_counts(1)] T [OF local_counts(2)] T [OF local_counts(3)]
  have data: "\<exists>fd c. task_data (queue s) a = Some (fd, c)" if "held (work s i) = Some a" for a
    using inv_tasksD(3) [OF assms(1,3) that] by fastforce
  from assms(4) show ?thesis
  proof (cases rule: worker_step_cases)
    case lock
    then show ?thesis using T3 assms(2) by (auto simp: inv_count_def)
  next
    case wait
    then show ?thesis using T3 assms(2) by (simp add: inv_count_def)
  next
    case leave
    then show ?thesis using T3 assms(2) by (simp add: inv_count_def)
  next
    case (pop a p)
    obtain d where d: "task_data (queue s) a = Some d"
      using queue_ok_dom [OF inv_tasksD(1) [OF assms(1)], of a] queue_ok_head [OF inv_tasksD(1) [OF assms(1)]] pop(3)
        inv_tasksD(1) [OF assms(1)] by (cases as) (auto simp: task_data_dom [symmetric] queue_ok_def)
    moreover have "task_data p = task_data (queue s)" using pop_data [OF pop(2)] by simp
    ultimately show ?thesis using T3 assms(2) pop(1,4)
      by (cases d) (simp add: inv_count_def of_task_def)
  next
    case (acquire a fd cmd wr)
    then have "taken s' = taken s" "executed s' = executed s" "sent s' = sent s" "notify_pipe s' = notify_pipe s"
      "work s' i = Locked wr a" by simp_all
    then show ?thesis using T3 assms(2) acquire(1,2) by (simp add: inv_count_def of_task_def)
  next
    case (begins a fd cmd wr result response t w)
    then show ?thesis using T3 assms(2) by (simp add: inv_count_def of_task_def)
  next
    case (ends a wr result response t)
    then obtain fd c where "task_data (queue s) a = Some (fd, c)" using data by fastforce
    moreover from ends(2) have "taken s' = taken s" "executed s' = executed s" "sent s' = sent s"
      "notify_pipe s' = notify_pipe s" "work s' i = Replying a result response" by simp_all
    ultimately show ?thesis using T3 assms(2) ends(1) by (simp add: inv_count_def of_task_def)
  next
    case (sends a fd cmd result response)
    then have "taken s' = taken s" "executed s' = executed s" "notify_pipe s' = notify_pipe s"
      "mset (sent s') = mset (sent s) + answer fd response" "work s' i = Closing a result" by (simp_all add: answer_def)
    then show ?thesis using T3 assms(2) sends(1,2) by (simp add: inv_count_def of_task_def ac_simps)
  next
    case (finishes a fd cmd result)
    then have "taken s' = taken s" "executed s' = executed s" "sent s' = sent s"
      "mset (notify_pipe s') = mset (notify_pipe s) + closes fd result" "work s' i = Idle" by (simp_all add: closes_def)
    then show ?thesis using T3 assms(2) finishes(1,2) by (simp add: inv_count_def of_task_def ac_simps)
  qed
qed

text \<open>The order: tasks are taken as they were accepted.\<close>

definition inv_order :: "addr list \<Rightarrow> state \<Rightarrow> bool" where
  "inv_order as s \<longleftrightarrow> accepted s = taken s @ queued_data (queue s) as"

lemma queued_data_cong:
  "(\<And>a. a \<in> set as \<Longrightarrow> task_data p' a = task_data p a) \<Longrightarrow> queued_data p' as = queued_data p as"
  by (simp add: queued_data_def)

lemma worker_inv_order:
  assumes "inv_tasks as s" "inv_order as s" "i < worker_count" "worker_step i s = Next s'" "inv_tasks as' s'"
  shows "inv_order as' s'"
proof -
  note D = inv_tasksD [OF assms(1)] and q' = inv_tasksD(1) [OF assms(5)]
  have same: "as' = as" if "queue s' = queue s" using queue_ok_unique [OF D(1)] q' that by simp
  have data: "queued_data (queue s') as = queued_data (queue s) as"
    using worker_frame(2) [OF assms(4)] D(2) [OF assms(3)] by (intro queued_data_cong) blast
  from assms(4) show ?thesis
  proof (cases rule: worker_step_cases)
    case (pop a p)
    obtain as1 where as1: "as = a # as1" using D(1) pop(3) by (cases as) (auto simp: queue_ok_def)
    with pop_first [of "queue s" a as1] D(1) pop(2) have "queue_ok p as1" by auto
    then have "as' = as1" using queue_ok_unique q' pop(4) by fastforce
    moreover have "task_data p = task_data (queue s)" using pop_data [OF pop(2)] by simp
    moreover have "task_data (queue s) a \<noteq> None"
      using queue_ok_dom [OF D(1), of a] as1 by (simp add: task_data_dom)
    ultimately show ?thesis using assms(2) pop(4) as1 by (auto simp: inv_order_def queued_data_def)
  next
    case (finishes a fd cmd result)
    then have "inv_tasks as s'" using finish_inv_tasks [OF assms(1,3), of a s'] by simp
    then have "as' = as" using queue_ok_unique [OF inv_tasksD(1)] q' by blast
    then show ?thesis using assms(2) data finishes(3) by (simp add: inv_order_def)
  qed (use same assms(2) in \<open>simp_all add: inv_order_def\<close>)
qed

lemma step_inv_count:
  assumes "inv_tasks as s" "inv_count s" "inv_order as s" "step s s'" "inv_tasks as' s'"
  shows "inv_count s' \<and> inv_order as' s'"
proof -
  note D = inv_tasksD [OF assms(1)] and q' = inv_tasksD(1) [OF assms(5)]
  have env: "inv_count s'" if "\<And>i. work s' i = work s i \<or> work s i = Sleeping \<and> work s' i = Woken"
    "\<And>a. task_data (queue s) a \<noteq> None \<Longrightarrow> task_data (queue s') a = task_data (queue s) a"
    "taken s' = taken s" "executed s' = executed s" "sent s' = sent s" "notify_pipe s' = notify_pipe s"
    using environment_tally [OF assms(1) local_counts(1) that(1,2)] environment_tally [OF assms(1) local_counts(2) that(1,2)]
      environment_tally [OF assms(1) local_counts(3) that(1,2)] assms(2) that(3-6) by (simp add: inv_count_def)
  from assms(4) D(1) show ?thesis
  proof (cases rule: step_cases_ok)
    case (worker i)
    then show ?thesis using worker_inv_count [OF assms(1,2)] worker_inv_order [OF assms(1,3) _ _ assms(5)] by blast
  next
    case (spurious i)
    have "as' = as" using queue_ok_unique [OF D(1)] q' spurious(3) by simp
    moreover have "inv_count s'" by (rule env) (use spurious(2,3) in auto)
    ultimately show ?thesis using assms(3) spurious(3) by (simp add: inv_order_def)
  next
    case refused
    then show ?thesis using queue_ok_unique [OF D(1)] q' assms(2,3) by simp
  next
    case (queued a fd c p wake)
    have q: "queue s' = p" using queued(9) by simp
    have as': "as' = as @ [a]" using queue_ok_unique [OF queued(6)] q' q by simp
    have other: "task_data p b = task_data (queue s) b" if "task_data (queue s) b \<noteq> None" for b
      using that queued(3,8) by (auto simp: task_data_def)
    have "inv_count s'"
      by (rule env) (use signal_work [OF _ queued(5)] queued(9) q other in \<open>simp_all add: signal_def split: option.split\<close>)
    moreover have "task_data (queue s) b \<noteq> None" if "b \<in> set as" for b
      using queue_ok_dom [OF D(1) that] by (simp add: task_data_dom)
    then have "queued_data p as = queued_data (queue s) as" using other by (intro queued_data_cong) blast
    then have "queued_data p as' = queued_data (queue s) as @ [(fd, take (max_command_size - 1) c)]"
      using queued(8) by (simp add: as' queued_data_def)
    ultimately show ?thesis using assms(3) queued(9) q by (simp add: inv_order_def)
  next
    case shutdown
    have data: "task_data (queue s') = task_data (queue s)" using shutdown(2) by (simp add: task_data_def fun_eq_iff)
    have "inv_count s'" by (rule env) (use shutdown(2) data in \<open>simp_all add: broadcast_def\<close>)
    moreover have "as' = as"
      using queue_ok_unique [OF inv_tasksD(1) [OF shutdown_inv_tasks [OF assms(1)]]] q' shutdown(2) by simp
    moreover have "queued_data (queue s') as = queued_data (queue s) as" by (rule queued_data_cong) (simp add: data)
    ultimately show ?thesis using assms(3) shutdown(2) by (simp add: inv_order_def)
  qed
qed

subsection \<open>A sequential execution\<close>

text \<open>The commands one after the other: what each answered, the table and the world at the end.\<close>

fun run_one :: "fd \<times> cstr \<Rightarrow> (fd \<times> cstr \<times> int \<times> cstr) list \<times> hash_table \<times> world
    \<Rightarrow> (fd \<times> cstr \<times> int \<times> cstr) list \<times> hash_table \<times> world" where
  "run_one (fd, c) (outs, t, w) =
     (case command_execute t c max_command_size w of (st, r, t, w) \<Rightarrow> (outs @ [(fd, c, st, r)], t, w))"

definition serial :: "(fd \<times> cstr) list \<Rightarrow> hash_table \<Rightarrow> world
    \<Rightarrow> (fd \<times> cstr \<times> int \<times> cstr) list \<times> hash_table \<times> world" where
  "serial cs t w = fold run_one cs ([], t, w)"

lemma serial_snoc [simp]: "serial (cs @ [c]) t w = run_one c (serial cs t w)"
  by (simp add: serial_def)

text \<open>
  The table \<open>D\<close> that the sequential execution of the commands begun so far leaves is the one in memory unless a
  writer is running, and it is the one that every running command is going to leave.
\<close>

definition inv_serial :: "hash_table \<Rightarrow> world \<Rightarrow> hash_table \<Rightarrow> state \<Rightarrow> bool" where
  "inv_serial t0 w0 D s \<longleftrightarrow> serial (commands (executed s)) t0 w0 = (executed s, D, env s)
     \<and> (\<forall>i < worker_count. \<forall>wr a st r t. work s i = Running wr a st r t \<longrightarrow> t = D)
     \<and> (db s = D \<or> (\<exists>i < worker_count. \<exists>a st r t. work s i = Running True a st r t))"

lemma quiet_inv_serial:
  assumes "inv_serial t0 w0 D s" "executed s' = executed s" "env s' = env s" "db s' = db s"
    and "\<And>i wr a st r t. i < worker_count \<Longrightarrow> work s' i = Running wr a st r t \<longleftrightarrow> work s i = Running wr a st r t"
  shows "inv_serial t0 w0 D s'"
  using assms unfolding inv_serial_def by metis

lemma inv_serialD:
  assumes "inv_serial t0 w0 D s"
  shows "serial (commands (executed s)) t0 w0 = (executed s, D, env s)"
    and "\<And>j wr a st r t. j < worker_count \<Longrightarrow> work s j = Running wr a st r t \<Longrightarrow> t = D"
    and "db s = D \<or> (\<exists>j < worker_count. \<exists>a st r t. work s j = Running True a st r t)"
  using assms unfolding inv_serial_def by blast+

text \<open>A worker that holds the lock is alone with it when it writes; a command it runs under the
shared lock is a read command, which leaves the table as it is.\<close>

lemma lock_excludes_writers:
  assumes "inv_locks s" "i < worker_count" "work s i = Locked wr a" "j < worker_count"
    "work s j = Running wr' b st r u"
  shows "\<not> wr'" and "\<not> wr"
proof -
  note L = inv_locksD [OF assms(1)]
  have "writer s = None \<or> writer s = Some i"
    using L(2,3) [OF assms(2)] assms(1,3) by (cases wr) (auto simp: inv_locks_def)
  then show "\<not> wr'" using L(3) [OF assms(4)] assms(3,5) by (cases "j = i") auto
  then have "j \<in> readers s" using L(2) [OF assms(4)] assms(5) by simp
  then have "writer s = None" using assms(1) by (auto simp: inv_locks_def)
  then show "\<not> wr" using L(3) [OF assms(2)] assms(3) by auto
qed

lemma shared_lock_reads:
  assumes "inv_tasks as s" "i < worker_count" "work s i = Locked False a"
    "task_data (queue s) a = Some (fd, cmd)" "command_execute t cmd n w = (result, response, t', w')"
  shows "t' = t"
proof -
  have "is_read_command cmd" using inv_tasksD(7) [OF assms(1,2) _ _ assms(4), of False] assms(3) by simp
  moreover have "no_nul cmd" using inv_tasksD(6) [OF assms(1,4)] .
  ultimately show ?thesis using read_command_reads assms(5) by blast
qed

lemma begins_inv_serial:
  assumes "inv_locks s" "inv_tasks as s" "inv_serial t0 w0 D s" "i < worker_count" "work s i = Locked wr a"
    "task_data (queue s) a = Some (fd, cmd)"
    "command_execute (db s) cmd max_command_size (env s) = (result, response, t, w)"
    "s' = at i (Running wr a result response t) (s\<lparr>env := w, executed := executed s @ [(fd, cmd, result, response)]\<rparr>)"
  shows "inv_serial t0 w0 t s'"
proof -
  note D = inv_serialD [OF assms(3)] and alone = lock_excludes_writers [OF assms(1,4,5)]
  have db: "db s = D" using D(3) alone(1) by blast
  have read: "t = db s" if "\<not> wr"
    using shared_lock_reads [OF assms(2,4) _ assms(6,7)] assms(5) that by simp
  have "serial (commands (executed s')) t0 w0 = (executed s', t, env s')" using D(1) assms(7,8) by (simp add: db)
  moreover have "u = t" if j: "j < worker_count" "work s' j = Running wr' b st r u" for j wr' b st r u
  proof (cases "j = i")
    case True
    then show ?thesis using j(2) assms(8) by simp
  next
    case False
    then have run: "work s j = Running wr' b st r u" using j(2) assms(8) by simp
    then show ?thesis using D(2) [OF j(1) run] read alone(2) [OF j(1) run] db by simp
  qed
  moreover have "db s' = t \<or> (\<exists>j < worker_count. \<exists>a st r t. work s' j = Running True a st r t)"
    using read assms(4,8) by (cases wr) auto
  ultimately show ?thesis unfolding inv_serial_def by blast
qed

lemma ends_inv_serial:
  assumes "inv_serial t0 w0 D s" "i < worker_count" "work s i = Running wr a result response t"
    "s' = at i (Replying a result response)
       (if wr then s\<lparr>db := t, writer := None\<rparr> else s\<lparr>db := t, readers := readers s - {i}\<rparr>)"
  shows "inv_serial t0 w0 D s'"
proof -
  note D = inv_serialD [OF assms(1)]
  have t: "t = D" using D(2) [OF assms(2,3)] .
  have run: "work s' j = Running wr' b st r u \<Longrightarrow> work s j = Running wr' b st r u" for j wr' b st r u
    unfolding assms(4) by (cases "j = i") (simp_all split: if_splits)
  have "\<forall>j < worker_count. \<forall>wr' b st r u. work s' j = Running wr' b st r u \<longrightarrow> u = D" using D(2) run by blast
  moreover have "executed s' = executed s" "env s' = env s" "db s' = D" unfolding assms(4) t by simp_all
  ultimately show ?thesis using D(1) unfolding inv_serial_def by simp
qed

lemma worker_inv_serial:
  assumes "inv_locks s" "inv_tasks as s" "inv_serial t0 w0 D s" "i < worker_count" "worker_step i s = Next s'"
  shows "\<exists>D'. inv_serial t0 w0 D' s'"
  using assms(5)
proof (cases rule: worker_step_cases)
  case (begins a fd cmd wr result response t w)
  then show ?thesis using begins_inv_serial [OF assms(1-4)] by blast
next
  case (ends a wr result response t)
  then show ?thesis using ends_inv_serial [OF assms(3,4)] by blast
qed (rule exI [of _ D]; rule quiet_inv_serial [OF assms(3)]; auto)+

lemma step_inv_serial:
  assumes "inv_locks s" "inv_tasks as s" "inv_serial t0 w0 D s" "step s s'"
  shows "\<exists>D'. inv_serial t0 w0 D' s'"
  using assms(4) inv_tasksD(1) [OF assms(2)]
proof (cases rule: step_cases_ok)
  case (worker i)
  then show ?thesis using worker_inv_serial [OF assms(1-3)] by blast
next
  case (queued a fd c p wake)
  have w: "work s' j = work s j \<or> work s j = Sleeping \<and> work s' j = Woken" for j
    using signal_work [OF _ queued(5)] queued(9) by simp
  have "work s' j = Running wr b st r t \<longleftrightarrow> work s j = Running wr b st r t" for j wr b st r t using w [of j] by auto
  then have "inv_serial t0 w0 D s'" by (intro quiet_inv_serial [OF assms(3)]) (simp_all add: queued(9))
  then show ?thesis ..
next
  case (spurious i)
  then have "inv_serial t0 w0 D s'" by (intro quiet_inv_serial [OF assms(3)]) auto
  then show ?thesis ..
next
  case shutdown
  then have "inv_serial t0 w0 D s'" by (intro quiet_inv_serial [OF assms(3)]) auto
  then show ?thesis ..
qed (use assms(3) in blast)

end
