(* ===== verification/WorkerCorrect.thy ===== *)
theory WorkerCorrect
  imports WorkerHistory
begin

text \<open>
  The theorems about the worker pool: its reachable states satisfy the invariants of the theories before,
  and from them follow mutual exclusion, memory safety, the sequential outcome, the accounting of
  tasks and replies, progress, and the end of every shutdown.
\<close>

subsection \<open>Reachable states\<close>

text \<open>All invariants together; \<open>as\<close> is the list of queued tasks, \<open>D\<close> the table of the sequential execution.\<close>

definition pool_inv :: "hash_table \<Rightarrow> world \<Rightarrow> addr list \<Rightarrow> hash_table \<Rightarrow> state \<Rightarrow> bool" where
  "pool_inv t0 w0 as D s \<longleftrightarrow> inv_locks s \<and> inv_sleep s \<and> inv_tasks as s \<and> inv_count s \<and> inv_order as s
     \<and> inv_serial t0 w0 D s"

lemma pool_invD:
  assumes "pool_inv t0 w0 as D s"
  shows "inv_locks s" "inv_sleep s" "inv_tasks as s" "inv_count s" "inv_order as s" "inv_serial t0 w0 D s"
    "queue_ok (queue s) as"
  using assms inv_tasksD(1) [of as s] unfolding pool_inv_def by blast+

lemma start_pool_inv: "pool_inv t0 w0 [] t0 (start_state t0 w0)"
proof -
  have q: "queue_ok (queue (start_state t0 w0)) []" by (simp add: start_state_def queue_ok_Nil)
  moreover have "task_data (queue (start_state t0 w0)) a = None" for a by (simp add: start_state_def task_data_def)
  ultimately show ?thesis
    by (simp add: pool_inv_def inv_locks_def inv_sleep_def inv_tasks_def inv_count_def inv_order_def inv_serial_def
        tally_def commands_def answers_def closings_def serial_def queued_data_def start_state_def worker_count_def)
qed

lemma step_pool_inv:
  assumes "pool_inv t0 w0 as D s" "step s s'"
  shows "\<exists>as' D'. pool_inv t0 w0 as' D' s'"
proof -
  note I = pool_invD [OF assms(1)]
  obtain as' where "inv_tasks as' s'" using step_inv_tasks [OF I(3) assms(2)] by blast
  moreover obtain D' where "inv_serial t0 w0 D' s'" using step_inv_serial [OF I(1,3,6) assms(2)] by blast
  ultimately show ?thesis
    using step_inv_locks [OF I(1,7) assms(2)] step_inv_sleep [OF I(2,7) assms(2)]
      step_inv_count [OF I(3,4,5) assms(2)] unfolding pool_inv_def by blast
qed

interpretation pool: kept step "\<lambda>s. \<exists>as D. pool_inv t0 w0 as D s" for t0 w0
  by unfold_locales (use step_pool_inv in blast)

lemma reachable_run: "reachable t0 w0 s \<Longrightarrow> step\<^sup>*\<^sup>* (start_state t0 w0) s"
  by (induction rule: reachable.induct) (auto intro: rtranclp.rtrancl_into_rtrancl)

lemma reachable_inv: "reachable t0 w0 s \<Longrightarrow> \<exists>as D. pool_inv t0 w0 as D s"
  using pool.run_good [OF reachable_run] start_pool_inv by blast

subsection \<open>What a worker cannot meet\<close>

text \<open>A bad pointer.\<close>

lemma worker_defined:
  assumes "inv_tasks as s" "i < worker_count"
  shows "worker_step i s \<noteq> Undefined"
proof -
  note D = inv_tasksD(1,3) [OF assms(1)]
  have data: "held (work s i) = Some a \<Longrightarrow> task_data (queue s) a \<noteq> None" for a by (rule D(2) [OF assms(2)])
  have pop: "task_pop (queue s) \<noteq> None" using D(1) pop_empty_queue pop_first by (cases as) fastforce+
  show ?thesis using data pop
    by (cases "work s i") (auto simp: worker_step_def lock_mutex_def take_task_def lock_db_def begin_command_def
      end_command_def send_reply_def finish_task_def split: option.split prod.split)
qed

text \<open>A submission of a task in new memory.\<close>

lemma submit_defined:
  assumes "queue_ok (queue s) as" "\<forall>a. block = Some a \<longrightarrow> store (queue s) a = None"
  shows "submit_step block fd c wake s \<noteq> Undefined"
proof (cases "block = None \<or> shutting_down (queue s)")
  case True
  then have "worker_pool_submit block fd (Some c) (Some (queue s)) = Some (False, Some (queue s))"
    using assms(2) submit_refused by (cases block) (auto simp: worker_pool_submit_def)
  then show ?thesis by (simp add: submit_step_def)
next
  case False
  then obtain a where "block = Some a" "store (queue s) a = None" "\<not> shutting_down (queue s)" using assms(2) by auto
  with submit_accepts [OF assms(1), of a fd c] show ?thesis by (auto simp: submit_step_def)
qed

subsection \<open>Progress\<close>

text \<open>
  Unless all workers are asleep or have left, one of them can make a step: whoever holds a lock is never
  blocked.
\<close>

lemma some_worker_steps:
  assumes "inv_locks s" "inv_tasks as s" "i < worker_count" "work s i \<noteq> Sleeping" "work s i \<noteq> Exited"
  shows "\<exists>j < worker_count. \<exists>s'. worker_step j s = Next s'"
proof -
  note L = inv_locksD [OF assms(1)]
  have go: ?thesis if "j < worker_count" "worker_step j s \<noteq> Blocked" for j
    using worker_defined [OF assms(2) that(1)] that by (cases "worker_step j s") auto
  have owner: ?thesis if "mutex s = Some j" for j
  proof -
    have j: "j < worker_count" using that assms(1) by (simp add: inv_locks_def)
    then have "work s j = Checking" using L(1) that by simp
    then show ?thesis using go [OF j] by (auto simp: worker_step_def take_task_def split: option.split)
  qed
  have holder: ?thesis if "j < worker_count" "db_lock (work s j) \<noteq> None" for j
    using that(2) go [OF that(1)]
    by (cases "work s j") (auto simp: worker_step_def begin_command_def end_command_def split: option.split prod.split)
  show ?thesis
  proof (cases "mutex s")
    case (Some j)
    then show ?thesis by (rule owner)
  next
    case None
    show ?thesis
    proof (cases "writer s = None \<and> readers s = {}")
      case True
      then have "worker_step i s \<noteq> Blocked" using assms(4,5) None
        by (cases "work s i") (auto simp: worker_step_def lock_mutex_def take_task_def lock_db_def begin_command_def
            end_command_def send_reply_def finish_task_def split: option.split prod.split)
      then show ?thesis by (rule go [OF assms(3)])
    next
      case False
      then obtain j where j: "j < worker_count" "writer s = Some j \<or> j \<in> readers s"
        using assms(1) by (auto simp: inv_locks_def)
      then have "db_lock (work s j) \<noteq> None" using L(2,3) [OF j(1)] by auto
      then show ?thesis by (rule holder [OF j(1)])
    qed
  qed
qed

subsection \<open>Systems that drain\<close>

text \<open>
  What the end of a shutdown rests on: every step makes the remaining work smaller, and as long as the system has
  not finished there is a step.  Then every run is bounded, whatever the schedule, and every run
  that cannot be continued has finished.
\<close>

locale draining = kept +
  fixes finished :: "'s \<Rightarrow> bool"
    and left :: "'s \<Rightarrow> nat"
  assumes decreases: "good s \<Longrightarrow> move s s' \<Longrightarrow> left s' < left s"
    and progress: "good s \<Longrightarrow> \<not> finished s \<Longrightarrow> \<exists>s'. move s s'"
begin

lemma run_bounded: "(move ^^ n) s s' \<Longrightarrow> good s \<Longrightarrow> n + left s' \<le> left s"
proof (induction n arbitrary: s')
  case (Suc n)
  then obtain u where u: "(move ^^ n) s u" "move u s'" by auto
  then have "good u" using relpow_good Suc.prems(2) by blast
  then have "left s' < left u" using u(2) by (rule decreases)
  with Suc.IH [OF u(1) Suc.prems(2)] show ?case by simp
qed simp

lemma run_finishes: "good s \<Longrightarrow> \<exists>s'. move\<^sup>*\<^sup>* s s' \<and> finished s'"
proof (induction "left s" arbitrary: s rule: less_induct)
  case less
  show ?case
  proof (cases "finished s")
    case False
    then obtain u where u: "move s u" using progress less.prems by blast
    with less.hyps [OF decreases [OF less.prems u]] keeps [OF less.prems u] show ?thesis
      by (meson converse_rtranclp_into_rtranclp)
  qed blast
qed

lemma run_ends: "(move ^^ n) s s' \<Longrightarrow> good s \<Longrightarrow> n \<le> left s \<and> (finished s' \<or> (\<exists>u. move s' u))"
  using run_bounded [of n s s'] relpow_good [of n s s'] progress [of s'] by auto

end

subsection \<open>Shutdown\<close>

text \<open>The steps the pool makes on its own, without the server.\<close>

definition pool_move :: "state \<Rightarrow> state \<Rightarrow> bool" where
  "pool_move s s' \<longleftrightarrow> (\<exists>i < worker_count. worker_step i s = Next s' \<or> work s i = Sleeping \<and> s' = at i Woken s)"

lemma pool_move_step: "pool_move s s' \<Longrightarrow> step s s'"
  unfolding pool_move_def by (auto intro: step.intros)

definition all_exited :: "state \<Rightarrow> bool" where
  "all_exited s \<longleftrightarrow> (\<forall>i < worker_count. work s i = Exited)"

text \<open>How many steps a worker has before it asks for the mutex for the last time, and how many are left in total.\<close>

fun rank :: "work \<Rightarrow> nat" where
  "rank Exited = 0"
| "rank Checking = 1"
| "rank Idle = 2"
| "rank Woken = 2"
| "rank Sleeping = 3"
| "rank (Closing a st) = 3"
| "rank (Replying a st r) = 4"
| "rank (Running wr a st r t) = 5"
| "rank (Locked wr a) = 6"
| "rank (Loaded a) = 7"

definition work_left :: "state \<Rightarrow> nat" where
  "work_left s = 7 * (length (accepted s) - length (taken s)) + (\<Sum>i<worker_count. rank (work s i))"

lemma rank_update:
  assumes "i < worker_count" "work s' = (work s)(i := w)"
  shows "(\<Sum>j<worker_count. rank (work s' j)) + rank (work s i) = (\<Sum>j<worker_count. rank (work s j)) + rank w"
proof -
  have "(\<Sum>j<worker_count. rank (u j)) = rank (u i) + (\<Sum>j \<in> {..<worker_count} - {i}. rank (u j))" for u
    by (rule sum.remove) (use assms(1) in auto)
  moreover have "(\<Sum>j \<in> {..<worker_count} - {i}. rank (work s' j)) = (\<Sum>j \<in> {..<worker_count} - {i}. rank (work s j))"
    by (rule sum.cong) (use assms(2) in auto)
  ultimately show ?thesis using assms(2) by simp
qed

definition closing_down :: "state \<Rightarrow> bool" where
  "closing_down s \<longleftrightarrow> shutting_down (queue s) \<and> (\<exists>t0 w0. reachable t0 w0 s)"

lemma stays_down:
  assumes "worker_step i s = Next s'"
  shows "shutting_down (queue s') = shutting_down (queue s)"
  using assms
proof (cases rule: worker_step_cases)
  case (pop a p)
  then show ?thesis using pop_data [OF pop(2)] by simp
qed simp_all

lemma work_left_less:
  assumes "pool_inv t0 w0 as D s" "shutting_down (queue s)" "i < worker_count" "worker_step i s = Next s'"
  shows "work_left s' < work_left s"
proof -
  note I = pool_invD [OF assms(1)]
  have rank: "work_left s' < work_left s"
    if "work s' = (work s)(i := w)" "rank w < rank (work s i)" "accepted s' = accepted s" "taken s' = taken s" for w
    using rank_update [OF assms(3) that(1)] that(2-4) by (simp add: work_left_def)
  from assms(4) show ?thesis
  proof (cases rule: worker_step_cases)
    case lock
    then show ?thesis by (intro rank [of Checking]) auto
  next
    case wait
    with assms(2) show ?thesis by simp
  next
    case leave
    then show ?thesis by (intro rank [of Exited]) auto
  next
    case (pop a p)
    have "as \<noteq> []" using queue_ok_head [OF I(7)] pop(3) by auto
    then have "length (taken s) < length (accepted s)" using I(5) by (simp add: inv_order_def queued_data_def)
    moreover have "task_data p a \<noteq> None"
      using pop_data [OF pop(2)] pop(3) I(7) queue_ok_dom [OF I(7), of a] by (cases as) (auto simp: queue_ok_def task_data_dom)
    then have "length (taken s') = Suc (length (taken s))" "accepted s' = accepted s" using pop(4) by auto
    moreover have "work s' = (work s)(i := Loaded a)" using pop(4) by simp
    ultimately show ?thesis using rank_update [OF assms(3), of s' s "Loaded a"] pop(1) by (simp add: work_left_def)
  next
    case (acquire a fd cmd wr)
    then show ?thesis by (intro rank [of "Locked wr a"]) auto
  next
    case (begins a fd cmd wr result response t w)
    then show ?thesis by (intro rank [of "Running wr a result response t"]) auto
  next
    case (ends a wr result response t)
    then show ?thesis by (intro rank [of "Replying a result response"]) auto
  next
    case (sends a fd cmd result response)
    then show ?thesis by (intro rank [of "Closing a result"]) auto
  next
    case (finishes a fd cmd result)
    then show ?thesis by (intro rank [of Idle]) auto
  qed
qed

text \<open>During the shutdown nobody sleeps, so that only workers move.\<close>

lemma no_sleeper:
  "pool_inv t0 w0 as D s \<Longrightarrow> shutting_down (queue s) \<Longrightarrow> i < worker_count \<Longrightarrow> work s i \<noteq> Sleeping"
  using pool_invD(2) by (fastforce simp: inv_sleep_def)

interpretation drain: draining pool_move closing_down all_exited work_left
proof unfold_locales
  fix s s'
  assume s: "closing_down s" "pool_move s s'"
  then obtain t0 w0 where r: "reachable t0 w0 s" "shutting_down (queue s)" unfolding closing_down_def by blast
  from reachable_inv [OF r(1)] obtain as D where I: "pool_inv t0 w0 as D s" by blast
  from s(2) no_sleeper [OF I r(2)] obtain i where i: "i < worker_count" "worker_step i s = Next s'"
    unfolding pool_move_def by blast
  show "work_left s' < work_left s" by (rule work_left_less [OF I r(2) i])
  show "closing_down s'" using more [OF r(1) pool_move_step [OF s(2)]] stays_down [OF i(2)] r(2)
    unfolding closing_down_def by blast
next
  fix s
  assume s: "closing_down s" "\<not> all_exited s"
  then obtain t0 w0 where r: "reachable t0 w0 s" "shutting_down (queue s)" unfolding closing_down_def by blast
  from reachable_inv [OF r(1)] obtain as D where I: "pool_inv t0 w0 as D s" by blast
  from s(2) obtain i where i: "i < worker_count" "work s i \<noteq> Exited" unfolding all_exited_def by blast
  from some_worker_steps [OF pool_invD(1,3) [OF I] i(1) no_sleeper [OF I r(2) i(1)] i(2)]
  show "\<exists>s'. pool_move s s'" unfolding pool_move_def by blast
qed

subsection \<open>Schedules\<close>

text \<open>An executable run: which worker moves, or what is submitted, with nobody asleep.\<close>

datatype event = Turn nat | Arrival addr fd cstr

fun perform :: "event \<Rightarrow> state \<Rightarrow> state action" where
  "perform (Turn i) s = (if i < worker_count then worker_step i s else Undefined)"
| "perform (Arrival a fd c) s =
     (if store (queue s) a = None \<and> no_nul c \<and> list_all (\<lambda>i. work s i \<noteq> Sleeping) [0..<worker_count]
      then submit_step (Some a) fd c None s else Undefined)"

fun run_schedule :: "event list \<Rightarrow> state \<Rightarrow> state action" where
  "run_schedule [] s = Next s"
| "run_schedule (e # es) s =
     (case perform e s of Blocked \<Rightarrow> Blocked | Undefined \<Rightarrow> Undefined | Next s' \<Rightarrow> run_schedule es s')"

lemma perform_step: "perform e s = Next s' \<Longrightarrow> step s s'"
proof (cases e)
  case (Turn i)
  assume "perform e s = Next s'"
  with Turn show ?thesis by (intro step.worker [of i]) (auto split: if_splits)
next
  case (Arrival a fd c)
  assume "perform e s = Next s'"
  with Arrival show ?thesis
    by (intro step.submit [of "Some a" s None c fd])
      (auto simp: may_wake_def list_all_iff split: if_splits)
qed

lemma run_schedule_reachable:
  "run_schedule es s = Next s' \<Longrightarrow> reachable t0 w0 s \<Longrightarrow> reachable t0 w0 s'"
proof (induction es arbitrary: s)
  case (Cons e es)
  then obtain u where u: "perform e s = Next u" "run_schedule es u = Next s'" by (auto split: action.splits)
  from Cons.IH [OF u(2) more [OF Cons.prems(2) perform_step [OF u(1)]]] show ?case .
qed simp

text \<open>Two commands of one client: worker 0 takes the first, but worker 1, with the second, is faster.\<close>

definition overtaking :: "event list" where
  "overtaking = [Arrival 1 9 ''SET k v'', Arrival 2 9 ''GET k'', Turn 0, Turn 0, Turn 1, Turn 1,
     Turn 1, Turn 1, Turn 1, Turn 0, Turn 0]"

lemma overtaking_run:
  "\<exists>s st r t w st' r' t' w'. command_execute t0 ''GET k'' 1024 w0 = (st, r, t, w)
    \<and> command_execute t ''SET k v'' 1024 w = (st', r', t', w')
    \<and> run_schedule overtaking (start_state t0 w0) = Next s
    \<and> work s 0 = Running True 1 st' r' t' \<and> work s 1 = Replying 2 st r
    \<and> accepted s = [(9, ''SET k v''), (9, ''GET k'')]
    \<and> executed s = [(9, ''GET k'', st, r), (9, ''SET k v'', st', r')]"
proof -
  obtain st r t w where e1: "command_execute t0 ''GET k'' 1024 w0 = (st, r, t, w)" by (metis prod_cases4)
  obtain st' r' t' w' where e2: "command_execute t ''SET k v'' 1024 w = (st', r', t', w')" by (metis prod_cases4)
  have n: "no_nul ''SET k v''" "no_nul ''GET k''" by (simp_all add: no_nul_def)
  have reads: "is_read_command ''GET k''" "\<not> is_read_command ''SET k v''" by code_simp+
  have upt: "[0..<worker_count] = [0, 1, 2, 3]" by code_simp
  show ?thesis
    by (simp add: overtaking_def e1 e2 n reads upt start_state_def submit_step_def worker_pool_submit_def
        task_push_def task_pop_def new_task_def worker_step_def lock_mutex_def take_task_def lock_db_def
        begin_command_def end_command_def task_data_def max_command_size_def signal_def Let_def worker_count_def list_all_iff)
qed

lemma overtaking_reachable:
  obtains s st' r' t' where "reachable t0 w0 s" "work s 0 = Running True 1 st' r' t'"
    "\<exists>st r. work s 1 = Replying 2 st r"
  using overtaking_run [of t0 w0] run_schedule_reachable [OF _ start] by blast

subsection \<open>Properties\<close>

text \<open>
  C19: mutual exclusion.  In every reachable state, while a worker holds the database lock for writing no
  other worker holds it, for reading or for writing, and at most one worker is in the critical
  section of the queue mutex.
\<close>

theorem locks_exclude:
  assumes "reachable t0 w0 s" "i < worker_count" "j < worker_count" "i \<noteq> j"
  shows "\<not> (db_lock (work s i) = Some True \<and> db_lock (work s j) \<noteq> None)
    \<and> \<not> (work s i = Checking \<and> work s j = Checking)"
proof -
  obtain as D where "pool_inv t0 w0 as D s" using reachable_inv [OF assms(1)] by blast
  then have L: "inv_locks s" by (rule pool_invD)
  have "db_lock (work s j) = None \<or> writer s = Some j \<or> j \<in> readers s"
    using inv_locksD(2,3) [OF L assms(3)] by (metis (full_types) option.exhaust)
  then show ?thesis
    using inv_locksD(1,3) [OF L assms(2)] inv_locksD(1) [OF L assms(3)] assms(4) L by (auto simp: inv_locks_def)
qed

theorem locks_exclude_witness:
  "\<exists>s. reachable (empty_table 8) (calm 0 Map.empty) s \<and> db_lock (work s 0) = Some True \<and> db_lock (work s 1) = None"
proof -
  obtain s st' r' t' where s: "reachable (empty_table 8) (calm 0 Map.empty) s" "work s 0 = Running True 1 st' r' t'"
    by (rule overtaking_reachable)
  from s(2) have "db_lock (work s 0) = Some True" by simp
  moreover from locks_exclude [OF s(1), of 0 1] this have "db_lock (work s 1) = None" by (simp add: worker_count_def)
  ultimately show ?thesis using s(1) by blast
qed

text \<open>
  C12: no bad pointer.  In every reachable state, whatever the interleaving was, no step of a worker and no submission
  of a task in unused memory reads a task that was freed or never allocated.
\<close>

theorem no_bad_pointer:
  assumes "reachable t0 w0 s"
  shows "(i < worker_count \<longrightarrow> worker_step i s \<noteq> Undefined)
    \<and> ((\<forall>a. block = Some a \<longrightarrow> store (queue s) a = None) \<longrightarrow> submit_step block fd c wake s \<noteq> Undefined)"
proof -
  obtain as D where "pool_inv t0 w0 as D s" using reachable_inv [OF assms] by blast
  then have "inv_tasks as s" "queue_ok (queue s) as" by (auto dest: pool_invD)
  then show ?thesis using worker_defined submit_defined by blast
qed

theorem no_bad_pointer_witness:
  "worker_step 3 (start_state (empty_table 8) (calm 0 Map.empty)) \<noteq> Undefined
    \<and> submit_step (Some 1) 9 ''PING'' None (start_state (empty_table 8) (calm 0 Map.empty)) \<noteq> Undefined"
  using no_bad_pointer [OF start, of 3 "empty_table 8" "calm 0 Map.empty" "Some 1" 9 "''PING''" None]
  by (simp add: worker_count_def start_state_def)

text \<open>
  C3: the pool is sequentially consistent.  In every reachable state the statuses and the responses are those that
  \<open>command_execute\<close> gives when the commands begun so far are executed one after the other, in the
  order in which they began, on the initial table; the environment (the append-only file with it) is the one
  this execution leaves, and so is the table in memory whenever no writer is running.
\<close>

theorem outcome_is_sequential:
  assumes "reachable t0 w0 s"
  shows "\<exists>t. serial (commands (executed s)) t0 w0 = (executed s, t, env s)
    \<and> (db s = t \<or> (\<exists>i < worker_count. \<exists>a st r t'. work s i = Running True a st r t'))"
proof -
  obtain as D where "pool_inv t0 w0 as D s" using reachable_inv [OF assms] by blast
  then have "inv_serial t0 w0 D s" by (rule pool_invD)
  then show ?thesis unfolding inv_serial_def by blast
qed

theorem outcome_is_sequential_witness:
  "\<exists>s t. run_schedule overtaking (start_state (empty_table 8) (calm 0 Map.empty)) = Next s
    \<and> serial [(9, ''GET k''), (9, ''SET k v'')] (empty_table 8) (calm 0 Map.empty) = (executed s, t, env s)"
proof -
  obtain s st r st' r' where s: "run_schedule overtaking (start_state (empty_table 8) (calm 0 Map.empty)) = Next s"
      "executed s = [(9, ''GET k'', st, r), (9, ''SET k v'', st', r')]"
    using overtaking_run [of "empty_table 8" "calm 0 Map.empty"] by blast
  from outcome_is_sequential [OF run_schedule_reachable [OF s(1) start]] s show ?thesis
    by (auto simp: commands_def)
qed

text \<open>
  C11: every task once, in order.  In every reachable state the accepted tasks are those taken, in the order in which
  they were taken, followed by those in the queue; a task that was taken has been executed exactly once or a
  worker still holds it; and the responses sent and the notifications written are exactly those
  of the executed commands but for the ones the workers still owe.
\<close>

theorem tasks_accounted:
  assumes "reachable t0 w0 s"
  shows "\<exists>as. queue_ok (queue s) as \<and> accepted s = taken s @ queued_data (queue s) as
    \<and> mset (taken s) = mset (commands (executed s)) + tally pending s
    \<and> answers (executed s) = mset (sent s) + tally unsent s
    \<and> closings (executed s) = mset (notify_pipe s) + tally unclosed s"
proof -
  obtain as D where "pool_inv t0 w0 as D s" using reachable_inv [OF assms] by blast
  then have "queue_ok (queue s) as" "inv_count s" "inv_order as s" by (auto dest: pool_invD)
  then show ?thesis unfolding inv_count_def inv_order_def by blast
qed

theorem tasks_accounted_witness:
  "\<exists>s. run_schedule overtaking (start_state (empty_table 8) (calm 0 Map.empty)) = Next s
    \<and> length (taken s) = 2 + size (tally pending s) \<and> mset (taken s) = mset (commands (executed s)) + tally pending s"
proof -
  obtain s st r st' r' where s: "run_schedule overtaking (start_state (empty_table 8) (calm 0 Map.empty)) = Next s"
      "executed s = [(9, ''GET k'', st, r), (9, ''SET k v'', st', r')]"
    using overtaking_run [of "empty_table 8" "calm 0 Map.empty"] by blast
  from tasks_accounted [OF run_schedule_reachable [OF s(1) start]]
  have "mset (taken s) = mset (commands (executed s)) + tally pending s" by blast
  moreover from this have "length (taken s) = length (commands (executed s)) + size (tally pending s)"
    by (metis size_mset size_union)
  ultimately show ?thesis using s by (auto simp: commands_def)
qed

text \<open>
  C9: the pool is never stuck.  In every reachable state in which a task is queued or in the hands of a
  worker, some worker can make a step: no wake-up is lost and the locks do not deadlock.
\<close>

theorem pool_not_stuck:
  assumes "reachable t0 w0 s" "head (queue s) \<noteq> None \<or> (\<exists>i < worker_count. held (work s i) \<noteq> None)"
  shows "\<exists>j < worker_count. \<exists>s'. worker_step j s = Next s'"
proof -
  obtain as D where "pool_inv t0 w0 as D s" using reachable_inv [OF assms(1)] by blast
  note I = pool_invD [OF this]
  have "\<exists>i < worker_count. work s i \<noteq> Sleeping \<and> work s i \<noteq> Exited"
    using assms(2)
  proof
    assume "head (queue s) \<noteq> None"
    moreover have "head (queue s) = None \<or> (\<exists>i < worker_count. work s i \<noteq> Sleeping \<and> work s i \<noteq> Exited)"
      using I(2) unfolding inv_sleep_def by (elim conjE)
    ultimately show "\<exists>i < worker_count. work s i \<noteq> Sleeping \<and> work s i \<noteq> Exited" by (elim disjE) simp_all
  next
    assume "\<exists>i < worker_count. held (work s i) \<noteq> None"
    then show ?thesis by (metis held.simps(8,10))
  qed
  then show ?thesis using some_worker_steps [OF I(1,3)] by blast
qed

theorem pool_not_stuck_witness:
  "\<exists>s. reachable (empty_table 8) (calm 0 Map.empty) s \<and> (\<exists>j < worker_count. \<exists>s'. worker_step j s = Next s')"
proof -
  obtain s st' r' t' where s: "reachable (empty_table 8) (calm 0 Map.empty) s" "work s 0 = Running True 1 st' r' t'"
    by (rule overtaking_reachable)
  from s(2) have "\<exists>i < worker_count. held (work s i) \<noteq> None" by (intro exI [of _ 0]) (simp add: worker_count_def)
  with pool_not_stuck [OF s(1)] s(1) show ?thesis by blast
qed

text \<open>
  C10: every shutdown ends.  Once \<open>shutting_down\<close> is set, no step other than those of the workers changes the state,
  every run of the workers is at most \<open>work_left\<close> steps long, whatever the schedule, and a run that cannot be continued
  has ended with all four workers at the end of \<open>worker_main\<close>, so that the joins return.
\<close>

theorem shutdown_terminates:
  assumes "reachable t0 w0 s" "shutting_down (queue s)"
  shows "(\<forall>u. step s u \<longrightarrow> u = s \<or> pool_move s u)
    \<and> (\<forall>n u. (pool_move ^^ n) s u \<longrightarrow> n \<le> work_left s \<and> (all_exited u \<or> (\<exists>v. pool_move u v)))
    \<and> (\<exists>u. pool_move\<^sup>*\<^sup>* s u \<and> all_exited u)"
proof -
  have c: "closing_down s" using assms unfolding closing_down_def by blast
  obtain as D where I: "pool_inv t0 w0 as D s" using reachable_inv [OF assms(1)] by blast
  have "u = s \<or> pool_move s u" if "step s u" for u
    using that pool_invD(7) [OF I]
  proof (cases rule: step_cases_ok)
    case shutdown
    have "(\<lambda>i. if i < worker_count \<and> work s i = Sleeping then Woken else work s i) = work s"
      using no_sleeper [OF I assms(2)] by (simp add: fun_eq_iff)
    moreover have "(queue s)\<lparr>shutting_down := True\<rparr> = queue s" using assms(2) by (cases "queue s") simp
    ultimately have "u = s\<lparr>queue := queue s, work := work s\<rparr>" using shutdown(2) by (simp add: broadcast_def)
    then have "u = s" by (cases s) simp
    then show ?thesis ..
  qed (use assms(2) in \<open>auto simp: pool_move_def\<close>)
  then show ?thesis using drain.run_ends [OF _ c] drain.run_finishes [OF c] by blast
qed

theorem shutdown_terminates_witness:
  "\<exists>s u. shutdown_step (start_state (empty_table 8) (calm 0 Map.empty)) = Next s \<and> pool_move\<^sup>*\<^sup>* s u \<and> all_exited u"
proof -
  obtain s where s: "shutdown_step (start_state (empty_table 8) (calm 0 Map.empty)) = Next s" "shutting_down (queue s)"
    by (simp add: shutdown_step_def start_state_def)
  from shutdown_terminates [OF more [OF start step.shutdown [OF s(1)]] s(2)] s(1) show ?thesis by blast
qed

text \<open>
  C35: pipelined commands can overtake each other.  From the start of any pool there is a schedule in which one client sends
  \<open>SET k v\<close> and then \<open>GET k\<close>, both are accepted in this order, and the \<open>GET\<close> is executed first: the order of submission
  is the order in which tasks are taken, not the one in which they are executed.
\<close>

theorem pipelined_commands_overtake:
  "\<exists>s st r st' r'. reachable t0 w0 s \<and> accepted s = [(9, ''SET k v''), (9, ''GET k'')]
    \<and> executed s = [(9, ''GET k'', st, r), (9, ''SET k v'', st', r')]"
  using overtaking_run [of t0 w0] run_schedule_reachable [OF _ start] by blast

end
