(* ===== verification/PoolLifecycle.thy ===== *)
theory PoolLifecycle
  imports WorkerCorrect
begin

text \<open>
  The life of a worker pool: \<open>worker_pool_init\<close> with its failure paths and \<open>worker_pool_destroy\<close>.

  The calls that create a resource may fail; the argument \<open>ok\<close> of the model says which succeed.
  A list records what is initialised and not yet destroyed, closed or joined; releasing something that
  is not on it is undefined in C and \<open>None\<close> in the model.
\<close>

datatype resource = Pipe_end nat | Queue_mutex | Queue_cond | Db_lock | Worker_thread nat

fun release :: "resource list \<Rightarrow> resource list \<Rightarrow> resource list option" where
  "release [] live = Some live"
| "release (r # rs) live = (if r \<in> set live then release rs (remove1 r live) else None)"

text \<open>The loop that creates the threads; when one cannot be created the others are joined and everything is undone.\<close>

function start_workers :: "(resource \<Rightarrow> bool) \<Rightarrow> nat \<Rightarrow> resource list \<Rightarrow> (bool \<times> resource list) option" where
  "start_workers ok i live =
     (if i < worker_count then
        (if \<not> ok (Worker_thread i) then
           map_option (Pair False)
             (release (map Worker_thread [0..<i] @ [Db_lock, Queue_cond, Queue_mutex, Pipe_end 0, Pipe_end 1]) live)
         else start_workers ok (i + 1) (live @ [Worker_thread i]))
      else Some (True, live))"
  by auto
termination by (relation "measure (\<lambda>(ok, i, live). worker_count - i)") auto

declare start_workers.simps [simp del]

text \<open>
  The result, and what is live afterwards; \<open>present\<close> says that neither argument is \<open>NULL\<close>.  \<^verbatim>\<open>pipe\<close> makes both ends or
  none, its outcome is the one of \<open>Pipe_end 0\<close>.
\<close>

definition worker_pool_init :: "bool \<Rightarrow> (resource \<Rightarrow> bool) \<Rightarrow> (bool \<times> resource list) option" where
  "worker_pool_init present ok =
     (if \<not> present then Some (False, [])
      else if \<not> ok (Pipe_end 0) then Some (False, [])
      else
        let live = [Pipe_end 0, Pipe_end 1] in
        if \<not> ok Queue_mutex then map_option (Pair False) (release [Pipe_end 0, Pipe_end 1] live)
        else
          let live = live @ [Queue_mutex] in
          if \<not> ok Queue_cond then map_option (Pair False) (release [Queue_mutex, Pipe_end 0, Pipe_end 1] live)
          else
            let live = live @ [Queue_cond] in
            if \<not> ok Db_lock then
              map_option (Pair False) (release [Queue_cond, Queue_mutex, Pipe_end 0, Pipe_end 1] live)
            else start_workers ok 0 (live @ [Db_lock]))"

definition worker_pool_get_notify_fd :: "(fd \<times> fd) option \<Rightarrow> fd" where
  "worker_pool_get_notify_fd pipe_fds = (case pipe_fds of None \<Rightarrow> -1 | Some (r, w) \<Rightarrow> r)"

text \<open>
  \<open>worker_pool_destroy\<close>: the critical section that starts the shutdown, once the mutex is free; the workers run
  until all four have returned, which is when the joins return; then the rest of the queue is freed
  under the mutex and everything is released.
\<close>

inductive worker_pool_destroy :: "state \<Rightarrow> resource list \<Rightarrow> state \<Rightarrow> resource list \<Rightarrow> bool" where
  "pool_move\<^sup>*\<^sup>* s s0 \<Longrightarrow> shutdown_step s0 = Next s1 \<Longrightarrow>
   pool_move\<^sup>*\<^sup>* s1 s2 \<Longrightarrow> all_exited s2 \<Longrightarrow> release (map Worker_thread [0..<worker_count]) live = Some live1 \<Longrightarrow>
   mutex s2 = None \<Longrightarrow> drop_queue (queue s2) = Some p \<Longrightarrow>
   release [Db_lock, Queue_cond, Queue_mutex, Pipe_end 0, Pipe_end 1] live1 = Some live2 \<Longrightarrow>
   worker_pool_destroy s live (s2\<lparr>queue := p\<rparr>) live2"

inductive_cases worker_pool_destroyE: "worker_pool_destroy s live s' live'"

subsection \<open>The four workers\<close>

definition all_resources :: "resource list" where
  "all_resources = [Pipe_end 0, Pipe_end 1, Queue_mutex, Queue_cond, Db_lock] @ map Worker_thread [0..<worker_count]"

lemma four: "[0..<worker_count] = [0, 1, 2, 3]"
  by code_simp

lemma start_workers_all:
  "start_workers ok 0 [Pipe_end 0, Pipe_end 1, Queue_mutex, Queue_cond, Db_lock] =
     Some (if \<forall>i < worker_count. ok (Worker_thread i) then (True, all_resources) else (False, []))"
proof -
  have all: "(\<forall>i < worker_count. P i) \<longleftrightarrow> P 0 \<and> P 1 \<and> P 2 \<and> P 3" for P
    unfolding worker_count_def by (auto simp: numeral_eq_Suc less_Suc_eq)
  have w: "worker_count = 4" by (rule worker_count_def)
  show ?thesis unfolding all
    by (subst start_workers.simps, subst start_workers.simps, subst start_workers.simps, subst start_workers.simps,
        subst start_workers.simps) (simp add: w all_resources_def upt_rec numeral_eq_Suc)
qed

lemma release_all:
  "release (map Worker_thread [0..<worker_count]) all_resources = Some [Pipe_end 0, Pipe_end 1, Queue_mutex, Queue_cond, Db_lock]"
  "release [Db_lock, Queue_cond, Queue_mutex, Pipe_end 0, Pipe_end 1] [Pipe_end 0, Pipe_end 1, Queue_mutex, Queue_cond, Db_lock]
     = Some []"
  by (simp_all add: all_resources_def four)

subsection \<open>The end of the pool\<close>

lemma pool_moves_reachable: "pool_move\<^sup>*\<^sup>* s u \<Longrightarrow> reachable t0 w0 s \<Longrightarrow> reachable t0 w0 u"
  by (induction rule: rtranclp_induct) (auto intro: more pool_move_step)

lemma worker_accepted:
  assumes "worker_step i s = Next s'"
  shows "accepted s' = accepted s"
  using assms by (cases rule: worker_step_cases) simp_all

lemma pool_moves_accepted: "pool_move\<^sup>*\<^sup>* s u \<Longrightarrow> accepted u = accepted s"
  by (induction rule: rtranclp_induct) (auto simp: pool_move_def worker_accepted)

text \<open>The mutex becomes free: its owner releases it with its next step.\<close>

lemma mutex_released:
  assumes "pool_inv t0 w0 as D s"
  shows "\<exists>u. pool_move\<^sup>*\<^sup>* s u \<and> mutex u = None"
proof (cases "mutex s")
  case None
  then show ?thesis by blast
next
  case (Some i)
  note I = pool_invD [OF assms]
  have i: "i < worker_count" using I(1) Some by (simp add: inv_locks_def)
  then have "work s i = Checking" using inv_locksD(1) [OF I(1)] Some by simp
  then have t: "worker_step i s = take_task i s" by (simp add: worker_step_def)
  then have "take_task i s \<noteq> Undefined" using worker_defined [OF I(3) i] by simp
  then obtain u where "take_task i s = Next u" "mutex u = None"
    by (auto simp: take_task_def split: option.splits if_splits)
  then have "pool_move s u" "mutex u = None" using i t by (auto simp: pool_move_def)
  then show ?thesis by blast
qed

lemma tally_exited: "local_count F \<Longrightarrow> all_exited s \<Longrightarrow> tally F s = {#}"
  using local_countD(1) [of F Exited] by (simp add: tally_def all_exited_def)

text \<open>When all workers have left, nothing is queued, nothing is owed and the table is the sequential one.\<close>

lemma all_exited_final:
  assumes "pool_inv t0 w0 as D s" "all_exited s"
  shows "mutex s = None \<and> as = [] \<and> store (queue s) = Map.empty \<and> mset (commands (executed s)) = mset (accepted s)
    \<and> mset (sent s) = answers (executed s) \<and> mset (notify_pipe s) = closings (executed s)
    \<and> serial (commands (executed s)) t0 w0 = (executed s, db s, env s)"
proof -
  note I = pool_invD [OF assms(1)]
  have e: "i < worker_count \<Longrightarrow> work s i = Exited" for i using assms(2) by (simp add: all_exited_def)
  have "mutex s \<noteq> Some i" for i
  proof
    assume m: "mutex s = Some i"
    then have i: "i < worker_count" using I(1) by (simp add: inv_locks_def)
    with m e [OF i] inv_locksD(1) [OF I(1) i] show False by simp
  qed
  then have "mutex s = None" by (metis option.exhaust)
  moreover have zero: "0 < worker_count" by (simp add: worker_count_def)
  have "head (queue s) = None" using I(2) e [OF zero] zero unfolding inv_sleep_def by blast
  then have as: "as = []" using queue_ok_head [OF I(7)] by simp
  moreover have "task_data (queue s) a = None" for a using inv_tasksD(5) [OF I(3)] as e by fastforce
  then have "store (queue s) = Map.empty" by (simp add: task_data_def fun_eq_iff)
  moreover have "tally pending s = {#}" "tally unsent s = {#}" "tally unclosed s = {#}"
    using assms(2) by (simp_all add: tally_exited)
  moreover have "accepted s = taken s" using I(5) as by (simp add: inv_order_def queued_data_def)
  moreover have S: "serial (commands (executed s)) t0 w0 = (executed s, D, env s)"
    "db s = D \<or> (\<exists>i < worker_count. \<exists>a st r t. work s i = Running True a st r t)"
    using I(6) unfolding inv_serial_def by blast+
  moreover from S(2) have "db s = D"
  proof
    assume "\<exists>i < worker_count. \<exists>a st r t. work s i = Running True a st r t"
    then obtain i a st r t where "i < worker_count" "work s i = Running True a st r t" by blast
    with e [of i] show ?thesis by simp
  qed
  ultimately show ?thesis using I(4) as by (simp add: inv_count_def)
qed

lemma destroy_returns:
  assumes "reachable t0 w0 s"
  shows "\<exists>s'. worker_pool_destroy s all_resources s' []"
proof -
  obtain as D where I: "pool_inv t0 w0 as D s" using reachable_inv [OF assms] by blast
  obtain s0 where s0: "pool_move\<^sup>*\<^sup>* s s0" "mutex s0 = None" using mutex_released [OF I] by blast
  then obtain s1 where s1: "shutdown_step s0 = Next s1" "shutting_down (queue s1)" by (simp add: shutdown_step_def)
  have r1: "reachable t0 w0 s1" using more [OF pool_moves_reachable [OF s0(1) assms] step.shutdown [OF s1(1)]] .
  then have "closing_down s1" using s1(2) unfolding closing_down_def by blast
  then obtain s2 where s2: "pool_move\<^sup>*\<^sup>* s1 s2" "all_exited s2" using drain.run_finishes by blast
  obtain as2 D2 where I2: "pool_inv t0 w0 as2 D2 s2"
    using reachable_inv [OF pool_moves_reachable [OF s2(1) r1]] by blast
  from all_exited_final [OF I2 s2(2)] have m: "mutex s2 = None" by blast
  have "free_tasks (head (queue s2)) (store (queue s2)) \<noteq> None"
    using free_tasks_linked [of "store (queue s2)" "head (queue s2)" as2] pool_invD(7) [OF I2]
    by (simp add: queue_ok_def)
  then obtain p where "drop_queue (queue s2) = Some p" by (auto simp: drop_queue_def)
  from worker_pool_destroy.intros [OF s0(1) s1(1) s2 release_all(1) m this release_all(2)]
  show ?thesis by blast
qed

lemma destroy_outcome:
  assumes "reachable t0 w0 s" "worker_pool_destroy s all_resources s' live"
  shows "live = [] \<and> store (queue s') = Map.empty \<and> accepted s' = accepted s
    \<and> mset (commands (executed s')) = mset (accepted s) \<and> mset (sent s') = answers (executed s')
    \<and> mset (notify_pipe s') = closings (executed s')
    \<and> serial (commands (executed s')) t0 w0 = (executed s', db s', env s')"
proof -
  from assms(2) obtain s0 s1 s2 p where d: "pool_move\<^sup>*\<^sup>* s s0" "shutdown_step s0 = Next s1" "pool_move\<^sup>*\<^sup>* s1 s2"
    "all_exited s2" "drop_queue (queue s2) = Some p" "s' = s2\<lparr>queue := p\<rparr>" "live = []"
    using release_all by (elim worker_pool_destroyE) auto
  have r2: "reachable t0 w0 s2"
    using pool_moves_reachable [OF d(3) more [OF pool_moves_reachable [OF d(1) assms(1)] step.shutdown [OF d(2)]]] .
  then obtain as2 D2 where I2: "pool_inv t0 w0 as2 D2 s2" using reachable_inv by blast
  have "accepted s1 = accepted s0" using d(2) by (simp add: shutdown_step_iff)
  then have acc: "accepted s2 = accepted s" using pool_moves_accepted [OF d(1)] pool_moves_accepted [OF d(3)] by simp
  note F = all_exited_final [OF I2 d(4)]
  then have "head (queue s2) = None" "store (queue s2) = Map.empty" using pool_invD(7) [OF I2] by (auto simp: queue_ok_Nil)
  then have "store p = Map.empty" using d(5) by (auto simp: drop_queue_def free_tasks.simps)
  with F acc d(6,7) show ?thesis by simp
qed

subsection \<open>Properties\<close>

text \<open>
  C32: the initialisation of the pool is all or nothing.  It succeeds, with everything live, exactly when its
  arguments are not \<open>NULL\<close> and every call succeeds; otherwise it reports failure, nothing is left behind,
  and nothing was released that had not been initialised.
\<close>

theorem init_all_or_nothing:
  "worker_pool_init present ok =
     Some (if present \<and> ok (Pipe_end 0) \<and> ok Queue_mutex \<and> ok Queue_cond \<and> ok Db_lock
             \<and> list_all (\<lambda>i. ok (Worker_thread i)) [0..<worker_count]
           then (True, all_resources) else (False, []))"
proof -
  have "(\<forall>i < worker_count. P i) \<longleftrightarrow> list_all P [0..<worker_count]" for P by (auto simp: list_all_iff)
  then show ?thesis using start_workers_all [of ok] by (simp add: worker_pool_init_def Let_def)
qed

text \<open>
  C20: the shutdown completes the work.  In every reachable state \<open>worker_pool_destroy\<close> can return, and when it does
  every resource is released, no task is left in memory, every accepted task has been executed exactly once,
  every response was sent and every notification written, and the table and the file are those of the
  sequential execution of the commands.
\<close>

theorem destroy_completes_work:
  assumes "reachable t0 w0 s"
  shows "(\<exists>s'. worker_pool_destroy s all_resources s' [])
    \<and> (\<forall>s' live. worker_pool_destroy s all_resources s' live \<longrightarrow>
        live = [] \<and> store (queue s') = Map.empty \<and> accepted s' = accepted s
        \<and> mset (commands (executed s')) = mset (accepted s) \<and> mset (sent s') = answers (executed s')
        \<and> mset (notify_pipe s') = closings (executed s')
        \<and> serial (commands (executed s')) t0 w0 = (executed s', db s', env s'))"
  using destroy_returns [OF assms] destroy_outcome [OF assms] by blast

theorem destroy_completes_work_witness:
  "\<exists>s s'. reachable (empty_table 8) (calm 0 Map.empty) s \<and> length (accepted s) = 2
    \<and> worker_pool_destroy s all_resources s' [] \<and> size (mset (commands (executed s'))) = 2"
proof -
  obtain s where s: "reachable (empty_table 8) (calm 0 Map.empty) s" "accepted s = [(9, ''SET k v''), (9, ''GET k'')]"
    using overtaking_run [of "empty_table 8" "calm 0 Map.empty"] run_schedule_reachable [OF _ start] by blast
  note D = destroy_completes_work [OF s(1)]
  then obtain s' where "worker_pool_destroy s all_resources s' []" by blast
  with D s show ?thesis by (metis length_Cons list.size(3) size_mset numeral_2_eq_2)
qed

end
