(* ===== verification/Server.thy ===== *)
theory Server
  imports Framing PoolLifecycle
begin

text \<open>
  The server thread of \<^verbatim>\<open>src/server.c\<close>: the sixteen client slots, one round of the \<^verbatim>\<open>select\<close> loop, and
  \<open>server_start\<close> with its failure paths.

  The three parallel arrays \<open>client_fds\<close>, \<open>client_buffers\<close> and \<open>client_buffer_lengths\<close> are one list of slots; \<open>-1\<close>
  marks a free one, as in the code.  What \<^verbatim>\<open>select\<close> and the calls on the ready descriptors return is the input of a
  round.  The lemmas show that slots and descriptors are accounted for, that no buffer is left, and
  that \<open>server_start\<close> closes whatever it opened.
\<close>

definition max_clients :: nat where
  "max_clients = 16"

subsection \<open>Slots\<close>

text \<open>The first slot with the descriptor is closed and freed.\<close>

fun close_client :: "fd \<Rightarrow> client_slot list \<Rightarrow> client_slot list \<times> effect list" where
  "close_client fd [] = ([], [])"
| "close_client fd (c # cs) =
     (if slot_fd c = fd then (c\<lparr>slot_fd := -1, buf := (buf c)[0 := NUL], len := 0\<rparr> # cs, [Closed fd])
      else (case close_client fd cs of (cs, es) \<Rightarrow> (c # cs, es)))"

text \<open>The first free slot takes the new client; \<open>None\<close> when there is none.\<close>

fun add_client :: "fd \<Rightarrow> client_slot list \<Rightarrow> client_slot list option" where
  "add_client fd [] = None"
| "add_client fd (c # cs) =
     (if slot_fd c = -1 then Some (c\<lparr>slot_fd := fd, buf := (buf c)[0 := NUL], len := 0\<rparr> # cs)
      else map_option (Cons c) (add_client fd cs))"

definition accept_client :: "fd \<Rightarrow> client_slot list \<Rightarrow> net \<Rightarrow> (client_slot list \<times> net \<times> effect list) option" where
  "accept_client fd slots net =
     (case add_client fd slots of
        Some slots \<Rightarrow> Some (slots, net, [Opened fd])
      | None \<Rightarrow>
          map_option (\<lambda>(net, es). (slots, net, Opened fd # es @ [Closed fd]))
            (tell fd (''ERR server busy'' @ [NL]) net))"

subsection \<open>One round\<close>

datatype recv_event = Received string | Recv_interrupted | Recv_failed

datatype accept_event = Accepted fd | Accept_failed

text \<open>One action after the other; the effects are those of both.\<close>

definition and_then :: "(client_slot list \<times> net \<times> effect list) option \<Rightarrow> (client_slot list \<Rightarrow> net \<Rightarrow> (client_slot list \<times> net \<times> effect list) option)
    \<Rightarrow> (client_slot list \<times> net \<times> effect list) option" where
  "and_then r f =
     (case r of
        None \<Rightarrow> None
      | Some (slots, net, es) \<Rightarrow> map_option (\<lambda>(slots, net, es'). (slots, net, es @ es')) (f slots net))"

definition close_step :: "fd \<Rightarrow> client_slot list \<Rightarrow> net \<Rightarrow> (client_slot list \<times> net \<times> effect list) option" where
  "close_step fd slots net = (case close_client fd slots of (slots, es) \<Rightarrow> Some (slots, net, es))"

text \<open>
  What is ready: the descriptor read from the notification pipe (\<open>None\<close> also when the \<^verbatim>\<open>read\<close> fails), the
  result of \<^verbatim>\<open>accept\<close>, and for a client whose bit is set the result of \<^verbatim>\<open>recv\<close>.
\<close>

record input =
  notified :: "fd option"
  incoming :: "accept_event option"
  readable :: "fd \<Rightarrow> recv_event option"

definition handle_client :: "(fd \<Rightarrow> recv_event option) \<Rightarrow> nat \<Rightarrow> client_slot list \<Rightarrow> net
    \<Rightarrow> (client_slot list \<times> net \<times> effect list) option" where
  "handle_client ready i slots net =
     (let fd = slot_fd (slots ! i) in
      if fd = -1 then Some (slots, net, [])
      else
        (case ready fd of
           None \<Rightarrow> Some (slots, net, [])
         | Some (Received bytes) \<Rightarrow>
             (if bytes = [] then close_step fd slots net
              else
                map_option (\<lambda>(c, net, es). (slots[i := c], net, es))
                  (receive_bytes (take (buffer_size - 1) bytes) (slots ! i) net))
         | Some Recv_interrupted \<Rightarrow> Some (slots, net, [])
         | Some Recv_failed \<Rightarrow> close_step fd slots net))"

fun handle_clients :: "(fd \<Rightarrow> recv_event option) \<Rightarrow> nat list \<Rightarrow> client_slot list \<Rightarrow> net
    \<Rightarrow> (client_slot list \<times> net \<times> effect list) option" where
  "handle_clients ready [] slots net = Some (slots, net, [])"
| "handle_clients ready (i # ks) slots net =
     and_then (handle_client ready i slots net) (\<lambda>slots net. handle_clients ready ks slots net)"

definition handle_notification :: "fd option \<Rightarrow> client_slot list \<Rightarrow> net \<Rightarrow> (client_slot list \<times> net \<times> effect list) option" where
  "handle_notification ev slots net = (case ev of None \<Rightarrow> Some (slots, net, []) | Some fd \<Rightarrow> close_step fd slots net)"

definition handle_accept :: "accept_event option \<Rightarrow> client_slot list \<Rightarrow> net \<Rightarrow> (client_slot list \<times> net \<times> effect list) option" where
  "handle_accept ev slots net =
     (case ev of
        None \<Rightarrow> Some (slots, net, [])
      | Some Accept_failed \<Rightarrow> Some (slots, net, [])
      | Some (Accepted fd) \<Rightarrow> accept_client fd slots net)"

definition server_round :: "input \<Rightarrow> client_slot list \<Rightarrow> net \<Rightarrow> (client_slot list \<times> net \<times> effect list) option" where
  "server_round inp slots net =
     and_then (handle_notification (notified inp) slots net)
       (\<lambda>slots net. and_then (handle_accept (incoming inp) slots net)
         (\<lambda>slots net. handle_clients (readable inp) [0..<max_clients] slots net))"

subsection \<open>The loop and \<open>server_start\<close>\<close>

datatype select_event = Select_interrupted | Select_failed | Ready input

text \<open>The rounds for a list of results of \<^verbatim>\<open>select\<close>; the flag says that the loop was left.\<close>

fun server_loop :: "select_event list \<Rightarrow> client_slot list \<Rightarrow> net \<Rightarrow> (bool \<times> client_slot list \<times> net \<times> effect list) option" where
  "server_loop [] slots net = Some (False, slots, net, [])"
| "server_loop (Select_interrupted # evs) slots net = server_loop evs slots net"
| "server_loop (Select_failed # evs) slots net = Some (True, slots, net, [])"
| "server_loop (Ready inp # evs) slots net =
     (case server_round inp slots net of
        None \<Rightarrow> None
      | Some (slots, net, es) \<Rightarrow>
          map_option (\<lambda>(stopped, slots, net, es'). (stopped, slots, net, es @ es')) (server_loop evs slots net))"

text \<open>
  The results of the calls before the loop.  Of the array elements the code initialises only the first byte; the rest
  is arbitrary, \<open>stale i\<close>.
\<close>

record start_results =
  socket_fd :: "fd option"
  setsockopt_ok :: bool
  inet_pton_ok :: bool
  bind_ok :: bool
  listen_ok :: bool
  pool_ok :: "resource \<Rightarrow> bool"
  stale :: "nat \<Rightarrow> string"

definition initial_slots :: "(nat \<Rightarrow> string) \<Rightarrow> client_slot list" where
  "initial_slots g = map (\<lambda>i. \<lparr>slot_fd = -1, buf = (g i)[0 := NUL], len = 0\<rparr>) [0..<max_clients]"

fun close_remaining :: "client_slot list \<Rightarrow> effect list" where
  "close_remaining [] = []"
| "close_remaining (c # cs) = (if slot_fd c \<noteq> -1 then Closed (slot_fd c) # close_remaining cs else close_remaining cs)"

text \<open>
  The result (\<open>None\<close> while the loop is running), the effects, and what is left of the worker pool.  The stop of the
  pool is the relation \<open>worker_pool_destroy\<close>; here only its release of the resources appears.
\<close>

definition server_start :: "start_results \<Rightarrow> bool \<Rightarrow> select_event list \<Rightarrow> net
    \<Rightarrow> (bool option \<times> effect list \<times> resource list) option" where
  "server_start st table evs net =
     (case socket_fd st of
        None \<Rightarrow> Some (Some False, [], [])
      | Some server_fd \<Rightarrow>
          if \<not> setsockopt_ok st \<or> \<not> inet_pton_ok st \<or> \<not> bind_ok st \<or> \<not> listen_ok st
          then Some (Some False, [Opened server_fd, Closed server_fd], [])
          else
            (case worker_pool_init table (pool_ok st) of
               None \<Rightarrow> None
             | Some (False, live) \<Rightarrow> Some (Some False, [Opened server_fd, Closed server_fd], live)
             | Some (True, live) \<Rightarrow>
                 (case server_loop evs (initial_slots (stale st)) net of
                    None \<Rightarrow> None
                  | Some (False, slots, net, es) \<Rightarrow> Some (None, Opened server_fd # es, live)
                  | Some (True, slots, net, es) \<Rightarrow>
                      map_option
                        (\<lambda>live. (Some True, Opened server_fd # es @ close_remaining slots @ [Closed server_fd], live))
                        (release (map Worker_thread [0..<worker_count] @
                           [Db_lock, Queue_cond, Queue_mutex, Pipe_end 0, Pipe_end 1]) live))))"

subsection \<open>Descriptors\<close>

definition taken_fds :: "client_slot list \<Rightarrow> fd list" where
  "taken_fds slots = filter (\<lambda>fd. fd \<noteq> -1) (map slot_fd slots)"

fun opened :: "effect list \<Rightarrow> fd multiset" where
  "opened [] = {#}"
| "opened (Opened fd # es) = add_mset fd (opened es)"
| "opened (e # es) = opened es"

fun closed :: "effect list \<Rightarrow> fd multiset" where
  "closed [] = {#}"
| "closed (Closed fd # es) = add_mset fd (closed es)"
| "closed (e # es) = closed es"

lemma opened_append [simp]: "opened (es @ es') = opened es + opened es'"
  by (induction es rule: opened.induct) simp_all

lemma closed_append [simp]: "closed (es @ es') = closed es + closed es'"
  by (induction es rule: closed.induct) simp_all

definition slots_ok :: "client_slot list \<Rightarrow> bool" where
  "slots_ok slots \<longleftrightarrow> length slots = max_clients \<and> list_all slot_ok slots"

text \<open>Nothing is lost: what was open or has been opened is closed or open.\<close>

definition balanced :: "client_slot list \<Rightarrow> effect list \<Rightarrow> client_slot list \<Rightarrow> bool" where
  "balanced slots es slots' \<longleftrightarrow> mset (taken_fds slots) + opened es = mset (taken_fds slots') + closed es"

lemma balanced_trans: "balanced a es b \<Longrightarrow> balanced b es' c \<Longrightarrow> balanced a (es @ es') c"
  unfolding balanced_def by (simp add: add.assoc) (metis add.assoc add.commute)

lemma balanced_refl [simp]: "balanced a [] a"
  by (simp add: balanced_def)

lemma cleared_slot: "length b = buffer_size \<Longrightarrow> slot_ok (c\<lparr>slot_fd := fd, buf := b[0 := NUL], len := 0\<rparr>)"
  by (cases b) (simp_all add: slot_ok_def slot_text_def holds_def buffer_size_def)

lemma freed_slot [simp]: "slot_ok c \<Longrightarrow> slot_ok (c\<lparr>slot_fd := fd, buf := (buf c)[0 := NUL], len := 0\<rparr>)"
  by (rule cleared_slot) (simp add: slot_ok_def holds_def)

lemma close_client_ok:
  "list_all slot_ok slots \<Longrightarrow> close_client fd slots = (slots', es) \<Longrightarrow>
   length slots' = length slots \<and> list_all slot_ok slots' \<and> lines_of es = []
   \<and> (fd \<noteq> -1 \<longrightarrow> balanced slots es slots') \<and> (es = [] \<longrightarrow> slots' = slots) \<and> set (taken_fds slots') \<subseteq> set (taken_fds slots)
   \<and> (distinct (taken_fds slots) \<longrightarrow> fd \<noteq> -1 \<longrightarrow> distinct (taken_fds slots') \<and> fd \<notin> set (taken_fds slots'))"
proof (induction slots arbitrary: slots' es)
  case (Cons c cs)
  show ?case
  proof (cases "slot_fd c = fd")
    case True
    with Cons.prems show ?thesis by (auto simp: balanced_def taken_fds_def)
  next
    case False
    then obtain cs' where cs': "close_client fd cs = (cs', es)" "slots' = c # cs'"
      using Cons.prems(2) by (auto split: prod.splits)
    with Cons.IH [OF _ cs'(1)] Cons.prems(1) False show ?thesis
      by (auto simp: balanced_def taken_fds_def)
  qed
qed (simp add: taken_fds_def)

lemma add_client_ok:
  "list_all slot_ok slots \<Longrightarrow> add_client fd slots = Some slots' \<Longrightarrow> fd \<noteq> -1 \<Longrightarrow>
   length slots' = length slots \<and> list_all slot_ok slots' \<and> mset (taken_fds slots') = add_mset fd (mset (taken_fds slots))"
proof (induction slots arbitrary: slots')
  case (Cons c cs)
  show ?case
  proof (cases "slot_fd c = -1")
    case True
    with Cons.prems show ?thesis by (auto simp: taken_fds_def)
  next
    case False
    with Cons show ?thesis by (auto simp: taken_fds_def)
  qed
qed simp

lemma add_client_full: "add_client fd slots = None \<longleftrightarrow> (\<forall>c \<in> set slots. slot_fd c \<noteq> -1)"
  by (induction slots) auto

lemma accept_client_ok:
  assumes "slots_ok slots" "fair net" "fd \<noteq> -1"
  shows "\<exists>slots' net' es. accept_client fd slots net = Some (slots', net', es) \<and> slots_ok slots' \<and> fair net'
    \<and> balanced slots es slots' \<and> lines_of es = [] \<and> set (taken_fds slots') \<subseteq> insert fd (set (taken_fds slots))
    \<and> (distinct (taken_fds slots) \<longrightarrow> fd \<notin> set (taken_fds slots) \<longrightarrow> distinct (taken_fds slots'))"
proof (cases "add_client fd slots")
  case None
  obtain net' out where "tell fd (''ERR server busy'' @ [NL]) net = Some (net', [Wrote fd out])" "fair net'"
    using tell_returns [OF assms(2)] by blast
  with None assms(1) show ?thesis by (auto simp: accept_client_def balanced_def)
next
  case (Some slots')
  with add_client_ok [OF _ Some assms(3)] assms(1) have
    a: "slots_ok slots'" "mset (taken_fds slots') = add_mset fd (mset (taken_fds slots))" by (auto simp: slots_ok_def)
  then have "set (taken_fds slots') = insert fd (set (taken_fds slots))"
    by (metis set_mset_add_mset_insert set_mset_mset)
  moreover have "distinct (taken_fds slots) \<Longrightarrow> fd \<notin> set (taken_fds slots) \<Longrightarrow> distinct (taken_fds slots')"
    using mset_eq_imp_distinct_iff [of "taken_fds slots'" "fd # taken_fds slots"] a(2) by simp
  ultimately show ?thesis using Some a assms(2) by (auto simp: accept_client_def balanced_def)
qed

lemma chatter_fds: "list_all chatter es \<Longrightarrow> opened es = {#} \<and> closed es = {#}"
proof (induction es)
  case (Cons e es)
  then show ?case by (cases e) simp_all
qed simp

subsection \<open>A round keeps everything in order\<close>

text \<open>
  It returns, the slots stay well-formed, the descriptors are accounted for, and the lines are C strings that fit
  into a task.
\<close>

definition good_lines :: "effect list \<Rightarrow> bool" where
  "good_lines es \<longleftrightarrow> (\<forall>(fd, c) \<in> set (lines_of es). fd \<noteq> -1 \<and> no_nul c \<and> length c < buffer_size)"

definition handled :: "client_slot list \<Rightarrow> (client_slot list \<times> net \<times> effect list) option \<Rightarrow> bool" where
  "handled slots r \<longleftrightarrow> (\<exists>slots' net' es. r = Some (slots', net', es) \<and> slots_ok slots' \<and> fair net'
     \<and> balanced slots es slots' \<and> good_lines es
     \<and> (distinct (taken_fds slots) \<longrightarrow> distinct (taken_fds slots')))"

lemma good_lines_simps [simp]: "good_lines []" "good_lines (es @ es') \<longleftrightarrow> good_lines es \<and> good_lines es'"
  by (auto simp: good_lines_def)

lemma receive_bytes_ok:
  assumes "slot_ok c" "fair net" "slot_fd c \<noteq> -1"
  shows "\<exists>c' net' es. receive_bytes bytes c net = Some (c', net', es) \<and> slot_ok c' \<and> slot_fd c' = slot_fd c
    \<and> fair net' \<and> good_lines es \<and> opened es = {#} \<and> closed es = {#}"
proof (cases "buffer_size \<le> len c + length bytes")
  case True
  from receive_too_long [OF assms(1,2) True] obtain c' net' out where
    r: "receive_bytes bytes c net = Some (c', net', [Wrote (slot_fd c) out])" "slot_ok c'" "slot_fd c' = slot_fd c"
      "fair net'" by blast
  moreover have "good_lines [Wrote (slot_fd c) out]" by (simp add: good_lines_def)
  ultimately show ?thesis by simp
next
  case False
  let ?s = "slot_text c @ bytes"
  from receive_fits [OF assms(1,2), of bytes] False obtain c' net' es where
    r: "receive_bytes bytes c net = Some (c', net', es)" "slot_ok c'" "slot_fd c' = slot_fd c" "fair net'"
      "lines_of es = map (Pair (slot_fd c)) (command_lines (c_str ?s))" "list_all chatter es" by auto
  have "length (c_str ?s) \<le> length ?s" unfolding c_str_def by (rule length_takeWhile_le)
  moreover have "length ?s < buffer_size" using False assms(1) by (simp add: slot_ok_def)
  ultimately have small: "length (c_str ?s) < buffer_size" by (rule le_less_trans)
  have "no_nul l \<and> length l < buffer_size" if "l \<in> set (command_lines (c_str ?s))" for l
    using command_lines_length [OF that] command_lines_no_nul [OF no_nul_c_str that] small by (blast intro: less_trans)
  then have "\<forall>(fd, l) \<in> set (map (Pair (slot_fd c)) (command_lines (c_str ?s))). fd \<noteq> -1 \<and> no_nul l \<and> length l < buffer_size"
    using assms(3) by (simp only: set_map ball_simps(9) case_prod_conv) blast
  then have "good_lines es" by (simp only: good_lines_def r(5))
  with r chatter_fds [OF r(6)] show ?thesis by simp
qed

lemma close_client_handled:
  assumes "slots_ok slots" "fair net" "fd \<noteq> -1"
  shows "handled slots (close_step fd slots net)"
proof -
  obtain slots' es where c: "close_client fd slots = (slots', es)" by fastforce
  with close_client_ok [OF _ c] assms show ?thesis by (simp add: close_step_def handled_def slots_ok_def good_lines_def)
qed

lemma handle_client_handled:
  assumes "slots_ok slots" "fair net" "i < max_clients"
  shows "handled slots (handle_client ready i slots net)"
proof (cases "slot_fd (slots ! i) = -1 \<or> ready (slot_fd (slots ! i)) \<in> {None, Some Recv_interrupted}")
  case True
  with assms(1,2) show ?thesis by (auto simp: handle_client_def handled_def Let_def)
next
  case False
  then have fd: "slot_fd (slots ! i) \<noteq> -1" by simp
  note close = close_client_handled [OF assms(1,2) fd]
  from False consider "ready (slot_fd (slots ! i)) = Some Recv_failed" | "ready (slot_fd (slots ! i)) = Some (Received [])"
    | bytes where "ready (slot_fd (slots ! i)) = Some (Received bytes)" "bytes \<noteq> []"
    by (metis insertCI not_None_eq recv_event.exhaust)
  then show ?thesis
  proof cases
    case 3
    have "slot_ok (slots ! i)" using assms(1,3) by (simp add: slots_ok_def list_all_length)
    from receive_bytes_ok [OF this assms(2) fd, of "take (buffer_size - 1) bytes"] obtain c' net' es where
      r: "receive_bytes (take (buffer_size - 1) bytes) (slots ! i) net = Some (c', net', es)" "slot_ok c'"
        "slot_fd c' = slot_fd (slots ! i)" "fair net'" "good_lines es" "opened es = {#}" "closed es = {#}" by blast
    have "map slot_fd (slots[i := c']) = map slot_fd slots" using r(3) by (simp add: map_update) (metis list_update_id map_update)
    then have "balanced slots es (slots[i := c'])" "taken_fds (slots[i := c']) = taken_fds slots"
      using r(6,7) by (simp_all add: balanced_def taken_fds_def)
    moreover have "slots_ok (slots[i := c'])" using assms(1) r(2)
      by (auto simp: slots_ok_def list_all_iff dest: set_update_subset_insert [THEN subsetD])
    ultimately show ?thesis using r 3 fd by (simp add: handle_client_def handled_def)
  qed (use close fd in \<open>simp_all add: handle_client_def Let_def\<close>)
qed

lemma handledE:
  assumes "handled slots r"
  obtains slots' net' es where "r = Some (slots', net', es)" "slots_ok slots'" "fair net'" "balanced slots es slots'"
    "good_lines es" "distinct (taken_fds slots) \<longrightarrow> distinct (taken_fds slots')"
  using assms by (auto simp: handled_def)

lemma handled_then:
  assumes "handled slots r"
    and "\<And>slots' net' es. r = Some (slots', net', es) \<Longrightarrow> slots_ok slots' \<Longrightarrow> fair net' \<Longrightarrow> handled slots' (f slots' net')"
  shows "handled slots (and_then r f)"
  using assms(1)
proof (rule handledE)
  fix slots1 net1 es1
  assume r: "r = Some (slots1, net1, es1)" "slots_ok slots1" "fair net1" "balanced slots es1 slots1" "good_lines es1"
    "distinct (taken_fds slots) \<longrightarrow> distinct (taken_fds slots1)"
  from assms(2) [OF r(1-3)] obtain slots2 net2 es2 where
    "f slots1 net1 = Some (slots2, net2, es2)" "slots_ok slots2" "fair net2" "balanced slots1 es2 slots2" "good_lines es2"
    "distinct (taken_fds slots1) \<longrightarrow> distinct (taken_fds slots2)"
    by (rule handledE)
  with r balanced_trans [OF r(4)] show ?thesis by (simp add: handled_def and_then_def)
qed

lemma handle_clients_handled:
  "slots_ok slots \<Longrightarrow> fair net \<Longrightarrow> \<forall>i \<in> set ks. i < max_clients \<Longrightarrow> handled slots (handle_clients ready ks slots net)"
proof (induction ks arbitrary: slots net)
  case (Cons i ks)
  have "handled slots (handle_client ready i slots net)" using handle_client_handled Cons.prems by simp
  then show ?case unfolding handle_clients.simps by (rule handled_then) (use Cons in simp)
qed (simp add: handled_def)

text \<open>The descriptors the environment gives: not \<open>-1\<close>, and \<^verbatim>\<open>accept\<close> returns one that is not open at that time.\<close>

definition after_notification :: "input \<Rightarrow> client_slot list \<Rightarrow> client_slot list" where
  "after_notification inp slots = (case notified inp of None \<Rightarrow> slots | Some fd \<Rightarrow> fst (close_client fd slots))"

definition good_input :: "input \<Rightarrow> client_slot list \<Rightarrow> bool" where
  "good_input inp slots \<longleftrightarrow> notified inp \<noteq> Some (-1)
     \<and> (case incoming inp of
          Some (Accepted fd) \<Rightarrow> fd \<noteq> -1 \<and> fd \<notin> set (taken_fds (after_notification inp slots))
        | _ \<Rightarrow> True)"

lemma server_round_handled:
  assumes "slots_ok slots" "fair net" "good_input inp slots"
  shows "handled slots (server_round inp slots net)"
proof -
  have g: "handled (after_notification inp slots) (handle_accept (incoming inp) (after_notification inp slots) net)"
    if "slots_ok (after_notification inp slots)" "fair net" for net
  proof (cases "incoming inp")
    case None
    with that show ?thesis by (simp add: handled_def handle_accept_def)
  next
    case (Some ev)
    show ?thesis
    proof (cases ev)
      case (Accepted fd)
      with Some assms(3) have "fd \<noteq> -1" "fd \<notin> set (taken_fds (after_notification inp slots))"
        by (simp_all add: good_input_def)
      with accept_client_ok [OF that this(1)] show ?thesis using Some Accepted
        by (auto simp: handled_def handle_accept_def good_lines_def)
    qed (use Some that in \<open>simp add: handled_def handle_accept_def\<close>)
  qed
  have h: "handled slots (handle_notification (notified inp) slots net)"
    using close_client_handled [OF assms(1,2)] assms
    by (auto simp: handle_notification_def good_input_def handled_def split: option.split)
  have n: "slots' = after_notification inp slots" if "handle_notification (notified inp) slots net = Some (slots', net', es)"
    for slots' net' es
    using that by (auto simp: handle_notification_def after_notification_def close_step_def split: option.splits prod.splits)
  show ?thesis unfolding server_round_def
  proof (rule handled_then [OF h])
    fix slots' net' es
    assume s: "handle_notification (notified inp) slots net = Some (slots', net', es)" "slots_ok slots'" "fair net'"
    show "handled slots' (and_then (handle_accept (incoming inp) slots' net')
        (handle_clients (readable inp) [0..<max_clients]))"
      by (rule handled_then) (use g [of net'] n [OF s(1)] s(2,3) in \<open>simp_all add: handle_clients_handled\<close>)
  qed
qed

subsection \<open>The loop\<close>

text \<open>Every input is good for the slots at its time.\<close>

fun good_events :: "select_event list \<Rightarrow> client_slot list \<Rightarrow> net \<Rightarrow> bool" where
  "good_events [] slots net = True"
| "good_events (Select_interrupted # evs) slots net = good_events evs slots net"
| "good_events (Select_failed # evs) slots net = True"
| "good_events (Ready inp # evs) slots net \<longleftrightarrow>
     good_input inp slots \<and> (case server_round inp slots net of None \<Rightarrow> True | Some (slots, net, es) \<Rightarrow> good_events evs slots net)"

lemma server_loop_handled:
  "slots_ok slots \<Longrightarrow> fair net \<Longrightarrow> good_events evs slots net \<Longrightarrow>
   \<exists>stopped slots' net' es. server_loop evs slots net = Some (stopped, slots', net', es)
     \<and> handled slots (Some (slots', net', es))"
proof (induction evs slots net rule: server_loop.induct)
  case (4 inp evs slots net)
  have "handled slots (server_round inp slots net)" using server_round_handled 4(2-4) by simp
  then obtain slots1 net1 es1 where r: "server_round inp slots net = Some (slots1, net1, es1)" "slots_ok slots1" "fair net1"
    by (rule handledE)
  obtain stopped slots2 net2 es2 where
    l: "server_loop evs slots1 net1 = Some (stopped, slots2, net2, es2)" "handled slots1 (Some (slots2, net2, es2))"
    using 4(1) [OF r(1) refl refl r(2,3)] 4(4) r(1) by auto
  have "handled slots (and_then (Some (slots1, net1, es1)) (\<lambda>slots net. Some (slots2, net2, es2)))"
    by (rule handled_then) (use \<open>handled slots (server_round inp slots net)\<close> r(1) l(2) in simp_all)
  then show ?case using r(1) l(1) by (simp add: and_then_def)
qed (auto simp: handled_def)

lemma initial_slots_ok: "\<forall>i. length (g i) = buffer_size \<Longrightarrow> slots_ok (initial_slots g) \<and> taken_fds (initial_slots g) = []"
proof -
  assume g: "\<forall>i. length (g i) = buffer_size"
  have "slot_ok \<lparr>slot_fd = -1, buf = (g i)[0 := NUL], len = 0\<rparr>" for i
    using cleared_slot [of "g i" "-1" "\<lparr>slot_fd = -1, buf = [], len = 0\<rparr>"] g by simp
  then show ?thesis by (simp add: initial_slots_def slots_ok_def taken_fds_def list_all_iff comp_def)
qed

lemma close_remaining_fds:
  "opened (close_remaining slots) = {#}" "closed (close_remaining slots) = mset (taken_fds slots)"
  "lines_of (close_remaining slots) = []"
  by (induction slots) (auto simp: taken_fds_def)

definition setup_fails :: "start_results \<Rightarrow> bool \<Rightarrow> bool" where
  "setup_fails st table \<longleftrightarrow> socket_fd st = None \<or> \<not> setsockopt_ok st \<or> \<not> inet_pton_ok st \<or> \<not> bind_ok st \<or> \<not> listen_ok st
     \<or> fst (the (worker_pool_init table (pool_ok st))) = False"

lemma init_cases: "worker_pool_init table ok = Some (True, all_resources) \<or> worker_pool_init table ok = Some (False, [])"
  using start_workers_all [of ok] by (simp add: worker_pool_init_def Let_def)

lemma server_start_outcome:
  assumes "fair net" "\<forall>i. length (stale st i) = 1024" "good_events evs (initial_slots (stale st)) net"
  shows "\<exists>res es live. server_start st table evs net = Some (res, es, live)
    \<and> (res = Some False \<longleftrightarrow> setup_fails st table) \<and> (res = None \<or> opened es = closed es \<and> live = [])"
proof (cases "setup_fails st table")
  case True
  with init_cases [of table "pool_ok st"] show ?thesis
    by (auto simp: server_start_def setup_fails_def split: option.split)
next
  case False
  then obtain fd where fd: "socket_fd st = Some fd" "setsockopt_ok st" "inet_pton_ok st" "bind_ok st" "listen_ok st"
    "worker_pool_init table (pool_ok st) = Some (True, all_resources)"
    using init_cases [of table "pool_ok st"] by (auto simp: setup_fails_def)
  have s: "slots_ok (initial_slots (stale st))" "taken_fds (initial_slots (stale st)) = []"
    using initial_slots_ok [of "stale st"] assms(2) by (simp_all add: buffer_size_def)
  from server_loop_handled [OF s(1) assms(1,3)] obtain stopped slots net' es where
    l: "server_loop evs (initial_slots (stale st)) net = Some (stopped, slots, net', es)"
      "handled (initial_slots (stale st)) (Some (slots, net', es))" by blast
  then have "opened es = mset (taken_fds slots) + closed es" using s(2) by (simp add: handled_def balanced_def)
  then have "opened (Opened fd # es @ close_remaining slots @ [Closed fd])
      = closed (Opened fd # es @ close_remaining slots @ [Closed fd])"
    by (simp add: close_remaining_fds)
  moreover have "release (map Worker_thread [0..<worker_count] @
      [Db_lock, Queue_cond, Queue_mutex, Pipe_end 0, Pipe_end 1]) all_resources = Some []"
    by (simp add: all_resources_def four)
  ultimately show ?thesis using fd l(1) False by (cases stopped) (simp_all add: server_start_def)
qed

subsection \<open>Properties\<close>

lemma add_client_first:
  "\<exists>c \<in> set slots. slot_fd c = -1 \<Longrightarrow>
   \<exists>i < length slots. slot_fd (slots ! i) = -1 \<and> (\<forall>j < i. slot_fd (slots ! j) \<noteq> -1)
     \<and> add_client fd slots = Some (slots[i := (slots ! i)\<lparr>slot_fd := fd, buf := (buf (slots ! i))[0 := NUL], len := 0\<rparr>])"
proof (induction slots)
  case (Cons c cs)
  show ?case
  proof (cases "slot_fd c = -1")
    case False
    with Cons obtain i where "i < length cs" "slot_fd (cs ! i) = -1" "\<forall>j < i. slot_fd (cs ! j) \<noteq> -1"
      "add_client fd cs = Some (cs[i := (cs ! i)\<lparr>slot_fd := fd, buf := (buf (cs ! i))[0 := NUL], len := 0\<rparr>])" by auto
    with False show ?thesis by (intro exI [of _ "Suc i"]) (auto simp: less_Suc_eq_0_disj)
  qed auto
qed simp

text \<open>
  A new client gets the first free slot, with an empty buffer; when all sixteen are taken it is told that the
  server is busy, its descriptor is closed, and no slot changes.
\<close>

lemma accept_or_busy:
  assumes "fair net"
  shows "if \<exists>c \<in> set slots. slot_fd c = -1
    then \<exists>i < length slots. slot_fd (slots ! i) = -1 \<and> (\<forall>j < i. slot_fd (slots ! j) \<noteq> -1)
      \<and> accept_client fd slots net =
          Some (slots[i := (slots ! i)\<lparr>slot_fd := fd, buf := (buf (slots ! i))[0 := NUL], len := 0\<rparr>], net, [Opened fd])
    else \<exists>net' out. accept_client fd slots net = Some (slots, net', [Opened fd, Wrote fd out, Closed fd])
      \<and> prefix out (''ERR server busy'' @ [NL])"
proof (cases "\<exists>c \<in> set slots. slot_fd c = -1")
  case True
  from add_client_first [OF this, of fd] True show ?thesis by (auto simp: accept_client_def)
next
  case False
  then have "add_client fd slots = None" by (simp add: add_client_full)
  with tell_returns [OF assms, of fd "''ERR server busy'' @ [NL]"] False show ?thesis by (auto simp: accept_client_def)
qed

text \<open>
  C21: \<open>server_start\<close> gives back what it takes.  It reports failure exactly when one of the calls before the loop fails;
  whenever it returns, after a failure or after the loop, every descriptor that was opened, of the listening socket
  and of every client, has been closed exactly once and nothing of the worker pool is left.
\<close>

theorem server_start_releases:
  assumes "fair net" "\<forall>i. length (stale st i) = 1024" "good_events evs (initial_slots (stale st)) net"
  shows "\<exists>res es live. server_start st table evs net = Some (res, es, live)
    \<and> (res = Some False \<longleftrightarrow> setup_fails st table) \<and> (res = None \<or> opened es = closed es \<and> live = [])"
  using server_start_outcome [OF assms] .

definition calm_start :: start_results where
  "calm_start = \<lparr>socket_fd = Some 3, setsockopt_ok = True, inet_pton_ok = True, bind_ok = True, listen_ok = True,
     pool_ok = (\<lambda>r. True), stale = (\<lambda>i. replicate 1024 (CHR ''x''))\<rparr>"

definition one_client :: input where
  "one_client = \<lparr>notified = None, incoming = Some (Accepted 7), readable = (\<lambda>fd. None)\<rparr>"

theorem server_start_releases_witness:
  "\<exists>res es live. server_start calm_start True [Ready one_client, Select_failed] calm_net = Some (res, es, live)
    \<and> res \<noteq> Some False \<and> (res = None \<or> opened es = closed es \<and> live = [])"
proof -
  have t: "taken_fds (initial_slots g) = []" for g by (simp add: initial_slots_def taken_fds_def comp_def)
  have "good_events [Ready one_client, Select_failed] (initial_slots (stale calm_start)) calm_net"
    by (simp add: one_client_def good_input_def after_notification_def t split: option.split)
  moreover have "\<not> setup_fails calm_start True"
    using start_workers_all [of "\<lambda>r. True"] by (simp add: setup_fails_def calm_start_def worker_pool_init_def Let_def)
  ultimately show ?thesis
    using server_start_releases [OF calm_net_fair, of calm_start "[Ready one_client, Select_failed]" True]
    by (auto simp: calm_start_def)
qed

end
