(* ===== verification/Durability.thy ===== *)
theory Durability
  imports Command
begin

text \<open>
  What survives a restart: the relation between the table in memory and the append-only file, kept
  by every command and by start-up.

  \<open>log_map n ops\<close> is the map a replay at time \<open>n\<close> makes of a log.  The central invariant is
  \<open>durable\<close>: the file is a list of records, and every binding of the table that is live now is the
  one a replay now would make.  The converse does not hold for bindings that have expired, and the
  properties about recovery say exactly what does.
\<close>

subsection \<open>Logs as maps\<close>

fun log_step :: "time_t \<Rightarrow> aof_op \<Rightarrow> (cstr \<rightharpoonup> cstr \<times> time_t) \<Rightarrow> (cstr \<rightharpoonup> cstr \<times> time_t)" where
  "log_step n (Op_set k v x) m = (if live_at n x then m(k \<mapsto> (v, x)) else m)"
| "log_step n (Op_del k) m = m(k := None)"

definition log_map :: "time_t \<Rightarrow> aof_op list \<Rightarrow> (cstr \<rightharpoonup> cstr \<times> time_t)" where
  "log_map n ops = fold (log_step n) ops Map.empty"

text \<open>Every binding of \<open>m\<close> that is live at time \<open>n\<close> is a binding of \<open>l\<close>.\<close>

definition agrees :: "time_t \<Rightarrow> (cstr \<rightharpoonup> cstr \<times> time_t) \<Rightarrow> (cstr \<rightharpoonup> cstr \<times> time_t) \<Rightarrow> bool" where
  "agrees n m l \<longleftrightarrow> (\<forall>k v x. m k = Some (v, x) \<and> live_at n x \<longrightarrow> l k = Some (v, x))"

definition good_map :: "(cstr \<rightharpoonup> cstr \<times> time_t) \<Rightarrow> bool" where
  "good_map m \<longleftrightarrow> (\<forall>k v x. m k = Some (v, x) \<longrightarrow> good_op (Op_set k v x))"

definition durable :: "aof_op list \<Rightarrow> hash_table \<Rightarrow> world \<Rightarrow> bool" where
  "durable ops t w \<longleftrightarrow> wf_table t \<and> good_map (tmap t) \<and> (\<forall>op \<in> set ops. good_op op)
     \<and> aof_text w = concat (map render ops) \<and> agrees (now w) (tmap t) (log_map (now w) ops)"

lemma log_map_snoc [simp]: "log_map n (ops @ [op]) = log_step n op (log_map n ops)"
  by (simp add: log_map_def)

lemma log_map_Nil [simp]: "log_map n [] = Map.empty"
  by (simp add: log_map_def)

text \<open>
  For a key that is never given an expiration the log is exact, at any time: it binds the key as the table does, and not
  at all when the table does not.
\<close>

definition permanent :: "cstr \<Rightarrow> aof_op list \<Rightarrow> bool" where
  "permanent k ops \<longleftrightarrow> (\<forall>v x. Op_set k v x \<in> set ops \<longrightarrow> x = 0)"

definition exact :: "cstr set \<Rightarrow> aof_op list \<Rightarrow> hash_table \<Rightarrow> bool" where
  "exact K ops t \<longleftrightarrow> (\<forall>k \<in> K. permanent k ops \<and> (\<forall>n. tmap t k = log_map n ops k))"

lemma live_at_0 [simp]: "live_at n 0"
  by (simp add: live_at_iff)

lemma permanent_log: "permanent k ops \<Longrightarrow> log_map n ops k = Some (v, x) \<Longrightarrow> x = 0"
proof (induction ops rule: rev_induct)
  case (snoc op ops)
  then show ?case by (cases op) (auto simp: permanent_def split: if_splits)
qed simp

lemma exact_set:
  assumes "exact K ops t" "tmap t' = (tmap t)(k \<mapsto> (v, x))" "k \<in> K \<Longrightarrow> x = 0"
  shows "exact K (ops @ [Op_set k v x]) t'"
  using assms by (auto simp: exact_def permanent_def)

lemma exact_del:
  "exact K ops t \<Longrightarrow> tmap t' = (tmap t)(k := None) \<Longrightarrow> exact K (ops @ [Op_del k]) t'"
  by (auto simp: exact_def permanent_def)

text \<open>A binding of the log that is still live later is a binding of the later log.\<close>

lemma log_map_later:
  "log_map n ops k = Some (v, x) \<Longrightarrow> live_at n' x \<Longrightarrow> n \<le> n' \<Longrightarrow> log_map n' ops k = Some (v, x)"
proof (induction ops rule: rev_induct)
  case (snoc op ops)
  then show ?case using live_at_mono by (cases op) (auto split: if_splits)
qed simp

lemma agrees_later: "agrees n m (log_map n ops) \<Longrightarrow> n \<le> n' \<Longrightarrow> agrees n' m (log_map n' ops)"
  unfolding agrees_def using live_at_mono log_map_later by blast

lemma agrees_set: "agrees n m l \<Longrightarrow> agrees n (m(k \<mapsto> (v, x))) (log_step n (Op_set k v x) l)"
  by (auto simp: agrees_def)

lemma agrees_del: "agrees n m l \<Longrightarrow> agrees n (m(k := None)) (log_step n (Op_del k) l)"
  by (auto simp: agrees_def)

subsection \<open>Replaying at start-up\<close>

lemma op_effect_set:
  "op_effect (Op_set k v x) w =
    (if live_at (now w) x then [(k, Some (v, x))] else [], if x = 0 then w else snd (time_now w))"
  by (auto simp: live_at_iff time_now_def now_def)

lemma replay_op_step:
  assumes "mem_ok w" "clock_ok w" "wf_table t" "replay_op op (t, w) = (t', w')"
  shows "mem_ok w' \<and> clock_ok w' \<and> wf_table t' \<and> now w \<le> now w' \<and> files w' = files w \<and> io w' = io w
    \<and> tmap t' = fold bind_key (fst (op_effect op w)) (tmap t)"
proof -
  have e: "op_effect op w = (fst (op_effect op w), snd (op_effect op w))" by simp
  from replay_op_state [OF assms(1,3,4) e] replay_op_inv [OF assms(1,3,4)] op_effect_clock [OF assms(2), of op]
  show ?thesis by simp
qed

lemma replay_frame:
  "mem_ok w \<Longrightarrow> clock_ok w \<Longrightarrow> wf_table t \<Longrightarrow> fold replay_op ops (t, w) = (t', w') \<Longrightarrow>
   mem_ok w' \<and> clock_ok w' \<and> wf_table t' \<and> now w \<le> now w' \<and> files w' = files w \<and> io w' = io w"
proof (induction ops arbitrary: t w)
  case (Cons op ops)
  obtain t1 w1 where r: "replay_op op (t, w) = (t1, w1)" by fastforce
  from replay_op_step [OF Cons.prems(1-3) r] Cons.IH [of w1 t1] Cons.prems(4) r show ?case by force
qed simp

text \<open>One record, replayed at time \<open>m\<close>, seen in the abstract log of any other time.\<close>

lemma step_agrees:
  assumes "agrees T l (tmap t)" "mem_ok w" "clock_ok w" "wf_table t" "replay_op op (t, w) = (t', w')"
    and "n \<le> now w" "now w \<le> T"
  shows "agrees T (log_step n op l) (tmap t')"
proof (cases op)
  case (Op_set k v x)
  have "tmap t' = (if live_at (now w) x then (tmap t)(k \<mapsto> (v, x)) else tmap t)"
    using replay_op_step [OF assms(2-5)] Op_set by (simp add: op_effect_set del: op_effect.simps)
  with assms(1,6,7) Op_set show ?thesis
    using live_at_mono [of T x "now w"] live_at_mono [of "now w" x n] by (auto simp: agrees_def)
next
  case (Op_del k)
  with assms(1) replay_op_step [OF assms(2-5)] show ?thesis by (auto simp: agrees_def)
qed

text \<open>The converse: what the table binds and is live at the end is in the log at that time.\<close>

lemma step_agrees_log:
  assumes "agrees T (tmap t) l" "mem_ok w" "clock_ok w" "wf_table t" "replay_op op (t, w) = (t', w')"
    and "now w \<le> T"
  shows "agrees T (tmap t') (log_step T op l)"
proof (cases op)
  case (Op_set k v x)
  have "tmap t' = (if live_at (now w) x then (tmap t)(k \<mapsto> (v, x)) else tmap t)"
    using replay_op_step [OF assms(2-5)] Op_set by (simp add: op_effect_set del: op_effect.simps)
  with assms(1,6) Op_set show ?thesis
    using live_at_mono [of T x "now w"] by (auto simp: agrees_def)
next
  case (Op_del k)
  with assms(1) replay_op_step [OF assms(2-5)] show ?thesis by (auto simp: agrees_def)
qed

text \<open>
  A replay that starts at time \<open>n\<close> or later and is over at time \<open>T\<close>: whatever the log at \<open>n\<close> binds and
  is live at \<open>T\<close> is bound in the table, and whatever the table binds and is live at \<open>T\<close> is bound by
  the log at \<open>T\<close>.
\<close>

lemma replay_agrees:
  "mem_ok w \<Longrightarrow> clock_ok w \<Longrightarrow> wf_table t \<Longrightarrow> n \<le> now w \<Longrightarrow> fold replay_op ops (t, w) = (t', w') \<Longrightarrow>
   now w' \<le> T \<Longrightarrow> agrees T l (tmap t) \<Longrightarrow> agrees T (tmap t) l' \<Longrightarrow>
   agrees T (fold (log_step n) ops l) (tmap t') \<and> agrees T (tmap t') (fold (log_step T) ops l')"
proof (induction ops arbitrary: t w l l')
  case (Cons op ops)
  obtain t1 w1 where r: "replay_op op (t, w) = (t1, w1)" by fastforce
  note s = replay_op_step [OF Cons.prems(1-3) r]
  have f: "fold replay_op ops (t1, w1) = (t', w')" using Cons.prems(5) r by simp
  with s replay_frame [of w1 t1 ops] have "now w1 \<le> now w'" by blast
  with s Cons.prems(6) have T: "now w \<le> T" by linarith
  have "agrees T (log_step n op l) (tmap t1)"
    using step_agrees [OF Cons.prems(7,1-3) r Cons.prems(4) T] .
  moreover have "agrees T (tmap t1) (log_step T op l')"
    using step_agrees_log [OF Cons.prems(8,1-3) r T] .
  moreover have "n \<le> now w1" using s Cons.prems(4) by linarith
  ultimately have "agrees T (fold (log_step n) ops (log_step n op l)) (tmap t')
      \<and> agrees T (tmap t') (fold (log_step T) ops (log_step T op l'))"
    using Cons.IH [OF _ _ _ _ f Cons.prems(6), of "log_step n op l" "log_step T op l'"] s by blast
  then show ?case by simp
qed simp

text \<open>A permanent key is replayed exactly.\<close>

lemma replay_permanent:
  "mem_ok w \<Longrightarrow> clock_ok w \<Longrightarrow> wf_table t \<Longrightarrow> permanent k ops \<Longrightarrow> fold replay_op ops (t, w) = (t', w') \<Longrightarrow>
   tmap t k = l k \<Longrightarrow> tmap t' k = fold (log_step n) ops l k"
proof (induction ops arbitrary: t w l)
  case (Cons op ops)
  obtain t1 w1 where r: "replay_op op (t, w) = (t1, w1)" by fastforce
  note s = replay_op_step [OF Cons.prems(1-3) r]
  have "x = 0" if "op = Op_set k v x" for v x using Cons.prems(4) that by (simp add: permanent_def)
  then have "tmap t1 k = log_step n op l k"
    using s Cons.prems(6) by (cases op) (auto simp: op_effect_set simp del: op_effect.simps(1))
  with Cons.IH [of w1 t1 "log_step n op l"] s Cons.prems(4,5) r show ?case by (simp add: permanent_def)
qed simp

lemma replay_good:
  "mem_ok w \<Longrightarrow> clock_ok w \<Longrightarrow> wf_table t \<Longrightarrow> \<forall>op \<in> set ops. good_op op \<Longrightarrow> good_map (tmap t) \<Longrightarrow>
   fold replay_op ops (t, w) = (t', w') \<Longrightarrow> good_map (tmap t')"
proof (induction ops arbitrary: t w)
  case (Cons op ops)
  obtain t1 w1 where r: "replay_op op (t, w) = (t1, w1)" by fastforce
  note s = replay_op_step [OF Cons.prems(1-3) r]
  have "good_op op" using Cons.prems(4) by simp
  then have "good_map (tmap t1)"
    using s Cons.prems(5) by (cases op) (auto simp: op_effect_set good_map_def simp del: op_effect.simps(1))
  with Cons.IH [of w1 t1] s Cons.prems(4,6) r show ?case by simp
qed simp

subsection \<open>Start-up\<close>

lemma agrees_trans:
  "agrees n a b \<Longrightarrow> agrees n b c \<Longrightarrow> agrees n a c"
  by (auto simp: agrees_def)

lemma agrees_mono: "agrees n a b \<Longrightarrow> n \<le> T \<Longrightarrow> agrees T a b"
  unfolding agrees_def using live_at_mono by blast

lemma agrees_empty [simp]: "agrees n Map.empty b"
  by (simp add: agrees_def)

lemma agrees_visible: "agrees n a b \<Longrightarrow> visible n a k = Some v \<Longrightarrow> visible n b k = Some v"
  by (auto simp: agrees_def visible_iff)

text \<open>Loading a file of records: the call succeeds and brings back what the log says.\<close>

lemma load_replays:
  assumes "mem_ok w" "io_ok w" "wf_table t" "\<forall>op \<in> set ops. good_op op"
    and "aof_text w = concat (map render ops)"
  shows "persistence_load t w = Some (True, fold replay_op ops (t, w))"
proof (cases "files w aof_file")
  case None
  with assms(5) have empty: "concat (map render ops) = []" by (simp add: aof_text_def)
  have "render op \<noteq> []" for op by (cases op) (simp_all add: set_record_def del_record_def)
  with empty have "ops = []" by (cases ops) simp_all
  then show ?thesis using None assms(2) by (simp add: persistence_load_def fopen_read_ok)
next
  case (Some s)
  then have s: "s = concat (map render ops)" using assms(5) by (simp add: aof_text_def)
  have "load_state s (t, w) = Some (fold replay_op ops (t, w))"
    unfolding s by (rule aof.load_log) (use assms in auto)
  then have "load_loop s t w = Some (True, fold replay_op ops (t, w))"
    by (auto simp: load_state_def split: option.splits prod.splits bool.splits)
  then show ?thesis using Some assms(2) by (simp add: persistence_load_def fopen_read_ok)
qed

lemma load_durable:
  assumes "mem_ok w" "io_ok w" "clock_ok w" "wf_table t" "tmap t = Map.empty"
    and "\<forall>op \<in> set ops. good_op op" "aof_text w = concat (map render ops)"
  shows "\<exists>t' w'. persistence_load t w = Some (True, t', w') \<and> durable ops t' w' \<and> clock_ok w' \<and> mem_ok w'
    \<and> io_ok w' \<and> now w \<le> now w' \<and> files w' = files w
    \<and> (\<forall>n \<le> now w. agrees (now w') (log_map n ops) (tmap t')) \<and> exact {k. permanent k ops} ops t'"
proof -
  obtain t' w' where f: "fold replay_op ops (t, w) = (t', w')" by fastforce
  note fr = replay_frame [OF assms(1,3,4) f]
  have both: "agrees (now w') (log_map n ops) (tmap t') \<and> agrees (now w') (tmap t') (log_map (now w') ops)"
    if "n \<le> now w" for n
    using replay_agrees [OF assms(1,3,4) that f, of "now w'" Map.empty Map.empty] assms(5)
    by (simp add: log_map_def)
  have "good_map (tmap t')"
    using replay_good [OF assms(1,3,4,6) _ f] assms(5) by (simp add: good_map_def)
  moreover have "aof_text w' = aof_text w" using fr by (simp add: aof_text_def)
  ultimately have "durable ops t' w'" using fr both [of "now w"] assms(6,7) by (simp add: durable_def)
  moreover have "persistence_load t w = Some (True, t', w')"
    using load_replays [OF assms(1,2,4,6,7)] f by simp
  moreover have "exact {k. permanent k ops} ops t'"
    using replay_permanent [OF assms(1,3,4) _ f, of _ Map.empty] assms(5) by (simp add: exact_def log_map_def)
  ultimately show ?thesis using fr both assms(2) by (auto simp: io_ok_def)
qed

subsection \<open>Commands\<close>

text \<open>An environment in which nothing fails and the clock never runs backwards.\<close>

definition healthy :: "world \<Rightarrow> bool" where
  "healthy w \<longleftrightarrow> mem_ok w \<and> io_ok w \<and> clock_ok w"

text \<open>The invariant after a step, with the log exact for the keys \<open>K\<close>.\<close>

definition keeps_durable :: "cstr set \<Rightarrow> world \<Rightarrow> hash_table \<Rightarrow> world \<Rightarrow> bool" where
  "keeps_durable K w t' w' \<longleftrightarrow>
     healthy w' \<and> now w \<le> now w' \<and> (\<exists>ops. durable ops t' w' \<and> exact K ops t')"

lemma exact_nothing [simp]: "exact {} ops t"
  by (simp add: exact_def)

text \<open>The log grows with the table.\<close>

lemma durable_set:
  assumes "durable ops t w" "wf_table t'" "tmap t' = (tmap t)(k \<mapsto> (v, x))" "good_op (Op_set k v x)"
    and "aof_text w' = aof_text w @ set_record k v x" "now w \<le> now w'"
  shows "durable (ops @ [Op_set k v x]) t' w'"
proof -
  have "agrees (now w) (tmap t) (log_map (now w) ops)" using assms(1) by (simp add: durable_def)
  then have "agrees (now w') (tmap t) (log_map (now w') ops)" using assms(6) by (rule agrees_later)
  from agrees_set [OF this] assms show ?thesis by (auto simp: durable_def good_map_def)
qed

lemma durable_del:
  assumes "durable ops t w" "wf_table t'" "tmap t' = (tmap t)(k := None)" "good_op (Op_del k)"
    and "aof_text w' = aof_text w @ del_record k" "now w \<le> now w'"
  shows "durable (ops @ [Op_del k]) t' w'"
proof -
  have "agrees (now w) (tmap t) (log_map (now w) ops)" using assms(1) by (simp add: durable_def)
  then have "agrees (now w') (tmap t) (log_map (now w') ops)" using assms(6) by (rule agrees_later)
  from agrees_del [OF this] assms show ?thesis by (auto simp: durable_def good_map_def)
qed

lemma durable_later:
  "durable ops t w \<Longrightarrow> aof_text w' = aof_text w \<Longrightarrow> now w \<le> now w' \<Longrightarrow> durable ops t w'"
  using agrees_later by (auto simp: durable_def)

lemma set_durable:
  assumes "durable ops t w" "healthy w" "set_request argv = Some (k, v, expiry)" "c_field k" "c_field v"
    and "cmd_set n argv t w = (st, r, t', w')"
  shows "healthy w' \<and> now w \<le> now w' \<and> durable (ops @ [Op_set k v (expiry_time (now w) expiry)]) t' w'
    \<and> tmap t' = (tmap t)(k \<mapsto> (v, expiry_time (now w) expiry))"
proof -
  have wf: "wf_table t" and h: "mem_ok w" "io_ok w" "clock_ok w"
    using assms(1,2) by (simp_all add: durable_def healthy_def)
  note res = cmd_set_healthy [OF wf assms(3,6) h(1,2)]
  have tick: "mem_ok (tick expiry w)" "io_ok (tick expiry w)" "clock_ok (tick expiry w)" "now w \<le> now (tick expiry w)"
    using h clock_ok_tick now_tick by (cases expiry; simp add: tick_def mem_ok_def io_ok_def)+
  have "good_op (Op_set k v (expiry_time (now w) expiry))"
    using assms(4,5) wrap64_range by (simp add: expiry_time_def add_time_def split: option.split)
  moreover have "aof_text w' = aof_text w @ set_record k v (expiry_time (now w) expiry)"
    using res by (simp add: aof_text_def)
  ultimately have "durable (ops @ [Op_set k v (expiry_time (now w) expiry)]) t' w'"
    using durable_set [OF assms(1)] res tick by simp
  then show ?thesis using res tick by (simp add: healthy_def)
qed

lemma only_clock_durable:
  "durable ops t w \<Longrightarrow> healthy w \<Longrightarrow> only_clock w w' \<Longrightarrow> healthy w' \<and> now w \<le> now w' \<and> durable ops t w'"
  using only_clock_ok [of w w'] durable_later [of ops t w w']
  by (auto simp: healthy_def only_clock_def)

lemma del_durable:
  assumes "durable ops t w" "healthy w" "exact K ops t" "length argv = 2" "c_field (argv ! 1)"
    and "cmd_del n argv t w = (st, r, t', w')"
  shows "keeps_durable K w t' w'"
proof -
  have wf: "wf_table t" using assms(1) by (simp add: durable_def)
  from wf assms(4,6) show ?thesis
  proof (cases rule: cmd_del_cases)
    case absent
    then show ?thesis using only_clock_durable [OF assms(1,2)] assms(3) by (auto simp: keeps_durable_def)
  next
    case (deleted w1)
    from only_clock_durable [OF assms(1,2) deleted(6)] have w1: "healthy w1" "now w \<le> now w1" "durable ops t w1"
      by simp_all
    then have "w' = w1\<lparr>files := (files w1)(aof_file \<mapsto> aof_text w1 @ del_record (argv ! 1))\<rparr>"
      using deleted(7) by (simp add: append_record_ok healthy_def)
    with w1 durable_del [OF w1(3) deleted(3,4), of w'] exact_del [OF assms(3) deleted(4)] assms(5) show ?thesis
      by (auto simp: keeps_durable_def healthy_def aof_text_def)
  next
    case (no_file w1)
    have "io_ok w1" using only_clock_ok [OF no_file(4)] assms(2) by (simp add: healthy_def)
    then show ?thesis using no_file(5) by (simp add: append_record_ok)
  qed
qed

text \<open>The log that a rewrite leaves.\<close>

lemma log_map_entries:
  assumes "distinct (map key es)"
  shows "log_map n (map entry_op es) k = (case chain_find k es of
     None \<Rightarrow> None | Some e \<Rightarrow> if live_at n (expires_at e) then Some (content e) else None)"
  using assms
proof (induction es rule: rev_induct)
  case (snoc e es)
  have step: "log_map n (map entry_op (es @ [e])) = log_step n (entry_op e) (log_map n (map entry_op es))" by simp
  have fresh: "k = key e \<Longrightarrow> chain_find k es = None" using snoc.prems by (simp add: chain_find_None)
  have "log_map n (map entry_op es) k = (case chain_find k es of
     None \<Rightarrow> None | Some e \<Rightarrow> if live_at n (expires_at e) then Some (content e) else None)"
    using snoc.IH snoc.prems by simp
  with fresh show ?case
    unfolding step chain_find_append entry_op_def log_step.simps content_def
    by (cases "k = key e") (auto split: option.split)
qed simp

lemma survivors_log:
  assumes "wf_table t" "good_map (tmap t)" "clock_ok w"
  defines "es \<equiv> fst (survivors (entries t) w)" and "n \<equiv> now (snd (survivors (entries t) w))"
  shows "(\<forall>op \<in> set (map entry_op es). good_op op) \<and> agrees n (tmap t) (log_map n (map entry_op es))
    \<and> agrees n (log_map n (map entry_op es)) (tmap t) \<and> distinct (map key es)"
proof -
  have d: "distinct (map key es)" unfolding es_def using survivors_distinct wf_distinct [OF assms(1)] .
  have sub: "set es \<subseteq> set (entries t)" unfolding es_def by (rule survivors_subset)
  have m: "tmap t (key e) = Some (content e)" if "e \<in> set es" for e
    using that sub find_entry_iff [OF assms(1), of "key e" e] by (auto simp: tmap_def)
  then have "\<forall>op \<in> set (map entry_op es). good_op op"
    using assms(2) unfolding good_map_def entry_op_def content_def by fastforce
  moreover have "agrees n (log_map n (map entry_op es)) (tmap t)"
    using m chain_find_iff [OF d] by (auto simp: agrees_def log_map_entries [OF d] split: option.splits if_splits)
  moreover have "agrees n (tmap t) (log_map n (map entry_op es))"
    unfolding agrees_def
  proof (intro allI impI)
    fix k v x
    assume a: "tmap t k = Some (v, x) \<and> live_at n x"
    then obtain e where e: "find_entry t k = Some e" "v = val e" "x = expires_at e"
      by (auto simp: tmap_def content_def)
    then have "e \<in> set (entries t)" "key e = k" using find_entry_iff [OF assms(1)] by simp_all
    moreover have "e \<in> set es"
      using survivors_live [of w e "entries t"] a e calculation assms(3) by (simp add: es_def n_def)
    ultimately show "log_map n (map entry_op es) k = Some (v, x)"
      using chain_find_iff [OF d, of k e] a e by (simp add: log_map_entries [OF d] content_def)
  qed
  ultimately show ?thesis using d by blast
qed

lemma survivors_exact:
  assumes "wf_table t" "clock_ok w" "exact K ops t"
  shows "exact K (map entry_op (fst (survivors (entries t) w))) t"
  unfolding exact_def
proof (intro ballI conjI allI)
  fix k n
  assume k: "k \<in> K"
  let ?es = "fst (survivors (entries t) w)"
  have d: "distinct (map key ?es)" using survivors_distinct wf_distinct [OF assms(1)] .
  have p: "expires_at e = 0" if "find_entry t k = Some e" for e
    using assms(3) k permanent_log [of k ops n "val e" "expires_at e"] tmap_find [OF that] by (auto simp: exact_def)
  have e: "find_entry t k = Some e" if "e \<in> set ?es" "key e = k" for e
    using that survivors_subset find_entry_iff [OF assms(1)] by blast
  show "permanent k (map entry_op ?es)"
    using e p by (auto simp: permanent_def entry_op_def)
  have "chain_find k ?es = find_entry t k"
  proof (rule option_eqI)
    fix e
    have "e \<in> set ?es" if "find_entry t k = Some e"
      using that p [OF that] survivors_live [OF assms(2), of e "entries t"] find_entry_iff [OF assms(1)] by simp
    with e show "chain_find k ?es = Some e \<longleftrightarrow> find_entry t k = Some e"
      using chain_find_iff [OF d] find_entry_key by blast
  qed
  then show "tmap t k = log_map n (map entry_op ?es) k"
    using p by (auto simp: log_map_entries [OF d] tmap_def split: option.split)
qed

lemma rewrite_durable:
  assumes "durable ops t w" "healthy w" "persistence_rewrite t w = (ok, w')"
  shows "ok \<and> healthy w' \<and> now w \<le> now w' \<and> durable (map entry_op (fst (survivors (entries t) w))) t w'"
proof -
  let ?es = "fst (survivors (entries t) w)" and ?w = "snd (survivors (entries t) w)"
  have wf: "wf_table t" and g: "good_map (tmap t)" using assms(1) by (simp_all add: durable_def)
  have h: "healthy ?w" "now w \<le> now ?w"
    using survivors_frame [of "entries t" w] survivors_clock [of w "entries t"] assms(2)
    by (simp_all add: healthy_def mem_ok_def io_ok_def)
  have w': "ok" "w' = ?w\<lparr>files := (files w)(aof_file \<mapsto> concat (map (\<lambda>e. render (entry_op e)) ?es), tmp_file := None)\<rparr>"
    using assms(2,3) by (simp_all add: rewrite_ok healthy_def)
  have "aof_file \<noteq> tmp_file" by (simp add: aof_file_def tmp_file_def)
  then have log: "aof_text w' = concat (map render (map entry_op ?es))"
    by (simp add: w' aof_text_def comp_def)
  have "clock_ok w" using assms(2) by (simp add: healthy_def)
  from survivors_log [OF wf g this] wf g log have "durable (map entry_op ?es) t w'"
    by (auto simp: durable_def w')
  then show ?thesis using w' h by (simp add: healthy_def)
qed

lemma exit_durable:
  assumes "durable ops t w" "healthy w" "exact K ops t" "cmd_exit n argv t w = (st, r, t', w')"
  shows "keeps_durable K w t' w'"
proof (cases "length argv = 1")
  case True
  have "exact K (map entry_op (fst (survivors (entries t) w))) t"
    using survivors_exact [OF _ _ assms(3)] assms(1,2) by (simp add: durable_def healthy_def)
  with True assms(4) show ?thesis
    by (cases rule: cmd_exit_cases) (use rewrite_durable [OF assms(1,2)] in \<open>auto simp: keeps_durable_def\<close>)
next
  case False
  then show ?thesis using assms by (auto simp: cmd_exit_def keeps_durable_def)
qed

text \<open>The line asks for an expiration of the key.\<close>

fun expires_key :: "cstr \<Rightarrow> (cstr \<times> cstr \<times> int option) option \<Rightarrow> bool" where
  "expires_key k (Some (k', _, Some _)) = (k' = k)"
| "expires_key k _ = False"

definition gives_expiry :: "cstr \<Rightarrow> cstr \<Rightarrow> bool" where
  "gives_expiry k input = (case parse_command input max_args of None \<Rightarrow> False | Some argv \<Rightarrow> expires_key k (set_request argv))"

lemma dispatch_durable:
  assumes "durable ops t w" "healthy w" "exact K ops t" "\<forall>a \<in> set argv. c_field a" "\<forall>k \<in> K. \<not> expires_key k (set_request argv)"
    and "dispatch c n argv t w = (st, r, t', w')"
  shows "keeps_durable K w t' w'"
proof -
  have same: "keeps_durable K w t w" using assms(1-3) by (auto simp: keeps_durable_def)
  have reads: "keeps_durable K w t' w'" if "t' = t \<and> only_clock w w'"
    using only_clock_durable [OF assms(1,2)] assms(3) that by (auto simp: keeps_durable_def)
  consider "cmd_set n argv t w = (st, r, t', w')" | "cmd_get n argv t w = (st, r, t', w')"
    | "cmd_ttl n argv t w = (st, r, t', w')" | "cmd_del n argv t w = (st, r, t', w')"
    | "cmd_exit n argv t w = (st, r, t', w')" | "t' = t" "w' = w"
    using assms(6) by (auto simp: dispatch_def cmd_ping_def split: if_splits)
  then show ?thesis
  proof cases
    case 1
    show ?thesis
    proof (cases "set_request argv")
      case None
      with 1 cmd_set_refused [OF None, of n t w] same show ?thesis by auto
    next
      case (Some req)
      obtain k v ex where req: "req = (k, v, ex)" by (cases req) auto
      have "k \<in> set argv" "v \<in> set argv" using Some req
        by (induction argv rule: set_request.induct) (auto split: if_splits option.splits)
      then have f: "c_field k" "c_field v" using assms(4) by auto
      have x: "k \<in> K \<Longrightarrow> expiry_time (now w) ex = 0"
        using assms(5) Some req by (cases ex) (auto simp: expiry_time_def)
      from set_durable [OF assms(1,2) Some [unfolded req] f 1] exact_set [OF assms(3) _ x] show ?thesis
        unfolding keeps_durable_def by blast
    qed
  next
    case 4
    show ?thesis
    proof (cases "length argv = 2")
      case True
      with del_durable [OF assms(1-3) True _ 4] assms(4) show ?thesis by simp
    next
      case False
      with 4 same show ?thesis by (auto simp: cmd_del_def)
    qed
  next
    case 5
    then show ?thesis by (rule exit_durable [OF assms(1-3)])
  qed (use reads cmd_get_frame cmd_ttl_frame same in blast)+
qed

lemma execute_durable:
  assumes "durable ops t w" "healthy w" "exact K ops t" "c_field input" "\<forall>k \<in> K. \<not> gives_expiry k input"
    and "command_execute t input n w = (st, r, t', w')"
  shows "keeps_durable K w t' w'"
proof (cases "parse_command input max_args")
  case None
  with assms show ?thesis by (auto simp: command_execute_def keeps_durable_def)
next
  case (Some argv)
  have a: "\<forall>a \<in> set argv. c_field a"
    using parse_command_short [OF _ Some] parse_command_no_nul [OF Some] assms(4)
    by (fastforce simp: c_field_def)
  have "\<forall>k \<in> K. \<not> expires_key k (set_request argv)" using assms(5) Some by (simp add: gives_expiry_def)
  with dispatch_durable [OF assms(1-3) a] assms Some show ?thesis
    by (auto simp: command_execute_def keeps_durable_def split: if_splits)
qed

text \<open>What a command does to the file when anything may fail: the key it can concern is its first argument.\<close>

definition touched :: "cstr \<Rightarrow> cstr set" where
  "touched input = (case parse_command input max_args of Some (_ # k # _) \<Rightarrow> {k} | _ \<Rightarrow> {})"

definition file_step :: "hash_table \<Rightarrow> cstr set \<Rightarrow> world \<Rightarrow> world \<Rightarrow> bool" where
  "file_step t ks w w' \<longleftrightarrow>
     (\<exists>op p. good_op op \<and> op_key op \<in> ks \<and> prefix p (render op) \<and> aof_text w' = aof_text w @ p)
     \<or> aof_text w' = aof_text w \<or> persistence_rewrite t w = (True, w')"

lemma cmd_set_file:
  assumes "wf_table t" "\<forall>a \<in> set argv. c_field a" "cmd_set n argv t w = (st, r, t', w')"
  shows "file_step t (case argv of _ # k # _ \<Rightarrow> {k} | _ \<Rightarrow> {}) w w'"
proof (cases "set_request argv")
  case None
  with assms(3) cmd_set_refused [OF None, of n t w] show ?thesis by (auto simp: file_step_def)
next
  case (Some req)
  obtain k v ex where req: "req = (k, v, ex)" by (cases req) auto
  have k: "k \<in> (case argv of _ # k # _ \<Rightarrow> {k} | _ \<Rightarrow> {})" "k \<in> set argv" "v \<in> set argv" using Some req
    by (induction argv rule: set_request.induct) (auto split: if_splits option.splits)
  then have g: "good_op (Op_set k v (expiry_time (now w) ex))"
    using assms(2) wrap64_range by (simp add: expiry_time_def add_time_def split: option.split)
  from cmd_set_cases [OF assms(1) Some [unfolded req] assms(3)]
  obtain p where "prefix p (render (Op_set k v (expiry_time (now w) ex)))" "aof_text w' = aof_text w @ p"
    by (metis prefix_order.refl render.simps(1))
  with g k(1) show ?thesis unfolding file_step_def by (metis op_key.simps(1))
qed

lemma deletion_file:
  assumes "good_op (Op_del k)" "only_clock w w1" "append_record (del_record k) w1 = (b, w')"
  shows "file_step t {k} w w'"
  using append_record_prefix [OF assms(3)] assms(1) only_clock_ok [OF assms(2)]
  unfolding file_step_def by (metis op_key.simps(2) render.simps(2) singletonI)

lemma cmd_del_file:
  assumes "wf_table t" "\<forall>a \<in> set argv. c_field a" "cmd_del n argv t w = (st, r, t', w')"
  shows "file_step t (case argv of _ # k # _ \<Rightarrow> {k} | _ \<Rightarrow> {}) w w'"
proof (cases "length argv = 2")
  case True
  then obtain c k where argv: "argv = [c, k]" by (auto simp: length_Suc_conv numeral_2_eq_2)
  with assms(2) have g: "good_op (Op_del (argv ! 1))" by simp
  from assms(1) True assms(3) show ?thesis
  proof (cases rule: cmd_del_cases)
    case absent
    then show ?thesis using only_clock_ok by (auto simp: file_step_def)
  next
    case (deleted w1)
    then show ?thesis using deletion_file [OF g deleted(6,7)] by (simp add: argv)
  next
    case (no_file w1)
    then show ?thesis using deletion_file [OF g no_file(4,5)] by (simp add: argv)
  qed
next
  case False
  with assms(3) show ?thesis by (auto simp: cmd_del_def file_step_def)
qed

lemma cmd_exit_file:
  assumes "cmd_exit n argv t w = (st, r, t', w')"
  shows "file_step t ks w w'"
proof (cases "length argv = 1")
  case True
  from True assms show ?thesis
    by (cases rule: cmd_exit_cases) (use rewrite_failure_atomic in \<open>auto simp: file_step_def aof_text_def\<close>)
next
  case False
  with assms show ?thesis by (auto simp: cmd_exit_def file_step_def)
qed

lemma dispatch_file:
  assumes "wf_table t" "\<forall>a \<in> set argv. c_field a" "dispatch c n argv t w = (st, r, t', w')"
  shows "file_step t (case argv of _ # k # _ \<Rightarrow> {k} | _ \<Rightarrow> {}) w w'"
proof -
  consider "cmd_set n argv t w = (st, r, t', w')" | "cmd_get n argv t w = (st, r, t', w')"
    | "cmd_ttl n argv t w = (st, r, t', w')" | "cmd_del n argv t w = (st, r, t', w')"
    | "cmd_exit n argv t w = (st, r, t', w')" | "t' = t" "w' = w"
    using assms(3) by (auto simp: dispatch_def cmd_ping_def split: if_splits)
  then show ?thesis
  proof cases
    case 1
    then show ?thesis by (rule cmd_set_file [OF assms(1,2)])
  next
    case 4
    then show ?thesis by (rule cmd_del_file [OF assms(1,2)])
  next
    case 5
    then show ?thesis by (rule cmd_exit_file)
  qed (use cmd_get_frame cmd_ttl_frame only_clock_ok in \<open>auto simp: file_step_def\<close>)
qed

lemma execute_file:
  assumes "wf_table t" "c_field input" "command_execute t input n w = (st, r, t', w')"
  shows "file_step t (touched input) w w'"
proof (cases "parse_command input max_args")
  case None
  with assms show ?thesis by (simp add: command_execute_def file_step_def)
next
  case (Some argv)
  have "\<forall>a \<in> set argv. c_field a"
    using parse_command_short [OF _ Some] parse_command_no_nul [OF Some] assms(2)
    by (fastforce simp: c_field_def)
  from dispatch_file [OF assms(1) this] assms(3) Some show ?thesis
    by (cases "argv = []") (auto simp: command_execute_def touched_def file_step_def)
qed

text \<open>Sessions: a list of command lines, executed one after the other, with a response buffer of \<open>n\<close> bytes.\<close>

fun session :: "nat \<Rightarrow> cstr list \<Rightarrow> hash_table \<Rightarrow> world \<Rightarrow> hash_table \<times> world" where
  "session n [] t w = (t, w)"
| "session n (input # inputs) t w =
     (case command_execute t input n w of (_, _, t, w) \<Rightarrow> session n inputs t w)"

lemma session_snoc:
  "session n (inputs @ [i]) t w = (case session n inputs t w of (t, w) \<Rightarrow>
     (case command_execute t i n w of (_, _, t, w) \<Rightarrow> (t, w)))"
  by (induction inputs arbitrary: t w) (auto split: prod.split)

lemma session_durable:
  "durable ops t w \<Longrightarrow> healthy w \<Longrightarrow> exact K ops t \<Longrightarrow> \<forall>i \<in> set inputs. c_field i \<and> (\<forall>k \<in> K. \<not> gives_expiry k i) \<Longrightarrow>
   session n inputs t w = (t', w') \<Longrightarrow> keeps_durable K w t' w'"
proof (induction inputs arbitrary: ops t w)
  case Nil
  then show ?case by (auto simp: keeps_durable_def)
next
  case (Cons i rest)
  obtain st r t1 w1 where c: "command_execute t i n w = (st, r, t1, w1)" by (metis prod_cases4)
  from execute_durable [OF Cons.prems(1-3) _ _ c] Cons.prems(4) obtain ops1
    where 1: "healthy w1" "now w \<le> now w1" "durable ops1 t1 w1" "exact K ops1 t1" by (auto simp: keeps_durable_def)
  from Cons.IH [OF 1(3,1,4)] Cons.prems(4,5) c 1(2) show ?case by (auto simp: keeps_durable_def)
qed

end
