(* ===== verification/MainProgram.thy ===== *)
theory MainProgram
  imports Durability
begin

text \<open>
  The start of the program, after \<^verbatim>\<open>src/main.c\<close>: the table is created with eight buckets and filled
  from the append-only file before the server opens its port.  The lemmas say what a start finds
  again after a run of the server, after a crash in the middle of a command, and after EXIT.
\<close>

definition initial_size :: nat where
  "initial_size = 8"

text \<open>
  \<open>None\<close> is the overflow of \<open>Scan_overflow\<close>; inside, \<open>None\<close> is the exit with status \<open>1\<close> and \<open>Some t\<close> the
  table the server is started with.
\<close>

definition start_up :: "world \<Rightarrow> (hash_table option \<times> world) option" where
  "start_up w =
     (let (table, w) = hash_table_create initial_size w in
      case table of
        None \<Rightarrow> Some (None, w)
      | Some t \<Rightarrow>
          (case persistence_load t w of
             None \<Rightarrow> None
           | Some (ok, t, w) \<Rightarrow> if \<not> ok then Some (None, w) else Some (Some t, w)))"

subsection \<open>A start on a file of records\<close>

lemma create_empty:
  assumes "mem_ok w"
  shows "\<exists>t. hash_table_create initial_size w = (Some t, w) \<and> wf_table t \<and> tmap t = Map.empty"
  using create_wf [of initial_size w _ w] create_ok [OF assms, of initial_size] by (simp add: initial_size_def)

lemma start_up_durable:
  assumes "healthy w" "\<forall>op \<in> set ops. good_op op" "aof_text w = concat (map render ops)"
  shows "\<exists>t' w'. start_up w = Some (Some t', w') \<and> durable ops t' w' \<and> healthy w' \<and> now w \<le> now w'
    \<and> files w' = files w \<and> (\<forall>n \<le> now w. agrees (now w') (log_map n ops) (tmap t')) \<and> exact {k. permanent k ops} ops t'"
proof -
  from assms(1) have h: "mem_ok w" "io_ok w" "clock_ok w" by (simp_all add: healthy_def)
  obtain t where t: "hash_table_create initial_size w = (Some t, w)" "wf_table t" "tmap t = Map.empty"
    using create_empty [OF h(1)] by blast
  from load_durable [OF h t(2,3) assms(2,3)] obtain t' w' where
    l: "persistence_load t w = Some (True, t', w')" and
    r: "durable ops t' w' \<and> clock_ok w' \<and> mem_ok w' \<and> io_ok w' \<and> now w \<le> now w' \<and> files w' = files w
      \<and> (\<forall>n \<le> now w. agrees (now w') (log_map n ops) (tmap t')) \<and> exact {k. permanent k ops} ops t'" by blast
  have "start_up w = Some (Some t', w')" using t(1) l by (simp add: start_up_def)
  with r show ?thesis by (auto simp: healthy_def)
qed

text \<open>A restart on the file a durable state has.\<close>

lemma restart_agrees:
  assumes "durable ops t w" "exact K ops t" "healthy w1" "aof_text w1 = aof_text w" "now w \<le> now w1"
  shows "\<exists>t' w'. start_up w1 = Some (Some t', w') \<and> durable ops t' w' \<and> healthy w' \<and> now w1 \<le> now w'
    \<and> agrees (now w') (tmap t) (tmap t') \<and> (\<forall>k \<in> K. tmap t' k = tmap t k)"
proof -
  have d: "\<forall>op \<in> set ops. good_op op" "aof_text w1 = concat (map render ops)"
    "agrees (now w) (tmap t) (log_map (now w) ops)" using assms(1,4) by (simp_all add: durable_def)
  from start_up_durable [OF assms(3) d(1,2)] obtain t' w' where
    s: "start_up w1 = Some (Some t', w')" "durable ops t' w'" "healthy w'" "now w1 \<le> now w'"
      "agrees (now w') (log_map (now w) ops) (tmap t')" "exact {k. permanent k ops} ops t'" using assms(5) by blast
  have e: "\<forall>k \<in> K. tmap t' k = tmap t k"
    using s(6) assms(2) unfolding exact_def by (metis mem_Collect_eq)
  have "now w \<le> now w'" using s(4) assms(5) by linarith
  with d(3) have "agrees (now w') (tmap t) (log_map (now w) ops)" by (rule agrees_mono)
  with s e show ?thesis using agrees_trans by blast
qed

subsection \<open>A start after a crash in the middle of a command\<close>

lemma start_up_torn:
  assumes "healthy w" "\<forall>op \<in> set ops. good_op op" "good_op op" "p \<noteq> []" "strict_prefix p (render op)"
    and "aof_text w = concat (map render ops) @ p"
  shows "\<exists>w'. start_up w = Some (None, w')"
proof -
  have h: "mem_ok w" "io_ok w" using assms(1) by (simp_all add: healthy_def)
  obtain t where t: "hash_table_create initial_size w = (Some t, w)" "wf_table t"
    using create_empty [OF h(1)] by blast
  have contents: "files w aof_file = Some (concat (map render ops) @ p)"
    using assms(4,6) by (auto simp: aof_text_def split: option.splits)
  obtain t1 w1 where f: "fold replay_op ops (t, w) = (t1, w1)" by fastforce
  from load_loop_log [OF h(1) t(2) assms(2) f] load_loop_torn [OF _ assms(3-5), of w1 t1]
  obtain t2 w2 where "persistence_load t w = Some (False, t2, w2)"
    using contents h(2) by (auto simp: persistence_load_def fopen_read_ok)
  with t(1) show ?thesis by (simp add: start_up_def)
qed

text \<open>Bindings of other keys than those in \<open>ks\<close>.\<close>

definition recovers :: "cstr set \<Rightarrow> hash_table \<Rightarrow> hash_table \<Rightarrow> time_t \<Rightarrow> bool" where
  "recovers ks t t' n \<longleftrightarrow> (\<forall>k v. k \<notin> ks \<and> visible n (tmap t) k = Some v \<longrightarrow> visible n (tmap t') k = Some v)"

lemma recovers_agrees:
  "agrees n (tmap t) l \<Longrightarrow> (\<And>k. k \<notin> ks \<Longrightarrow> l' k = l k) \<Longrightarrow> agrees n l' (tmap t') \<Longrightarrow> recovers ks t t' n"
  unfolding recovers_def agrees_def visible_iff by metis

lemma log_map_other: "op_key op \<noteq> k \<Longrightarrow> log_map n (ops @ [op]) k = log_map n ops k"
  by (cases op) auto

text \<open>Starting on a whole log whose values at other keys than those in \<open>ks\<close> are those of the
table.\<close>

lemma start_up_recovers:
  assumes "healthy w1" "\<forall>op \<in> set ops. good_op op" "aof_text w1 = concat (map render ops)" "m \<le> now w1"
    "agrees m (tmap t) l" "\<And>k. k \<notin> ks \<Longrightarrow> log_map m ops k = l k"
  shows "\<exists>t2 w2. start_up w1 = Some (Some t2, w2) \<and> recovers ks t t2 (now w2)"
proof -
  from start_up_durable [OF assms(1-3)] assms(4) obtain t2 w2 where
    s: "start_up w1 = Some (Some t2, w2)" "durable ops t2 w2" "now w1 \<le> now w2"
      "agrees (now w2) (log_map m ops) (tmap t2)" by blast
  have "m \<le> now w2" using s(3) assms(4) by linarith
  then have "agrees (now w2) (tmap t) l" by (rule agrees_mono [OF assms(5)])
  then have "recovers ks t t2 (now w2)" using recovers_agrees assms(6) s(4) by blast
  with s show ?thesis by (auto simp: durable_def)
qed

lemma crash_recovers:
  assumes "durable ops t w" "clock_ok w" "c_field input" "command_execute t input n w = (st, r, t', w')"
    and "healthy w1" "aof_text w1 = aof_text w'" "now w \<le> now w1" "now w' \<le> now w1"
  shows "(\<exists>t2 w2. start_up w1 = Some (Some t2, w2) \<and> recovers (touched input) t t2 (now w2))
    \<or> (\<exists>op p w2. op_key op \<in> touched input \<and> p \<noteq> [] \<and> strict_prefix p (render op) \<and> aof_text w' = aof_text w @ p
        \<and> start_up w1 = Some (None, w2))"
proof -
  have d: "wf_table t" "good_map (tmap t)" "\<forall>op \<in> set ops. good_op op" "aof_text w = concat (map render ops)"
    "agrees (now w) (tmap t) (log_map (now w) ops)" using assms(1) by (simp_all add: durable_def)
  have go: ?thesis if "\<forall>op \<in> set ops'. good_op op" "aof_text w1 = concat (map render ops')" "m \<le> now w1"
    "agrees m (tmap t) l" "\<And>k. k \<notin> touched input \<Longrightarrow> log_map m ops' k = l k" for ops' m l
    using start_up_recovers [OF assms(5) that] by blast
  from execute_file [OF d(1) assms(3,4)] consider
    op p where "good_op op" "op_key op \<in> touched input" "prefix p (render op)" "aof_text w' = aof_text w @ p"
    | "aof_text w' = aof_text w" | "persistence_rewrite t w = (True, w')"
    by (auto simp: file_step_def)
  then show ?thesis
  proof cases
    case 1
    consider "p = []" | "p = render op" | "p \<noteq> []" "strict_prefix p (render op)"
      using 1(3) by (auto simp: strict_prefix_def)
    then show ?thesis
    proof cases
      case 2
      show ?thesis
      proof (rule go [OF _ _ assms(7) d(5)])
        show "\<forall>op' \<in> set (ops @ [op]). good_op op'" using d(3) 1(1) by auto
        show "aof_text w1 = concat (map render (ops @ [op]))" using 1(4) 2 d(4) assms(6) by simp
        show "log_map (now w) (ops @ [op]) k = log_map (now w) ops k" if "k \<notin> touched input" for k
          using 1(2) that by (intro log_map_other) auto
      qed
    next
      case 3
      then have "aof_text w1 = concat (map render ops) @ p" using 1(4) d(4) assms(6) by simp
      from start_up_torn [OF assms(5) d(3) 1(1) 3 this] 1(2,4) 3 show ?thesis by blast
    qed (use go [OF d(3) _ assms(7) d(5)] 1(4) d(4) assms(6) in simp)
  next
    case 2
    then show ?thesis using go [OF d(3) _ assms(7) d(5)] d(4) assms(6) by simp
  next
    case 3
    note r = rewrite_success [OF 3] and s = survivors_log [OF d(1,2) assms(2)]
    have n: "now w' = now (snd (survivors (entries t) w))" using r by (simp add: now_def)
    show ?thesis
    proof (rule go)
      show "\<forall>op \<in> set (map entry_op (fst (survivors (entries t) w))). good_op op" using s by blast
      show "aof_text w1 = concat (map render (map entry_op (fst (survivors (entries t) w))))"
        using r assms(6) by (simp add: comp_def)
      show "now w' \<le> now w1" by (rule assms(8))
      show "agrees (now w') (tmap t) (log_map (now w') (map entry_op (fst (survivors (entries t) w))))"
        using s n by simp
    qed simp
  qed
qed

subsection \<open>A start after EXIT\<close>

text \<open>The rewritten log has one record per key, so nothing older can come back.\<close>

lemma log_map_entries_earlier:
  assumes "distinct (map key es)" "n \<le> m"
  shows "agrees m (log_map m (map entry_op es)) (log_map n (map entry_op es))"
proof -
  have "log_map n (map entry_op es) k = Some b" if "log_map m (map entry_op es) k = Some b" for k b
  proof -
    from that obtain e where "chain_find k es = Some e" "live_at m (expires_at e)" "b = content e"
      unfolding log_map_entries [OF assms(1)] by (auto split: option.splits if_splits)
    moreover have "live_at n (expires_at e)" using live_at_mono [OF _ assms(2)] calculation(2) .
    ultimately show ?thesis unfolding log_map_entries [OF assms(1)] by simp
  qed
  then show ?thesis by (simp add: agrees_def)
qed

lemma exit_restart_exact:
  assumes "durable ops t w" "healthy w" "persistence_rewrite t w = (True, w')"
    and "healthy w1" "aof_text w1 = aof_text w'" "now w' \<le> now w1"
  shows "\<exists>t2 w2. start_up w1 = Some (Some t2, w2) \<and> durable (map entry_op (fst (survivors (entries t) w))) t2 w2
    \<and> visible (now w2) (tmap t2) = visible (now w2) (tmap t)"
proof -
  let ?ops = "map entry_op (fst (survivors (entries t) w))" and ?n = "now (snd (survivors (entries t) w))"
  have d: "wf_table t" "good_map (tmap t)" "clock_ok w" using assms(1,2) by (simp_all add: durable_def healthy_def)
  note r = rewrite_success [OF assms(3)] and s = survivors_log [OF d]
  have n: "?n = now w'" using r by (simp add: now_def)
  have "aof_text w1 = concat (map render ?ops)" using r assms(5) by (simp add: comp_def)
  from start_up_durable [OF assms(4) conjunct1 [OF s] this] obtain t2 w2 where
    u: "start_up w1 = Some (Some t2, w2)" "durable ?ops t2 w2" "now w1 \<le> now w2"
      "\<forall>m \<le> now w1. agrees (now w2) (log_map m ?ops) (tmap t2)" by blast
  have u4: "agrees (now w2) (log_map ?n ?ops) (tmap t2)" using u(4) assms(6) n by simp
  have later: "?n \<le> now w2" using u(3) assms(6) n by linarith
  have "agrees (now w2) (tmap t) (tmap t2)"
    using agrees_trans [OF agrees_mono [OF _ later] u4] s by blast
  moreover have "agrees (now w2) (tmap t2) (tmap t)"
  proof -
    have "agrees (now w2) (tmap t2) (log_map (now w2) ?ops)" using u(2) by (simp add: durable_def)
    moreover have "agrees (now w2) (log_map (now w2) ?ops) (log_map ?n ?ops)"
      using log_map_entries_earlier s later by blast
    moreover have "agrees (now w2) (log_map ?n ?ops) (tmap t)" using agrees_mono [OF _ later] s by blast
    ultimately show ?thesis using agrees_trans by blast
  qed
  ultimately have "visible (now w2) (tmap t2) k = visible (now w2) (tmap t) k" for k
    by (intro option_eqI) (use agrees_visible in blast)
  with u show ?thesis by blast
qed

end
