(* ===== verification/System.thy ===== *)
theory System
  imports Server MainProgram
begin

text \<open>
  The running program: the server thread and the worker pool together, and \<^verbatim>\<open>main\<close>.

  A round of the server calls \<open>worker_pool_submit\<close> several times, and the workers go on between these
  calls: \<open>performs\<close> carries the effects of a round out on the pool, with any steps of the workers in between.  The
  notification pipe is the list of everything written and the number of entries the server has read.
\<close>

subsection \<open>The effects of a round on the pool\<close>

inductive performs :: "effect list \<Rightarrow> state \<Rightarrow> state \<Rightarrow> bool" where
  nothing: "performs [] s s"
| alone: "pool_move s u \<Longrightarrow> performs es u s' \<Longrightarrow> performs es s s'"
| queued: "store (queue s) a = None \<Longrightarrow> \<not> shutting_down (queue s) \<Longrightarrow> may_wake wake s \<Longrightarrow>
    submit_step (Some a) fd c wake s = Next u \<Longrightarrow> performs es u s' \<Longrightarrow> performs (Queued fd c # es) s s'"
| refused: "\<forall>a. block = Some a \<longrightarrow> store (queue s) a = None \<and> shutting_down (queue s) \<Longrightarrow> may_wake wake s \<Longrightarrow>
    submit_step block fd c wake s = Next u \<Longrightarrow> performs es u s' \<Longrightarrow> performs (Refused fd c # es) s s'"
| other: "lines_of [e] = [] \<Longrightarrow> performs es s s' \<Longrightarrow> performs (e # es) s s'"

record system =
  clients :: "client_slot list"
  network :: net
  notes_read :: nat
  history :: "effect list"
  pool_state :: state

text \<open>A notification is the next entry of the pipe.\<close>

definition next_note :: "fd option \<Rightarrow> nat \<Rightarrow> fd list \<Rightarrow> nat \<Rightarrow> bool" where
  "next_note note n pipe n' \<longleftrightarrow>
     (case note of None \<Rightarrow> n' = n | Some fd \<Rightarrow> n < length pipe \<and> pipe ! n = fd \<and> n' = Suc n)"

definition fresh_client :: "input \<Rightarrow> client_slot list \<Rightarrow> bool" where
  "fresh_client inp slots \<longleftrightarrow>
     (case incoming inp of
        Some (Accepted fd) \<Rightarrow> fd \<noteq> -1 \<and> fd \<notin> set (taken_fds (after_notification inp slots))
      | _ \<Rightarrow> True)"

inductive system_step :: "system \<Rightarrow> system \<Rightarrow> bool" where
  workers: "pool_move (pool_state y) u \<Longrightarrow> system_step y (y\<lparr>pool_state := u\<rparr>)"
| server: "next_note (notified inp) (notes_read y) (notify_pipe (pool_state y)) n \<Longrightarrow> fresh_client inp (clients y) \<Longrightarrow>
    server_round inp (clients y) (network y) = Some (slots, net, es) \<Longrightarrow> performs es (pool_state y) u \<Longrightarrow>
    system_step y (y\<lparr>clients := slots, network := net, notes_read := n, history := history y @ es, pool_state := u\<rparr>)"

definition start_system :: "(nat \<Rightarrow> string) \<Rightarrow> net \<Rightarrow> hash_table \<Rightarrow> world \<Rightarrow> system" where
  "start_system g net t w =
     \<lparr>clients = initial_slots g, network = net, notes_read = 0, history = [], pool_state = start_state t w\<rparr>"

abbreviation system_run :: "system \<Rightarrow> system \<Rightarrow> bool" where
  "system_run \<equiv> system_step\<^sup>*\<^sup>*"

subsection \<open>What reaches the pool\<close>

fun queued_lines :: "effect list \<Rightarrow> (fd \<times> cstr) list" where
  "queued_lines [] = []"
| "queued_lines (Queued fd c # es) = (fd, c) # queued_lines es"
| "queued_lines (e # es) = queued_lines es"

lemma queued_lines_append [simp]: "queued_lines (es @ es') = queued_lines es @ queued_lines es'"
  by (induction es rule: queued_lines.induct) simp_all

lemma queued_lines_subset: "set (queued_lines es) \<subseteq> set (lines_of es)"
  by (induction es rule: queued_lines.induct) auto

lemma queued_lines_other: "lines_of [e] = [] \<Longrightarrow> queued_lines (e # es) = queued_lines es"
  by (cases e) simp_all

lemma pool_move_accepted: "pool_move s u \<Longrightarrow> accepted u = accepted s"
  using pool_moves_accepted [of s u] by blast

lemma performs_pool:
  "performs es s s' \<Longrightarrow> good_lines es \<Longrightarrow> reachable t0 w0 s \<Longrightarrow>
   reachable t0 w0 s' \<and> accepted s' = accepted s @ queued_lines es"
proof (induction rule: performs.induct)
  case (alone s u es s')
  then show ?case using more [OF _ pool_move_step] pool_move_accepted by simp
next
  case (queued s a wake fd c u es s')
  have c: "no_nul c" "length c \<le> max_command_size - 1"
    using queued.prems(1) by (auto simp: good_lines_def max_command_size_def buffer_size_def)
  have "step s u" by (rule step.submit [of "Some a" s wake c fd]) (use queued c in auto)
  then have r: "reachable t0 w0 u" using more queued.prems(2) by blast
  have "worker_pool_submit (Some a) fd (Some c) (Some (queue s)) \<noteq> Some (False, Some p)" for p
    using queued(2) by (auto simp: worker_pool_submit_def Let_def)
  with queued(4) have "accepted u = accepted s @ [(fd, c)]" using c(2)
    by (auto elim!: submit_step_cases)
  with r queued.IH queued.prems(1) show ?case by (simp add: good_lines_def)
next
  case (refused block s wake fd c u es s')
  have c: "no_nul c" using refused.prems(1) by (auto simp: good_lines_def)
  have "step s u" by (rule step.submit [of block s wake c fd]) (use refused c in auto)
  then have r: "reachable t0 w0 u" using more refused.prems(2) by blast
  have "worker_pool_submit block fd (Some c) (Some (queue s)) \<noteq> Some (True, Some p)" for p
    using refused(1) by (cases block) (auto simp: worker_pool_submit_def Let_def)
  with refused(3) have "accepted u = accepted s" by (auto elim!: submit_step_cases)
  with r refused.IH refused.prems(1) show ?case by (simp add: good_lines_def)
next
  case (other e es s s')
  then have "good_lines es" by (cases e) (simp_all add: good_lines_def)
  with other queued_lines_other [OF other(1), of es] show ?case by simp
qed simp

subsection \<open>The invariant of the program\<close>

definition system_inv :: "hash_table \<Rightarrow> world \<Rightarrow> system \<Rightarrow> bool" where
  "system_inv t0 w0 y \<longleftrightarrow> slots_ok (clients y) \<and> fair (network y) \<and> distinct (taken_fds (clients y))
     \<and> good_lines (history y) \<and> opened (history y) = closed (history y) + mset (taken_fds (clients y))
     \<and> reachable t0 w0 (pool_state y) \<and> accepted (pool_state y) = queued_lines (history y)"

text \<open>Notifications come from accepted commands, and their descriptors from clients.\<close>

lemma closings_fds: "set_mset (closings xs) \<subseteq> fst ` set (commands xs)"
proof (induction xs rule: rev_induct)
  case (snoc x xs)
  obtain fd c st r where "x = (fd, c, st, r)" by (cases x) auto
  with snoc show ?case by (auto simp: closes_def)
qed (simp add: closings_def)

lemma notify_accepted:
  assumes "reachable t0 w0 s" "fd \<in> set (notify_pipe s)"
  shows "fd \<in> fst ` set (accepted s)"
proof -
  obtain as D where "pool_inv t0 w0 as D s" using reachable_inv [OF assms(1)] by blast
  note I = pool_invD [OF this]
  have "fd \<in># closings (executed s)" using I(4) assms(2) by (simp add: inv_count_def)
  then have "fd \<in> fst ` set (commands (executed s))" using closings_fds by blast
  moreover have "set (commands (executed s)) \<subseteq> set (taken s)"
    using I(4) unfolding inv_count_def by (metis mset_subset_eq_add_left set_mset_mono set_mset_mset)
  moreover have "set (taken s) \<subseteq> set (accepted s)" using I(5) by (auto simp: inv_order_def)
  ultimately show ?thesis by blast
qed

lemma start_system_inv:
  assumes "fair net" "\<forall>i. length (g i) = buffer_size"
  shows "system_inv t0 w0 (start_system g net t0 w0)"
  using initial_slots_ok [OF assms(2)] assms(1) start
  by (simp add: system_inv_def start_system_def) (simp add: start_state_def)

lemma system_step_inv:
  assumes "system_step y y'" "system_inv t0 w0 y"
  shows "system_inv t0 w0 y'"
  using assms
proof (cases rule: system_step.cases)
  case (workers u)
  with assms(2) more [OF _ pool_move_step] pool_move_accepted show ?thesis by (auto simp: system_inv_def)
next
  case (server inp n slots net es u)
  have I: "slots_ok (clients y)" "fair (network y)" "distinct (taken_fds (clients y))" "good_lines (history y)"
    "opened (history y) = closed (history y) + mset (taken_fds (clients y))" "reachable t0 w0 (pool_state y)"
    "accepted (pool_state y) = queued_lines (history y)" using assms(2) by (simp_all add: system_inv_def)
  have "fd \<noteq> -1" if "notified inp = Some fd" for fd
  proof -
    have "fd \<in> set (notify_pipe (pool_state y))" using server(2) that by (auto simp: next_note_def)
    then have "fd \<in> fst ` set (lines_of (history y))"
      using notify_accepted [OF I(6)] I(7) queued_lines_subset [of "history y"] by auto
    then show ?thesis using I(4) by (auto simp: good_lines_def)
  qed
  then have "good_input inp (clients y)" using server(3) by (auto simp: good_input_def fresh_client_def)
  from server_round_handled [OF I(1,2) this] server(4) have h:
    "slots_ok slots" "fair net" "balanced (clients y) es slots" "good_lines es" "distinct (taken_fds slots)"
    using I(3) by (auto simp: handled_def)
  from performs_pool [OF server(5) h(4) I(6)] I(7) have
    "reachable t0 w0 u" "accepted u = queued_lines (history y @ es)" by simp_all
  moreover have "opened (history y @ es) = closed (history y @ es) + mset (taken_fds slots)"
    using h(3) I(5) by (simp add: balanced_def ac_simps)
  ultimately show ?thesis unfolding server(1) using h I(4) by (simp add: system_inv_def)
qed

interpretation program: kept system_step "system_inv t0 w0" for t0 w0
  by unfold_locales (rule system_step_inv)

lemma system_run_inv: "system_run y y' \<Longrightarrow> system_inv t0 w0 y \<Longrightarrow> system_inv t0 w0 y'"
  by (rule program.run_good)

subsection \<open>A run with one client\<close>

text \<open>Slots that are free, or whose client has nothing to read, are passed over.\<close>

lemma idle_clients:
  "\<forall>i \<in> set ks. slot_fd (slots ! i) = -1 \<or> ready (slot_fd (slots ! i)) = None \<Longrightarrow>
   handle_clients ready ks slots net = Some (slots, net, [])"
  by (induction ks) (auto simp: and_then_def handle_client_def Let_def)

definition free_slots :: "(nat \<Rightarrow> string) \<Rightarrow> client_slot list" where
  "free_slots g = map (\<lambda>i. \<lparr>slot_fd = -1, buf = (g i)[0 := NUL], len = 0\<rparr>) [1..<max_clients]"

lemma initial_slots_Cons: "initial_slots g = \<lparr>slot_fd = -1, buf = (g 0)[0 := NUL], len = 0\<rparr> # free_slots g"
  by (simp add: initial_slots_def free_slots_def max_clients_def upt_conv_Cons)

lemma clients_Cons: "[0..<max_clients] = 0 # [1..<max_clients]"
  by (simp add: max_clients_def upt_conv_Cons)

lemma free_slots_nth: "i \<in> set [1..<max_clients] \<Longrightarrow> slot_fd ((c # free_slots g) ! i) = -1"
  by (auto simp: free_slots_def nth_Cons')

lemma only_first: "handle_clients ready [1..<max_clients] (c # free_slots g) net = Some (c # free_slots g, net, [])"
  using free_slots_nth by (intro idle_clients) blast

definition freed :: "client_slot \<Rightarrow> fd \<Rightarrow> client_slot" where
  "freed c fd = c\<lparr>slot_fd := fd, buf := (buf c)[0 := NUL], len := 0\<rparr>"

lemma round_accept:
  "slot_fd c = -1 \<Longrightarrow> server_round \<lparr>notified = None, incoming = Some (Accepted fd), readable = (\<lambda>_. None)\<rparr> (c # free_slots g) net
     = Some (freed c fd # free_slots g, net, [Opened fd])"
  by (simp add: server_round_def and_then_def handle_notification_def handle_accept_def accept_client_def idle_clients freed_def)

lemma round_disconnect:
  "slot_fd c = fd \<Longrightarrow> fd \<noteq> -1 \<Longrightarrow>
   server_round \<lparr>notified = None, incoming = None, readable = [fd \<mapsto> Received []]\<rparr> (c # free_slots g) net
     = Some (freed c (-1) # free_slots g, net, [Closed fd])"
  using only_first [of "[fd \<mapsto> Received []]" "freed c (-1)" g net]
  by (simp add: server_round_def and_then_def handle_notification_def handle_accept_def clients_Cons handle_client_def
      Let_def close_step_def freed_def)

lemma round_notified:
  "slot_fd c = fd \<Longrightarrow> server_round \<lparr>notified = Some fd, incoming = None, readable = (\<lambda>_. None)\<rparr> (c # free_slots g) net
     = Some (freed c (-1) # free_slots g, net, [Closed fd])"
  by (simp add: server_round_def and_then_def handle_notification_def handle_accept_def close_step_def idle_clients freed_def)

text \<open>One line from the first client, with its buffer empty.\<close>

lemma round_line:
  assumes "slot_ok c" "slot_text c = []" "slot_fd c = 7"
    and "no_nul cmd" "NL \<notin> set cmd" "cmd \<noteq> []" "last cmd \<noteq> CR" "length cmd < 1000"
  shows "\<exists>c'. server_round \<lparr>notified = None, incoming = None, readable = [7 \<mapsto> Received (cmd @ [NL])]\<rparr> (c # free_slots g) calm_net
     = Some (c' # free_slots g, calm_net, [Queued 7 cmd]) \<and> slot_fd c' = 7 \<and> slot_ok c'"
proof -
  have len: "len c = 0" using assms(1,2) by (simp add: slot_ok_def)
  have calm: "submit_line 7 cmd calm_net = Some (calm_net, [Queued 7 cmd])" by (simp add: submit_line_def calm_net_def)
  have b: "length (buf c) = 1024" using assms(1) by (simp add: slot_ok_def holds_def buffer_size_def)
  let ?d = "drop (Suc (Suc (length cmd))) (buf c)"
  let ?b = "cmd @ NL # NUL # ?d"
  have first: "takeWhile (\<lambda>x. x \<noteq> NL) (cmd @ [NL]) = cmd" by (rule takeWhile_stop) (use assms(5) in auto)
  have "store_bytes (buf c) 0 (cmd @ [NL]) = Some (cmd @ NL # drop (Suc (length cmd)) (buf c))"
    "store_bytes (cmd @ NL # drop (Suc (length cmd)) (buf c)) (Suc (length cmd)) [NUL] = Some ?b"
    using b assms(8) by (simp_all add: store_bytes_def)
  moreover have "strchr NL ?b = Some (Some (length cmd))"
    using strchr_terminated [of NL "cmd @ [NL]" ?d] assms(4,5) first by simp
  moreover have "?b ! (length cmd - 1) \<noteq> CR" using assms(6,7) by (simp add: nth_append last_conv_nth)
  moreover have "frame_loop 7 (NUL # d) 0 calm_net = Some (NUL # d, 0, calm_net, [])" for d by (simp add: frame_loop.simps)
  ultimately have "\<exists>b'. receive_bytes (cmd @ [NL]) c calm_net = Some (c\<lparr>buf := b', len := 0\<rparr>, calm_net, [Queued 7 cmd])"
    using b len assms(3,8)
    by (simp add: receive_bytes_def frame_loop.simps [of _ ?b] load_bytes_def store_bytes_def [of _ 0] calm buffer_size_def Let_def) blast
  then obtain b' where r: "receive_bytes (cmd @ [NL]) c calm_net = Some (c\<lparr>buf := b', len := 0\<rparr>, calm_net, [Queued 7 cmd])" ..
  moreover have "slot_ok (c\<lparr>buf := b', len := 0\<rparr>)"
    using receive_ok [OF assms(1) calm_net_fair, of "cmd @ [NL]"] unfolding r by simp
  moreover have "take (buffer_size - 1) (cmd @ [NL]) = cmd @ [NL]" using assms(8) by (simp add: buffer_size_def)
  ultimately show ?thesis
    using only_first [of "[7 \<mapsto> Received (cmd @ [NL])]" "c\<lparr>buf := b', len := 0\<rparr>" g calm_net] assms(3)
    by (simp add: server_round_def and_then_def handle_notification_def handle_accept_def clients_Cons handle_client_def Let_def)
qed

subsection \<open>The workers on one command\<close>

text \<open>A schedule of workers is a run of the pool.\<close>

lemma turns_moves: "run_schedule (map Turn ks) s = Next s' \<Longrightarrow> pool_move\<^sup>*\<^sup>* s s'"
proof (induction ks arbitrary: s)
  case (Cons i ks)
  then obtain u where u: "perform (Turn i) s = Next u" "run_schedule (map Turn ks) u = Next s'"
    by (auto split: action.splits)
  then have "pool_move s u" by (auto simp: pool_move_def split: if_splits)
  then show ?case using Cons.IH [OF u(2)] by (rule converse_rtranclp_into_rtranclp)
qed simp

lemma workers_run: "pool_move\<^sup>*\<^sup>* s u \<Longrightarrow> system_run (y\<lparr>pool_state := s\<rparr>) (y\<lparr>pool_state := u\<rparr>)"
proof (induction rule: rtranclp_induct)
  case (step u v)
  from system_step.workers [of "y\<lparr>pool_state := u\<rparr>" v] step show ?case
    by (auto intro: rtranclp.rtrancl_into_rtrancl)
qed simp

text \<open>A write command is queued, and later worker 0 executes it and answers.\<close>

lemma line_submitted:
  "\<exists>s1. submit_step (Some 1) 7 cmd None (start_state t w) = Next s1 \<and> notify_pipe s1 = []"
  by (simp add: submit_step_def start_state_def worker_pool_submit_def task_push_def new_task_def signal_def Let_def)

lemma write_executed:
  assumes "submit_step (Some 1) 7 cmd None (start_state t w) = Next s1" "length cmd < 1000" "\<not> is_read_command cmd"
    and "command_execute t cmd 1024 w = (st, r, t', w')"
  shows "\<exists>s2. run_schedule (map Turn [0, 0, 0, 0, 0, 0, 0]) s1 = Next s2 \<and> db s2 = t' \<and> env s2 = w'
    \<and> executed s2 = [(7, cmd, st, r)] \<and> notify_pipe s2 = (if st = 1 then [7] else []) \<and> work s2 = (\<lambda>i. Idle)"
  using assms
  by (auto simp: start_state_def submit_step_def worker_pool_submit_def
      task_push_def task_pop_def new_task_def worker_step_def lock_mutex_def take_task_def lock_db_def
      begin_command_def end_command_def send_reply_def finish_task_def task_data_def max_command_size_def
      signal_def Let_def worker_count_def)

lemma exit_result:
  "\<exists>r w. command_execute (empty_table 8) ''EXIT'' 1024 (calm 0 Map.empty) = (1, r, empty_table 8, w)"
proof -
  have "tokens ''EXIT'' = Some [''EXIT'']" by (simp add: tokens.simps isspace_def)
  then have "parse_command ''EXIT'' max_args = Some [''EXIT'']"
    by (simp add: parse_command_tokens no_nul_def max_args_def)
  moreover have "map toupper ''EXIT'' = ''EXIT''" by code_simp
  ultimately show ?thesis by (simp add: command_execute_def dispatch_def cmd_exit_def rewrite_ok)
qed

subsection \<open>The program\<close>

text \<open>
  \<^verbatim>\<open>main\<close>: the status, \<open>None\<close> while the server is running.  The outer \<open>None\<close> is undefined behaviour or a \<open>send_all\<close> that does
  not end.  The table the server is given is not \<open>NULL\<close>.
\<close>

definition main_status :: "world \<Rightarrow> start_results \<Rightarrow> select_event list \<Rightarrow> net \<Rightarrow> (int option \<times> effect list) option" where
  "main_status w st evs net =
     (case start_up w of
        None \<Rightarrow> None
      | Some (None, w) \<Rightarrow> Some (Some 1, [])
      | Some (Some table, w) \<Rightarrow>
          (case server_start st True evs net of
             None \<Rightarrow> None
           | Some (None, es, live) \<Rightarrow> Some (None, es)
           | Some (Some ok, es, live) \<Rightarrow> if \<not> ok then Some (Some 1, es) else Some (Some 0, es)))"

subsection \<open>Properties\<close>

text \<open>
  C7: the program accounts for everything.  However the server thread and the workers interleave, and whatever the clients send:
  the tasks the pool has accepted are exactly the lines the server has queued, in this order and not truncated; the commands
  executed so far are among them, none more often than it was queued; every descriptor that was opened has been
  closed or is in exactly one of the sixteen slots.
\<close>

theorem system_accounts:
  assumes "fair net" "\<forall>i. length (g i) = 1024" "system_run (start_system g net t0 w0) y"
  shows "accepted (pool_state y) = queued_lines (history y)
    \<and> mset (commands (executed (pool_state y))) \<subseteq># mset (queued_lines (history y))
    \<and> opened (history y) = closed (history y) + mset (taken_fds (clients y))
    \<and> distinct (taken_fds (clients y)) \<and> length (taken_fds (clients y)) \<le> 16"
proof -
  have I: "system_inv t0 w0 y"
    using system_run_inv [OF assms(3) start_system_inv [OF assms(1)]] assms(2) by (simp add: buffer_size_def)
  then have r: "reachable t0 w0 (pool_state y)" "accepted (pool_state y) = queued_lines (history y)"
    by (simp_all add: system_inv_def)
  obtain as D where "pool_inv t0 w0 as D (pool_state y)" using reachable_inv [OF r(1)] by blast
  note P = pool_invD [OF this]
  have "mset (commands (executed (pool_state y))) \<subseteq># mset (accepted (pool_state y))"
    using P(4,5) unfolding inv_count_def inv_order_def by (metis mset_append mset_subset_eq_add_left subset_mset.trans)
  moreover have "length (taken_fds (clients y)) \<le> 16"
    using I length_filter_le [of "\<lambda>fd. fd \<noteq> -1" "map slot_fd (clients y)"]
    by (simp add: system_inv_def slots_ok_def taken_fds_def max_clients_def)
  ultimately show ?thesis using I r(2) by (simp add: system_inv_def)
qed

lemma sys_round:
  assumes "server_round inp cs net = Some (cs', net', es)" "next_note (notified inp) n (notify_pipe s) n'"
    and "fresh_client inp cs" "performs es s u"
  shows "system_step \<lparr>clients = cs, network = net, notes_read = n, history = h, pool_state = s\<rparr>
    \<lparr>clients = cs', network = net', notes_read = n', history = h @ es, pool_state = u\<rparr>"
  using system_step.server [of inp "\<lparr>clients = cs, network = net, notes_read = n, history = h, pool_state = s\<rparr>" n' cs' net' es u]
    assms by simp

lemma performs_one: "lines_of [e] = [] \<Longrightarrow> performs [e] s s"
  by (rule performs.other [OF _ performs.nothing])

lemma no_free_slot [simp]: "taken_fds (free_slots g) = []"
  by (simp add: free_slots_def taken_fds_def comp_def)

lemma freed_simps [simp]: "slot_fd (freed c fd) = fd" "slot_ok c \<Longrightarrow> slot_ok (freed c fd)" "slot_text (freed c fd) = []"
  by (simp_all add: freed_def slot_text_def)

lemma accept_step:
  assumes "slot_fd c = -1"
  shows "system_step \<lparr>clients = c # free_slots g, network = net, notes_read = n, history = h, pool_state = s\<rparr>
    \<lparr>clients = freed c 7 # free_slots g, network = net, notes_read = n, history = h @ [Opened 7], pool_state = s\<rparr>"
  by (rule sys_round [OF round_accept [OF assms]])
    (use assms in \<open>auto simp: next_note_def fresh_client_def after_notification_def taken_fds_def free_slots_def
      intro: performs_one\<close>)

lemma disconnect_step:
  assumes "slot_fd c = 7"
  shows "system_step \<lparr>clients = c # free_slots g, network = net, notes_read = n, history = h, pool_state = s\<rparr>
    \<lparr>clients = freed c (-1) # free_slots g, network = net, notes_read = n, history = h @ [Closed 7], pool_state = s\<rparr>"
  by (rule sys_round [OF round_disconnect [OF assms]]) (simp_all add: next_note_def fresh_client_def performs_one)

lemma start_may_wake: "may_wake None (start_state t w)"
  by (simp add: may_wake_def start_state_def)

text \<open>A client connects and sends one write command, and a worker executes it.\<close>

lemma write_run:
  assumes "\<forall>i. length (g i) = buffer_size" "no_nul cmd" "NL \<notin> set cmd" "cmd \<noteq> []" "last cmd \<noteq> CR" "length cmd < 1000"
    and "\<not> is_read_command cmd" "command_execute t cmd 1024 w = (st, r, t', w')"
  obtains y where "system_run (start_system g calm_net t w) y" "history y = [Opened 7, Queued 7 cmd]"
    "executed (pool_state y) = [(7, cmd, st, r)]" "db (pool_state y) = t'" "env (pool_state y) = w'"
    "work (pool_state y) = (\<lambda>i. Idle)"
proof -
  let ?s0 = "start_state t w"
  let ?y = "\<lambda>c h s. \<lparr>clients = c # free_slots g, network = calm_net, notes_read = 0, history = h, pool_state = s\<rparr>"
  define c0 where "c0 = \<lparr>slot_fd = -1, buf = (g 0)[0 := NUL], len = 0\<rparr>"
  have c0: "slot_fd c0 = -1" "slot_ok c0" using cleared_slot [of "g 0" "-1" c0] assms(1) by (simp_all add: c0_def)
  have y0: "start_system g calm_net t w = ?y c0 [] ?s0" by (simp add: start_system_def initial_slots_Cons c0_def)
  have one: "system_step (?y c0 [] ?s0) (?y (freed c0 7) [Opened 7] ?s0)" using accept_step [OF c0(1), where h = "[]"] by simp
  obtain s1 where s1: "submit_step (Some 1) 7 cmd None ?s0 = Next s1" using line_submitted by blast
  obtain c2 where c2: "server_round \<lparr>notified = None, incoming = None, readable = [7 \<mapsto> Received (cmd @ [NL])]\<rparr>
      (freed c0 7 # free_slots g) calm_net = Some (c2 # free_slots g, calm_net, [Queued 7 cmd])"
    using round_line [of "freed c0 7" cmd g] c0(2) assms(2-6) by auto
  have "performs [Queued 7 cmd] ?s0 s1"
    by (rule performs.queued [OF _ _ start_may_wake s1 performs.nothing]) (simp_all add: start_state_def)
  from sys_round [OF c2 _ _ this, of 0 0 "[Opened 7]"]
  have two: "system_step (?y (freed c0 7) [Opened 7] ?s0) (?y c2 [Opened 7, Queued 7 cmd] s1)"
    by (simp add: next_note_def fresh_client_def)
  obtain s2 where s2: "run_schedule (map Turn [0, 0, 0, 0, 0, 0, 0]) s1 = Next s2" "db s2 = t'" "env s2 = w'"
    "executed s2 = [(7, cmd, st, r)]" "work s2 = (\<lambda>i. Idle)" using write_executed [OF s1 assms(6-8)] by blast
  from workers_run [OF turns_moves [OF s2(1)], of "?y c2 [Opened 7, Queued 7 cmd] s1"]
  have "system_run (?y c2 [Opened 7, Queued 7 cmd] s1) (?y c2 [Opened 7, Queued 7 cmd] s2)" by simp
  then have "system_run (start_system g calm_net t w) (?y c2 [Opened 7, Queued 7 cmd] s2)"
    unfolding y0 using one two by (meson converse_rtranclp_into_rtranclp)
  from that [OF this] s2(2-5) show thesis by simp
qed

text \<open>A client connects, sends EXIT and disconnects; another client connects and is given the same descriptor.\<close>

lemma stale_exit_run:
  assumes "\<forall>i. length (g i) = buffer_size"
  obtains c s where "system_run (start_system g calm_net (empty_table 8) (calm 0 Map.empty))
      \<lparr>clients = freed c 7 # free_slots g, network = calm_net, notes_read = 0,
       history = [Opened 7, Queued 7 ''EXIT'', Closed 7, Opened 7], pool_state = s\<rparr>"
    "notify_pipe s = [7]"
proof -
  let ?s0 = "start_state (empty_table 8) (calm 0 Map.empty)"
  let ?y = "\<lambda>c h s. \<lparr>clients = c # free_slots g, network = calm_net, notes_read = 0, history = h, pool_state = s\<rparr>"
  define c0 where "c0 = \<lparr>slot_fd = -1, buf = (g 0)[0 := NUL], len = 0\<rparr>"
  have c0: "slot_fd c0 = -1" "slot_ok c0" using cleared_slot [of "g 0" "-1" c0] assms by (simp_all add: c0_def)
  have y0: "start_system g calm_net (empty_table 8) (calm 0 Map.empty) = ?y c0 [] ?s0"
    by (simp add: start_system_def initial_slots_Cons c0_def)
  have one: "system_step (?y c0 [] ?s0) (?y (freed c0 7) [Opened 7] ?s0)" using accept_step [OF c0(1), where h = "[]"] by simp
  obtain s1 where s1: "submit_step (Some 1) 7 ''EXIT'' None ?s0 = Next s1" "notify_pipe s1 = []" using line_submitted by blast
  obtain c2 where c2: "server_round \<lparr>notified = None, incoming = None, readable = [7 \<mapsto> Received (''EXIT'' @ [NL])]\<rparr>
      (freed c0 7 # free_slots g) calm_net = Some (c2 # free_slots g, calm_net, [Queued 7 ''EXIT''])" "slot_fd c2 = 7"
    using round_line [of "freed c0 7" "''EXIT''" g] c0(2) by auto
  have "performs [Queued 7 ''EXIT''] ?s0 s1"
    by (rule performs.queued [OF _ _ start_may_wake s1(1) performs.nothing]) (simp_all add: start_state_def)
  from sys_round [OF c2(1) _ _ this, of 0 0 "[Opened 7]"]
  have two: "system_step (?y (freed c0 7) [Opened 7] ?s0) (?y c2 [Opened 7, Queued 7 ''EXIT''] s1)"
    by (simp add: next_note_def fresh_client_def)
  have three: "system_step (?y c2 [Opened 7, Queued 7 ''EXIT''] s1)
      (?y (freed c2 (-1)) [Opened 7, Queued 7 ''EXIT'', Closed 7] s1)"
    using disconnect_step [OF c2(2), where h = "[Opened 7, Queued 7 ''EXIT'']"] by simp
  have four: "system_step (?y (freed c2 (-1)) [Opened 7, Queued 7 ''EXIT'', Closed 7] s1)
      (?y (freed (freed c2 (-1)) 7) [Opened 7, Queued 7 ''EXIT'', Closed 7, Opened 7] s1)"
    using accept_step [of "freed c2 (-1)" g calm_net 0 "[Opened 7, Queued 7 ''EXIT'', Closed 7]" s1] by simp
  have writes: "\<not> is_read_command ''EXIT''" by code_simp
  obtain s2 where s2: "run_schedule (map Turn [0, 0, 0, 0, 0, 0, 0]) s1 = Next s2" "notify_pipe s2 = [7]"
    using write_executed [OF s1(1)] exit_result writes by fastforce
  from workers_run [OF turns_moves [OF s2(1)], of "?y (freed (freed c2 (-1)) 7) [Opened 7, Queued 7 ''EXIT'', Closed 7, Opened 7] s1"]
  have five: "system_run (?y (freed (freed c2 (-1)) 7) [Opened 7, Queued 7 ''EXIT'', Closed 7, Opened 7] s1)
      (?y (freed (freed c2 (-1)) 7) [Opened 7, Queued 7 ''EXIT'', Closed 7, Opened 7] s2)" by simp
  show ?thesis
    by (rule that [OF _ s2(2)], unfold y0)
      (rule converse_rtranclp_into_rtranclp [OF one converse_rtranclp_into_rtranclp [OF two
         converse_rtranclp_into_rtranclp [OF three converse_rtranclp_into_rtranclp [OF four five]]]])
qed

theorem system_accounts_witness:
  "\<exists>y. system_run (start_system (\<lambda>i. replicate 1024 NUL) calm_net (empty_table 8) (calm 0 Map.empty)) y
    \<and> accepted (pool_state y) = [(7, ''EXIT'')] \<and> taken_fds (clients y) = [7]"
proof -
  obtain c s where r: "system_run (start_system (\<lambda>i. replicate 1024 NUL) calm_net (empty_table 8) (calm 0 Map.empty))
      \<lparr>clients = freed c 7 # free_slots (\<lambda>i. replicate 1024 NUL), network = calm_net, notes_read = 0,
       history = [Opened 7, Queued 7 ''EXIT'', Closed 7, Opened 7], pool_state = s\<rparr>"
    by (rule stale_exit_run [of "\<lambda>i. replicate 1024 NUL"]) (simp add: buffer_size_def)
  from system_accounts [OF calm_net_fair _ r] have "accepted s = [(7, ''EXIT'')]" by simp
  moreover have "taken_fds (freed c 7 # free_slots (\<lambda>i. replicate 1024 NUL)) = [7]"
    using no_free_slot by (simp add: taken_fds_def)
  ultimately show ?thesis using r by fastforce
qed

text \<open>
  C2: a queued command is never lost.  Stop the pool after any run of the program: when \<open>worker_pool_destroy\<close> returns, the commands that
  were executed are, with their multiplicity, the lines the server had queued, and the table is the one
  their execution one after the other leaves.
\<close>

theorem queued_lines_executed:
  assumes "fair net" "\<forall>i. length (g i) = 1024" "system_run (start_system g net t0 w0) y"
    and "worker_pool_destroy (pool_state y) all_resources s' live"
  shows "mset (commands (executed s')) = mset (queued_lines (history y))
    \<and> serial (commands (executed s')) t0 w0 = (executed s', db s', env s')"
proof -
  have "system_inv t0 w0 y"
    using system_run_inv [OF assms(3) start_system_inv [OF assms(1)]] assms(2) by (simp add: buffer_size_def)
  then have "reachable t0 w0 (pool_state y)" "accepted (pool_state y) = queued_lines (history y)"
    by (simp_all add: system_inv_def)
  with destroy_outcome [OF this(1) assms(4)] show ?thesis by simp
qed

theorem queued_lines_executed_witness:
  "\<exists>y s'. system_run (start_system (\<lambda>i. replicate 1024 NUL) calm_net (empty_table 8) (calm 0 Map.empty)) y
    \<and> worker_pool_destroy (pool_state y) all_resources s' [] \<and> mset (commands (executed s')) = {#(7, ''EXIT'')#}"
proof -
  let ?g = "\<lambda>i::nat. replicate 1024 NUL"
  obtain c s where r: "system_run (start_system ?g calm_net (empty_table 8) (calm 0 Map.empty))
      \<lparr>clients = freed c 7 # free_slots ?g, network = calm_net, notes_read = 0,
       history = [Opened 7, Queued 7 ''EXIT'', Closed 7, Opened 7], pool_state = s\<rparr>"
    by (rule stale_exit_run [of ?g]) (simp add: buffer_size_def)
  have "system_inv (empty_table 8) (calm 0 Map.empty) \<lparr>clients = freed c 7 # free_slots ?g, network = calm_net,
      notes_read = 0, history = [Opened 7, Queued 7 ''EXIT'', Closed 7, Opened 7], pool_state = s\<rparr>"
    by (rule system_run_inv [OF r start_system_inv]) (simp_all add: buffer_size_def)
  then have "reachable (empty_table 8) (calm 0 Map.empty) s" by (simp add: system_inv_def)
  then obtain s' where d: "worker_pool_destroy s all_resources s' []" using destroy_returns by blast
  from queued_lines_executed [OF calm_net_fair _ r] d have "mset (commands (executed s')) = {#(7, ''EXIT'')#}" by simp
  with r d show ?thesis by fastforce
qed

text \<open>
  C34: a stale notification disconnects another client.  A client sends \<open>EXIT\<close> and closes its connection; the server frees the descriptor before a
  worker has executed the command, and a new client is given the same number.  When the worker's notification
  is read, the server closes the new client, which has sent nothing and is still connected.
\<close>

theorem stale_exit_closes_other_client:
  "\<exists>y y'. system_run (start_system (\<lambda>i. replicate 1024 NUL) calm_net (empty_table 8) (calm 0 Map.empty)) y
    \<and> history y = [Opened 7, Queued 7 ''EXIT'', Closed 7, Opened 7] \<and> taken_fds (clients y) = [7]
    \<and> server_round \<lparr>notified = Some 7, incoming = None, readable = (\<lambda>_. None)\<rparr> (clients y) (network y)
        = Some (clients y', network y', [Closed 7])
    \<and> system_step y y' \<and> taken_fds (clients y') = []"
proof -
  let ?g = "\<lambda>i::nat. replicate 1024 NUL" and ?inp = "\<lparr>notified = Some 7, incoming = None, readable = (\<lambda>_. None)\<rparr>"
  obtain c s where r: "system_run (start_system ?g calm_net (empty_table 8) (calm 0 Map.empty))
      \<lparr>clients = freed c 7 # free_slots ?g, network = calm_net, notes_read = 0,
       history = [Opened 7, Queued 7 ''EXIT'', Closed 7, Opened 7], pool_state = s\<rparr>" "notify_pipe s = [7]"
    by (rule stale_exit_run [of ?g]) (simp add: buffer_size_def)
  let ?y = "\<lparr>clients = freed c 7 # free_slots ?g, network = calm_net, notes_read = 0,
       history = [Opened 7, Queued 7 ''EXIT'', Closed 7, Opened 7], pool_state = s\<rparr>"
  let ?y' = "\<lparr>clients = freed (freed c 7) (-1) # free_slots ?g, network = calm_net, notes_read = 1,
       history = [Opened 7, Queued 7 ''EXIT'', Closed 7, Opened 7, Closed 7], pool_state = s\<rparr>"
  have round: "server_round ?inp (freed c 7 # free_slots ?g) calm_net
      = Some (freed (freed c 7) (-1) # free_slots ?g, calm_net, [Closed 7])" by (rule round_notified) simp
  have "performs [Closed 7] s s" by (rule performs_one) simp
  from sys_round [OF round _ _ this, of 0 1 "[Opened 7, Queued 7 ''EXIT'', Closed 7, Opened 7]"] r(2)
  have "system_step ?y ?y'" by (simp add: next_note_def fresh_client_def)
  moreover have "taken_fds (clients ?y) = [7]" "taken_fds (clients ?y') = []"
    using no_free_slot [of ?g] by (simp_all add: taken_fds_def)
  ultimately show ?thesis using r(1) round by (intro exI [of _ ?y] exI [of _ ?y']) simp
qed

text \<open>
  The status of the program is \<open>1\<close> when the file is rejected or the server does not start, and \<open>0\<close> when the loop of the server has ended;
  in both cases every descriptor that was opened has been closed.
\<close>

lemma main_status_value:
  assumes "fair net" "\<forall>i. length (stale st i) = 1024" "good_events evs (initial_slots (stale st)) net"
    and "start_up w = Some (table, w')" "main_status w st evs net = Some (Some n, es)"
  shows "n = (if table = None \<or> setup_fails st True then 1 else 0) \<and> opened es = closed es"
proof (cases table)
  case None
  with assms(4,5) show ?thesis by (auto simp: main_status_def)
next
  case (Some t)
  from server_start_outcome [OF assms(1-3), of True] obtain res es' live where
    r: "server_start st True evs net = Some (res, es', live)" "res = Some False \<longleftrightarrow> setup_fails st True"
      "res = None \<or> opened es' = closed es' \<and> live = []" by blast
  with assms(4,5) Some show ?thesis by (cases res) (auto simp: main_status_def split: if_splits)
qed

end
