(* ===== verification/Memory.thy ===== *)
theory Memory
  imports World "HOL-Library.Multiset" "HOL-Library.Monad_Syntax"
begin

text \<open>
  Dynamic memory, for the code that works with pointers into it.

  The memory maps addresses to the blocks that \<^verbatim>\<open>malloc\<close> and \<^verbatim>\<open>calloc\<close> returned and \<^verbatim>\<open>free\<close> has not released;
  address \<open>0\<close> is \<open>NULL\<close>.  Addresses are handed out in increasing order and never again, so that a pointer to a
  released block stays invalid.  A block is what the program uses it as: an \<open>Entry\<close>, a \<open>HashTable\<close>, an array of
  pointers, or a character buffer of some capacity.  A component that has not been written since \<^verbatim>\<open>malloc\<close> is \<open>None\<close>.

  Every access yields an option: \<open>None\<close> is undefined behaviour, that is an access through \<open>NULL\<close> or an invalid
  pointer, outside an array or a buffer, a read of something not initialised, or a \<^verbatim>\<open>free\<close> of what is not allocated.

  \<open>owns F C s\<close> says that the memory consists of the blocks \<open>C\<close>, all at different addresses, and the rest \<open>F\<close>.  The
  rules below say what each access does to the blocks; none of them touches \<open>F\<close>.
\<close>

type_synonym ptr = nat

record node =
  key_ptr :: "ptr option"
  val_ptr :: "ptr option"
  node_expiry :: "time_t option"
  next_ptr :: "ptr option"

record header =
  array_ptr :: "ptr option"
  size_field :: "nat option"
  count_field :: "nat option"

datatype block =
    Node node
  | Header header
  | Pointers "ptr list"
  | Chars nat "cstr option"

record memory =
  cells :: "ptr \<rightharpoonup> block"
  brk :: ptr
  outside :: world

subsection \<open>Accesses\<close>

definition new_block :: "block \<Rightarrow> memory \<Rightarrow> ptr \<times> memory" where
  "new_block b s =
     (let (ok, w) = malloc (outside s) in
      if ok then (brk s, s\<lparr>cells := (cells s)(brk s \<mapsto> b), brk := brk s + 1, outside := w\<rparr>)
      else (0, s\<lparr>outside := w\<rparr>))"

definition free_block :: "ptr \<Rightarrow> memory \<Rightarrow> memory option" where
  "free_block p s =
     (if p = 0 then Some s
      else case cells s p of None \<Rightarrow> None | Some _ \<Rightarrow> Some (s\<lparr>cells := (cells s)(p := None)\<rparr>))"

definition get_node :: "(node \<Rightarrow> 'a option) \<Rightarrow> ptr \<Rightarrow> memory \<Rightarrow> 'a option" where
  "get_node g p s = (case cells s p of Some (Node n) \<Rightarrow> g n | _ \<Rightarrow> None)"

definition set_node :: "(node \<Rightarrow> node) \<Rightarrow> ptr \<Rightarrow> memory \<Rightarrow> memory option" where
  "set_node f p s =
     (case cells s p of Some (Node n) \<Rightarrow> Some (s\<lparr>cells := (cells s)(p \<mapsto> Node (f n))\<rparr>) | _ \<Rightarrow> None)"

definition get_header :: "(header \<Rightarrow> 'a option) \<Rightarrow> ptr \<Rightarrow> memory \<Rightarrow> 'a option" where
  "get_header g p s = (case cells s p of Some (Header h) \<Rightarrow> g h | _ \<Rightarrow> None)"

definition set_header :: "(header \<Rightarrow> header) \<Rightarrow> ptr \<Rightarrow> memory \<Rightarrow> memory option" where
  "set_header f p s =
     (case cells s p of Some (Header h) \<Rightarrow> Some (s\<lparr>cells := (cells s)(p \<mapsto> Header (f h))\<rparr>) | _ \<Rightarrow> None)"

definition get_slot :: "ptr \<Rightarrow> nat \<Rightarrow> memory \<Rightarrow> ptr option" where
  "get_slot a i s =
     (case cells s a of Some (Pointers ps) \<Rightarrow> if i < length ps then Some (ps ! i) else None | _ \<Rightarrow> None)"

definition set_slot :: "ptr \<Rightarrow> nat \<Rightarrow> ptr \<Rightarrow> memory \<Rightarrow> memory option" where
  "set_slot a i p s =
     (case cells s a of
        Some (Pointers ps) \<Rightarrow>
          if i < length ps then Some (s\<lparr>cells := (cells s)(a \<mapsto> Pointers (ps[i := p]))\<rparr>) else None
      | _ \<Rightarrow> None)"

definition get_string :: "ptr \<Rightarrow> memory \<Rightarrow> cstr option" where
  "get_string p s = (case cells s p of Some (Chars n c) \<Rightarrow> c | _ \<Rightarrow> None)"

text \<open>\<^verbatim>\<open>strcpy\<close> into a buffer writes the bytes of the string and its NUL.\<close>

definition strcpy :: "ptr \<Rightarrow> cstr \<Rightarrow> memory \<Rightarrow> memory option" where
  "strcpy p c s =
     (case cells s p of
        Some (Chars n _) \<Rightarrow>
          if length c < n then Some (s\<lparr>cells := (cells s)(p \<mapsto> Chars n (Some c))\<rparr>) else None
      | _ \<Rightarrow> None)"

definition blank_node :: node where
  "blank_node = \<lparr>key_ptr = None, val_ptr = None, node_expiry = None, next_ptr = None\<rparr>"

definition blank_header :: header where
  "blank_header = \<lparr>array_ptr = None, size_field = None, count_field = None\<rparr>"

text \<open>A process before its first allocation.\<close>

definition no_blocks :: "world \<Rightarrow> memory" where
  "no_blocks w = \<lparr>cells = Map.empty, brk = 1, outside = w\<rparr>"

subsection \<open>Ownership\<close>

definition optional :: "'a option \<Rightarrow> 'a multiset" where
  "optional x = (case x of None \<Rightarrow> {#} | Some y \<Rightarrow> {#y#})"

definition blocks_at :: "ptr \<Rightarrow> (ptr \<times> block) multiset \<Rightarrow> block multiset" where
  "blocks_at p C = image_mset snd (filter_mset (\<lambda>c. fst c = p) C)"

definition holds :: "(ptr \<rightharpoonup> block) \<Rightarrow> (ptr \<times> block) multiset \<Rightarrow> (ptr \<rightharpoonup> block) \<Rightarrow> bool" where
  "holds F C m \<longleftrightarrow> (\<forall>p. blocks_at p C + optional (F p) = optional (m p))"

text \<open>Addresses from \<open>brk\<close> on, and \<open>NULL\<close>, are not in use.\<close>

definition sane :: "memory \<Rightarrow> bool" where
  "sane s \<longleftrightarrow> cells s 0 = None \<and> 0 < brk s \<and> (\<forall>p \<ge> brk s. cells s p = None)"

definition owns :: "(ptr \<rightharpoonup> block) \<Rightarrow> (ptr \<times> block) multiset \<Rightarrow> memory \<Rightarrow> bool" where
  "owns F C s \<longleftrightarrow> sane s \<and> holds F C (cells s)"

lemma optional_simps [simp]:
  "optional None = {#}" "optional (Some x) = {#x#}"
  "optional a = {#} \<longleftrightarrow> a = None" "optional a = {#x#} \<longleftrightarrow> a = Some x"
  "optional a = optional b \<longleftrightarrow> a = b"
  by (auto simp: optional_def split: option.splits)

lemma blocks_at_simps [simp]:
  "blocks_at p {#} = {#}"
  "blocks_at p (add_mset (q, b) C) = (if q = p then add_mset b (blocks_at p C) else blocks_at p C)"
  by (simp_all add: blocks_at_def)

lemma holds_empty [simp]: "holds F {#} m \<longleftrightarrow> m = F"
  by (auto simp: holds_def)

lemma add_mset_optional: "add_mset b M = optional a \<longleftrightarrow> M = {#} \<and> a = Some b"
  by (cases a) auto

lemma holds_add: "holds F (add_mset (p, b) C) m \<longleftrightarrow> m p = Some b \<and> holds F C (m(p := None))"
proof
  assume h: "holds F (add_mset (p, b) C) m"
  then have "add_mset b (blocks_at p C + optional (F p)) = optional (m p)"
    unfolding holds_def by (metis add_mset_add_mset_same_iff blocks_at_simps(2) union_mset_add_mset_left)
  then have p: "blocks_at p C + optional (F p) = {#}" "m p = Some b" by (simp_all add: add_mset_optional)
  have "blocks_at q C + optional (F q) = optional ((m(p := None)) q)" for q
    using h [unfolded holds_def, rule_format, of q] p by (cases "q = p") auto
  with p show "m p = Some b \<and> holds F C (m(p := None))" by (simp add: holds_def)
next
  assume h: "m p = Some b \<and> holds F C (m(p := None))"
  have "blocks_at q (add_mset (p, b) C) + optional (F q) = optional (m q)" for q
    using h [unfolded holds_def, THEN conjunct2, rule_format, of q] h by (cases "q = p") auto
  then show "holds F (add_mset (p, b) C) m" by (simp add: holds_def)
qed

lemma owns_none [simp]: "owns F {#} s \<longleftrightarrow> sane s \<and> cells s = F"
  by (auto simp: owns_def)

lemma owns_no_blocks: "owns Map.empty {#} (no_blocks w)"
  by (simp add: no_blocks_def sane_def)

lemma sane_outside [simp]: "sane (s\<lparr>outside := w\<rparr>) = sane s"
  by (simp add: sane_def)

lemma owns_outside [simp]: "owns F C (s\<lparr>outside := w\<rparr>) = owns F C s"
  by (simp add: owns_def)

lemma owns_cell: "owns F C s \<Longrightarrow> (p, b) \<in># C \<Longrightarrow> cells s p = Some b"
  by (auto simp: owns_def holds_add dest!: multi_member_split)

lemma owns_nonnull: "owns F C s \<Longrightarrow> (p, b) \<in># C \<Longrightarrow> p \<noteq> 0"
  using owns_cell [of F C s p b] unfolding owns_def sane_def by (metis option.distinct(1))

lemma owns_here: "owns F (add_mset (p, b) C) s \<Longrightarrow> cells s p = Some b"
  by (rule owns_cell) auto

text \<open>Reading.\<close>

lemma reads:
  "cells s p = Some (Node n) \<Longrightarrow> get_node g p s = g n"
  "cells s p = Some (Header h) \<Longrightarrow> get_header gh p s = gh h"
  "cells s p = Some (Pointers ps) \<Longrightarrow> i < length ps \<Longrightarrow> get_slot p i s = Some (ps ! i)"
  "cells s p = Some (Chars l c) \<Longrightarrow> get_string p s = c"
  by (simp_all add: get_node_def get_header_def get_slot_def get_string_def)

text \<open>Writing a block that is owned.\<close>

lemma owns_put:
  assumes "owns F (add_mset (p, b) C) s"
  shows "owns F (add_mset (p, b') C) (s\<lparr>cells := (cells s)(p \<mapsto> b')\<rparr>)"
  using assms by (cases "p = 0") (auto simp: owns_def sane_def holds_add)

lemma owned_set_node:
  assumes "owns F (add_mset (p, Node n) C) s"
  obtains s' where "set_node f p s = Some s'" "owns F (add_mset (p, Node (f n)) C) s'" "outside s' = outside s"
  by (rule that [OF _ owns_put [OF assms]]) (simp_all add: set_node_def owns_here [OF assms])

lemma owned_set_header:
  assumes "owns F (add_mset (p, Header h) C) s"
  obtains s' where "set_header f p s = Some s'" "owns F (add_mset (p, Header (f h)) C) s'" "outside s' = outside s"
  by (rule that [OF _ owns_put [OF assms]]) (simp_all add: set_header_def owns_here [OF assms])

lemma owned_set_slot:
  assumes "owns F (add_mset (a, Pointers ps) C) s" "i < length ps"
  obtains s' where "set_slot a i p s = Some s'" "owns F (add_mset (a, Pointers (ps[i := p])) C) s'" "outside s' = outside s"
  by (rule that [OF _ owns_put [OF assms(1)]]) (simp_all add: set_slot_def owns_here [OF assms(1)] assms(2))

lemma owned_strcpy:
  assumes "owns F (add_mset (p, Chars l x) C) s" "length c < l"
  obtains s' where "strcpy p c s = Some s'" "owns F (add_mset (p, Chars l (Some c)) C) s'" "outside s' = outside s"
  by (rule that [OF _ owns_put [OF assms(1)]]) (simp_all add: strcpy_def owns_here [OF assms(1)] assms(2))

text \<open>Allocating and releasing.\<close>

lemma owned_free:
  assumes "owns F (add_mset (p, b) C) s"
  obtains s' where "free_block p s = Some s'" "owns F C s'" "outside s' = outside s"
proof -
  from assms owns_here [OF assms]
  have "free_block p s = Some (s\<lparr>cells := (cells s)(p := None)\<rparr>)" "owns F C (s\<lparr>cells := (cells s)(p := None)\<rparr>)"
    by (cases "p = 0"; auto simp: free_block_def owns_def sane_def holds_add)+
  then show ?thesis using that by simp
qed

lemma owned_new:
  assumes "owns F C s" "malloc (outside s) = (True, w)"
  obtains p s' where "new_block b s = (p, s')" "p \<noteq> 0" "owns F (add_mset (p, b) C) s'" "outside s' = w"
proof -
  from assms(1) have "cells s (brk s) = None" by (simp add: owns_def sane_def)
  then have "(cells s)(brk s := None) = cells s" by auto
  with assms that [of "brk s" "s\<lparr>cells := (cells s)(brk s \<mapsto> b), brk := brk s + 1, outside := w\<rparr>"] show ?thesis
    by (simp add: new_block_def owns_def sane_def holds_add)
qed

lemma no_new: "malloc (outside s) = (False, w) \<Longrightarrow> new_block b s = (0, s\<lparr>outside := w\<rparr>)"
  by (simp add: new_block_def)

text \<open>A block can be counted to the rest.\<close>

lemma owns_frame:
  "owns F (add_mset (p, b) C) s \<longleftrightarrow> F p = None \<and> owns (F(p \<mapsto> b)) C s"
proof -
  have "holds F (add_mset (p, b) C) m \<longleftrightarrow> F p = None \<and> holds (F(p \<mapsto> b)) C m" for m
  proof
    assume h: "holds F (add_mset (p, b) C) m"
    then have m: "m p = Some b" "holds F C (m(p := None))" by (simp_all add: holds_add)
    have "blocks_at p C + optional (F p) = optional ((m(p := None)) p)" using m(2) unfolding holds_def by blast
    then have p: "blocks_at p C = {#}" "F p = None" by simp_all
    have "blocks_at q C + optional ((F(p \<mapsto> b)) q) = optional (m q)" for q
      using m p h [unfolded holds_def, rule_format, of q] by (cases "q = p") auto
    with p show "F p = None \<and> holds (F(p \<mapsto> b)) C m" by (simp add: holds_def)
  next
    assume h: "F p = None \<and> holds (F(p \<mapsto> b)) C m"
    have "blocks_at q (add_mset (p, b) C) + optional (F q) = optional (m q)" for q
      using h [unfolded holds_def, THEN conjunct2, rule_format, of q] h by (cases "q = p") auto
    then show "holds F (add_mset (p, b) C) m" by (simp add: holds_def)
  qed
  then show ?thesis by (auto simp: owns_def)
qed

end
