(* ===== verification/HeapTable.thy ===== *)
theory HeapTable
  imports Memory HashTable
begin

text \<open>
  The entries and the hash table as the code has them: linked nodes in dynamic memory, each with its own copies of
  key and value, an array of head pointers, and the struct \<open>HashTable\<close> (\<^verbatim>\<open>src/entry.c\<close>, \<^verbatim>\<open>src/hash_table.c\<close>).

  Every function of the two files is written with its pointer reads and writes, its allocations and its calls of
  \<^verbatim>\<open>free\<close>, in their order; \<open>None\<close> is undefined behaviour or a loop that does not end.  The keys and values that are
  passed in are strings of the caller.

  \<open>table_at F t T s\<close> says that the struct at address \<open>t\<close> represents the table \<open>T\<close> of \<open>HashTable\<close>, and that the memory
  holds nothing else but \<open>F\<close>.  The simulation lemmas say that every function goes from memories that represent a table to
  memories that represent the result of the operation on lists, with the same \<open>F\<close>: nothing is leaked, nothing released
  twice, nothing else touched.
\<close>

subsection \<open>Entries\<close>

text \<open>
  The three allocations of an entry, in \<^verbatim>\<open>entry_create\<close> and in \<^verbatim>\<open>hash_table_set_with_expiry\<close>, with the releases when a later
  one fails.
\<close>

definition new_node :: "cstr \<Rightarrow> cstr \<Rightarrow> memory \<Rightarrow> (ptr \<times> memory) option" where
  "new_node k v s =
     (let (p, s) = new_block (Node blank_node) s in
      if p = 0 then Some (0, s)
      else
        let (q, s) = new_block (Chars (length k + 1) None) s in
        do {
          s \<leftarrow> set_node (key_ptr_update (\<lambda>_. Some q)) p s;
          if q = 0 then do { s \<leftarrow> free_block p s; Some (0, s) }
          else do {
            s \<leftarrow> strcpy q k s;
            let (q, s) = new_block (Chars (length v + 1) None) s in
            do {
              s \<leftarrow> set_node (val_ptr_update (\<lambda>_. Some q)) p s;
              if q = 0 then do {
                kp \<leftarrow> get_node key_ptr p s;
                s \<leftarrow> free_block kp s;
                s \<leftarrow> free_block p s;
                Some (0, s) }
              else do {
                s \<leftarrow> strcpy q v s;
                Some (p, s) }}}})"

definition entry_create_at :: "cstr \<Rightarrow> cstr \<Rightarrow> memory \<Rightarrow> (ptr \<times> memory) option" where
  "entry_create_at k v s =
     do {
       (p, s) \<leftarrow> new_node k v s;
       if p = 0 then Some (0, s)
       else do {
         s \<leftarrow> set_node (node_expiry_update (\<lambda>_. Some 0)) p s;
         s \<leftarrow> set_node (next_ptr_update (\<lambda>_. Some 0)) p s;
         Some (p, s) }}"

definition entry_destroy :: "ptr \<Rightarrow> memory \<Rightarrow> memory option" where
  "entry_destroy p s =
     (if p = 0 then Some s
      else do {
        kp \<leftarrow> get_node key_ptr p s;
        s \<leftarrow> free_block kp s;
        vp \<leftarrow> get_node val_ptr p s;
        s \<leftarrow> free_block vp s;
        free_block p s })"

definition set_expiry_at :: "ptr \<Rightarrow> time_t \<Rightarrow> memory \<Rightarrow> memory option" where
  "set_expiry_at p x s =
     (if p = 0 then Some s else set_node (node_expiry_update (\<lambda>_. Some x)) p s)"

definition is_expired_at :: "ptr \<Rightarrow> memory \<Rightarrow> (bool \<times> memory) option" where
  "is_expired_at p s =
     (if p = 0 then Some (False, s)
      else do {
        x \<leftarrow> get_node node_expiry p s;
        if x = 0 then Some (False, s)
        else let (r, w) = time_now (outside s) in Some (r \<ge> x, s\<lparr>outside := w\<rparr>) })"

subsection \<open>The table\<close>

definition create_table :: "nat \<Rightarrow> memory \<Rightarrow> (ptr \<times> memory) option" where
  "create_table n s =
     (let (t, s) = new_block (Header blank_header) s in
      if t = 0 then Some (0, s)
      else
        let (a, s) = new_block (Pointers (replicate n 0)) s in
        do {
          s \<leftarrow> set_header (array_ptr_update (\<lambda>_. Some a)) t s;
          if a = 0 then do { s \<leftarrow> free_block t s; Some (0, s) }
          else do {
            s \<leftarrow> set_header (size_field_update (\<lambda>_. Some n)) t s;
            s \<leftarrow> set_header (count_field_update (\<lambda>_. Some 0)) t s;
            Some (t, s) }})"

text \<open>The loop over a chain to the first node with the key, or to \<open>NULL\<close>.\<close>

partial_function (option) search_chain :: "cstr \<Rightarrow> ptr \<Rightarrow> memory \<Rightarrow> ptr option" where
  "search_chain k p s =
     (if p = 0 then Some 0
      else do {
        kp \<leftarrow> get_node key_ptr p s;
        c \<leftarrow> get_string kp s;
        if c = k then Some p
        else do { q \<leftarrow> get_node next_ptr p s; search_chain k q s }})"

text \<open>The same loop with the pointer to the previous node, in \<^verbatim>\<open>hash_table_delete\<close>.\<close>

partial_function (option) search_pair :: "cstr \<Rightarrow> ptr \<Rightarrow> ptr \<Rightarrow> memory \<Rightarrow> (ptr \<times> ptr) option" where
  "search_pair k prev p s =
     (if p = 0 then Some (prev, 0)
      else do {
        kp \<leftarrow> get_node key_ptr p s;
        c \<leftarrow> get_string kp s;
        if c = k then Some (prev, p)
        else do { q \<leftarrow> get_node next_ptr p s; search_pair k p q s }})"

text \<open>\<^verbatim>\<open>hash_key(key) % table->size\<close>; the remainder of a division by zero is undefined.\<close>

definition bucket_index :: "cstr \<Rightarrow> nat \<Rightarrow> nat option" where
  "bucket_index k n = (if n = 0 then None else Some (slot n k))"

text \<open>The head of the chain of a key, with its index.\<close>

definition find_bucket :: "ptr \<Rightarrow> cstr \<Rightarrow> memory \<Rightarrow> (nat \<times> ptr) option" where
  "find_bucket t k s =
     do {
       n \<leftarrow> get_header size_field t s;
       i \<leftarrow> bucket_index k n;
       a \<leftarrow> get_header array_ptr t s;
       p \<leftarrow> get_slot a i s;
       Some (i, p) }"

text \<open>The loops of \<^verbatim>\<open>hash_table_resize\<close>: over the nodes of a chain and over the old array.\<close>

partial_function (option) move_chain :: "nat \<Rightarrow> ptr \<Rightarrow> ptr \<Rightarrow> memory \<Rightarrow> memory option" where
  "move_chain n b p s =
     (if p = 0 then Some s
      else do {
        q \<leftarrow> get_node next_ptr p s;
        kp \<leftarrow> get_node key_ptr p s;
        k \<leftarrow> get_string kp s;
        i \<leftarrow> bucket_index k n;
        h \<leftarrow> get_slot b i s;
        s \<leftarrow> set_node (next_ptr_update (\<lambda>_. Some h)) p s;
        s \<leftarrow> set_slot b i p s;
        move_chain n b q s })"

partial_function (option) move_buckets :: "nat \<Rightarrow> ptr \<Rightarrow> nat \<Rightarrow> ptr \<Rightarrow> memory \<Rightarrow> memory option" where
  "move_buckets n b i t s =
     do {
       m \<leftarrow> get_header size_field t s;
       if i < m
       then do {
         a \<leftarrow> get_header array_ptr t s;
         p \<leftarrow> get_slot a i s;
         s \<leftarrow> move_chain n b p s;
         move_buckets n b (i + 1) t s }
       else Some s }"

definition resize_table :: "ptr \<Rightarrow> nat \<Rightarrow> memory \<Rightarrow> (bool \<times> memory) option" where
  "resize_table t n s =
     (if t = 0 \<or> n = 0 then Some (False, s)
      else
        let (b, s) = new_block (Pointers (replicate n 0)) s in
        if b = 0 then Some (False, s)
        else do {
          s \<leftarrow> move_buckets n b 0 t s;
          a \<leftarrow> get_header array_ptr t s;
          s \<leftarrow> free_block a s;
          s \<leftarrow> set_header (array_ptr_update (\<lambda>_. Some b)) t s;
          s \<leftarrow> set_header (size_field_update (\<lambda>_. Some n)) t s;
          Some (True, s) })"

text \<open>The two halves of \<^verbatim>\<open>hash_table_set_with_expiry\<close>: a node with the key exists, or a new one is linked in.\<close>

definition replace_value :: "ptr \<Rightarrow> cstr \<Rightarrow> time_t \<Rightarrow> memory \<Rightarrow> (bool \<times> memory) option" where
  "replace_value p v x s =
     (let (q, s) = new_block (Chars (length v + 1) None) s in
      if q = 0 then Some (False, s)
      else do {
        s \<leftarrow> strcpy q v s;
        vp \<leftarrow> get_node val_ptr p s;
        s \<leftarrow> free_block vp s;
        s \<leftarrow> set_node (val_ptr_update (\<lambda>_. Some q)) p s;
        s \<leftarrow> set_expiry_at p x s;
        Some (True, s) })"

definition link_node :: "ptr \<Rightarrow> nat \<Rightarrow> ptr \<Rightarrow> time_t \<Rightarrow> memory \<Rightarrow> memory option" where
  "link_node t i p x s =
     do {
       s \<leftarrow> set_node (node_expiry_update (\<lambda>_. Some x)) p s;
       a \<leftarrow> get_header array_ptr t s;
       h \<leftarrow> get_slot a i s;
       s \<leftarrow> set_node (next_ptr_update (\<lambda>_. Some h)) p s;
       s \<leftarrow> set_slot a i p s;
       c \<leftarrow> get_header count_field t s;
       set_header (count_field_update (\<lambda>_. Some (c + 1))) t s }"

definition set_in_table :: "ptr \<Rightarrow> cstr \<Rightarrow> cstr \<Rightarrow> time_t \<Rightarrow> memory \<Rightarrow> (bool \<times> memory) option" where
  "set_in_table t k v x s =
     (if t = 0 then Some (False, s)
      else do {
        (i, h) \<leftarrow> find_bucket t k s;
        p \<leftarrow> search_chain k h s;
        if p \<noteq> 0 then replace_value p v x s
        else do {
          (p, s) \<leftarrow> new_node k v s;
          if p = 0 then Some (False, s)
          else do {
            s \<leftarrow> link_node t i p x s;
            c \<leftarrow> get_header count_field t s;
            n \<leftarrow> get_header size_field t s;
            if 4 * c > 3 * n
            then do { (ok, s) \<leftarrow> resize_table t (n * resize_factor) s; Some (True, s) }
            else Some (True, s) }}})"

definition get_from_table :: "ptr \<Rightarrow> cstr \<Rightarrow> memory \<Rightarrow> (ptr \<times> memory) option" where
  "get_from_table t k s =
     (if t = 0 then Some (0, s)
      else do {
        (i, h) \<leftarrow> find_bucket t k s;
        p \<leftarrow> search_chain k h s;
        if p = 0 then Some (0, s)
        else do {
          (expired, s) \<leftarrow> is_expired_at p s;
          if expired then Some (0, s)
          else do { vp \<leftarrow> get_node val_ptr p s; Some (vp, s) }}})"

definition delete_from_table :: "ptr \<Rightarrow> cstr \<Rightarrow> memory \<Rightarrow> (bool \<times> memory) option" where
  "delete_from_table t k s =
     (if t = 0 then Some (False, s)
      else do {
        (i, h) \<leftarrow> find_bucket t k s;
        (prev, p) \<leftarrow> search_pair k 0 h s;
        if p = 0 then Some (False, s)
        else do {
          q \<leftarrow> get_node next_ptr p s;
          s \<leftarrow> (if prev = 0
               then do { a \<leftarrow> get_header array_ptr t s; set_slot a i q s }
               else set_node (next_ptr_update (\<lambda>_. Some q)) prev s);
          s \<leftarrow> entry_destroy p s;
          c \<leftarrow> get_header count_field t s;
          s \<leftarrow> set_header (count_field_update (\<lambda>_. Some (c - 1))) t s;
          Some (True, s) }})"

definition ttl_in_table :: "ptr \<Rightarrow> cstr \<Rightarrow> memory \<Rightarrow> (int \<times> memory) option" where
  "ttl_in_table t k s =
     (if t = 0 then Some (-2, s)
      else do {
        (i, h) \<leftarrow> find_bucket t k s;
        p \<leftarrow> search_chain k h s;
        if p = 0 then Some (-2, s)
        else do {
          x \<leftarrow> get_node node_expiry p s;
          if x = 0 then Some (-1, s)
          else
            let (r, w) = time_now (outside s); s = s\<lparr>outside := w\<rparr> in
            if r \<ge> x then Some (-2, s) else Some (sub_time x r, s) }})"

text \<open>The loops of \<^verbatim>\<open>hash_table_destroy\<close>.\<close>

partial_function (option) destroy_chain :: "ptr \<Rightarrow> memory \<Rightarrow> memory option" where
  "destroy_chain p s =
     (if p = 0 then Some s
      else do {
        q \<leftarrow> get_node next_ptr p s;
        s \<leftarrow> entry_destroy p s;
        destroy_chain q s })"

partial_function (option) destroy_buckets :: "nat \<Rightarrow> ptr \<Rightarrow> memory \<Rightarrow> memory option" where
  "destroy_buckets i t s =
     do {
       n \<leftarrow> get_header size_field t s;
       if i < n
       then do {
         a \<leftarrow> get_header array_ptr t s;
         p \<leftarrow> get_slot a i s;
         s \<leftarrow> destroy_chain p s;
         destroy_buckets (i + 1) t s }
       else Some s }"

definition hash_table_destroy :: "ptr \<Rightarrow> memory \<Rightarrow> memory option" where
  "hash_table_destroy t s =
     (if t = 0 then Some s
      else do {
        s \<leftarrow> destroy_buckets 0 t s;
        a \<leftarrow> get_header array_ptr t s;
        s \<leftarrow> free_block a s;
        free_block t s })"

subsection \<open>Representation\<close>

text \<open>Where an entry is: its node and the buffers of its key and its value.\<close>

datatype place = Place (of_entry: entry) (node_at: ptr) (key_at: ptr) (val_at: ptr)

definition chars_of :: "cstr \<Rightarrow> block" where
  "chars_of c = Chars (Suc (length c)) (Some c)"

definition node_of :: "place \<Rightarrow> ptr \<Rightarrow> node" where
  "node_of c q =
     \<lparr>key_ptr = Some (key_at c), val_ptr = Some (val_at c), node_expiry = Some (expires_at (of_entry c)), next_ptr = Some q\<rparr>"

definition place_cells :: "place \<Rightarrow> ptr \<Rightarrow> (ptr \<times> block) multiset" where
  "place_cells c q =
     {#(node_at c, Node (node_of c q)), (key_at c, chars_of (key (of_entry c))), (val_at c, chars_of (val (of_entry c)))#}"

text \<open>A chain that ends in the pointer \<open>z\<close>.\<close>

fun first :: "place list \<Rightarrow> ptr \<Rightarrow> ptr" where
  "first [] z = z"
| "first (c # cs) z = node_at c"

fun chain_cells :: "place list \<Rightarrow> ptr \<Rightarrow> (ptr \<times> block) multiset" where
  "chain_cells [] z = {#}"
| "chain_cells (c # cs) z = place_cells c (first cs z) + chain_cells cs z"

definition heads :: "place list list \<Rightarrow> ptr list" where
  "heads L = map (\<lambda>cs. first cs 0) L"

definition all_chains :: "place list list \<Rightarrow> (ptr \<times> block) multiset" where
  "all_chains L = (\<Sum>cs\<leftarrow>L. chain_cells cs 0)"

definition header_of :: "ptr \<Rightarrow> nat \<Rightarrow> nat \<Rightarrow> header" where
  "header_of a n c = \<lparr>array_ptr = Some a, size_field = Some n, count_field = Some c\<rparr>"

abbreviation entries_of :: "place list list \<Rightarrow> entry list list" where
  "entries_of \<equiv> map (map of_entry)"

definition table_at :: "(ptr \<rightharpoonup> block) \<Rightarrow> ptr \<Rightarrow> hash_table \<Rightarrow> memory \<Rightarrow> bool" where
  "table_at F t T s \<longleftrightarrow>
     (\<exists>a L. owns F ({#(t, Header (header_of a (tsize T) (count T))), (a, Pointers (heads L))#} + all_chains L) s
        \<and> entries_of L = buckets T)"

lemma first_append: "first (xs @ ys) z = first xs (first ys z)"
  by (cases xs) auto

lemma chain_cells_append: "chain_cells (xs @ ys) z = chain_cells xs (first ys z) + chain_cells ys z"
  by (induction xs) (auto simp: first_append)

lemma heads_simps [simp]:
  "length (heads L) = length L" "i < length L \<Longrightarrow> heads L ! i = first (L ! i) 0"
  "heads (L[i := cs]) = (heads L)[i := first cs 0]"
  "heads (replicate n []) = replicate n 0"
  by (simp_all add: heads_def map_update)

lemma all_chains_simps [simp]:
  "all_chains [] = {#}" "all_chains (cs # L) = chain_cells cs 0 + all_chains L"
  "all_chains (replicate n []) = {#}"
  by (simp_all add: all_chains_def) (induction n; simp)

lemma drop_Suc_eq: "drop i xs = y # ys \<Longrightarrow> drop (Suc i) xs = ys"
  by (metis drop_Suc list.sel(3) tl_drop)

text \<open>All chains but one.\<close>

lemma all_chains_update:
  "i < length L \<Longrightarrow> all_chains (L[i := cs]) = chain_cells cs 0 + all_chains (L[i := []])"
  by (induction L arbitrary: i) (auto split: nat.splits simp: ac_simps)

lemma all_chains_split:
  "i < length L \<Longrightarrow> all_chains L = chain_cells (L ! i) 0 + all_chains (L[i := []])"
  using all_chains_update [of i L "L ! i"] by simp

subsection \<open>The nodes of a chain\<close>

lemma place_reads:
  assumes "owns F (place_cells c q + C) s"
  shows "get_node g (node_at c) s = g (node_of c q)"
    and "get_string (key_at c) s = Some (key (of_entry c))"
    and "get_string (val_at c) s = Some (val (of_entry c))"
    and "node_at c \<noteq> 0"
proof -
  have "cells s (node_at c) = Some (Node (node_of c q))" "cells s (key_at c) = Some (chars_of (key (of_entry c)))"
    "cells s (val_at c) = Some (chars_of (val (of_entry c)))" "node_at c \<noteq> 0"
    using owns_cell [OF assms] owns_nonnull [OF assms, of "node_at c" "Node (node_of c q)"]
    by (simp_all add: place_cells_def)
  then show "get_node g (node_at c) s = g (node_of c q)" "get_string (key_at c) s = Some (key (of_entry c))"
    "get_string (val_at c) s = Some (val (of_entry c))" "node_at c \<noteq> 0"
    by (simp_all add: reads chars_of_def)
qed

lemma table_reads:
  assumes "owns F ({#(t, Header (header_of a n c)), (a, Pointers hs)#} + C) s"
  shows "get_header array_ptr t s = Some a" "get_header size_field t s = Some n"
    "get_header count_field t s = Some c" "t \<noteq> 0" "i < length hs \<Longrightarrow> get_slot a i s = Some (hs ! i)"
proof -
  have c: "cells s t = Some (Header (header_of a n c))" "cells s a = Some (Pointers hs)" "t \<noteq> 0"
    using owns_cell [OF assms] owns_nonnull [OF assms, of t "Header (header_of a n c)"] by simp_all
  then show "get_header array_ptr t s = Some a" "get_header size_field t s = Some n"
    "get_header count_field t s = Some c" "t \<noteq> 0" by (simp_all add: reads header_of_def)
  show "get_slot a i s = Some (hs ! i)" if "i < length hs" using c(2) that by (rule reads)
qed

lemma node_of_simps [simp]:
  "key_ptr (node_of c q) = Some (key_at c)" "val_ptr (node_of c q) = Some (val_at c)"
  "node_expiry (node_of c q) = Some (expires_at (of_entry c))" "next_ptr (node_of c q) = Some q"
  by (simp_all add: node_of_def)

lemma search_chain_skip:
  assumes "owns F (chain_cells xs z + C) s" "k \<notin> key ` of_entry ` set xs"
  shows "search_chain k (first xs z) s = search_chain k z s"
  using assms
proof (induction xs arbitrary: C)
  case (Cons c xs)
  from Cons.prems(1) have o: "owns F (place_cells c (first xs z) + (chain_cells xs z + C)) s" by (simp add: ac_simps)
  have "owns F (chain_cells xs z + (place_cells c (first xs z) + C)) s" using o by (simp add: ac_simps)
  note Cons.IH [OF this]
  moreover have "key (of_entry c) \<noteq> k" "k \<notin> key ` of_entry ` set xs" using Cons.prems(2) by auto
  ultimately show ?case by (simp add: search_chain.simps [of _ "node_at c"] place_reads [OF o])
qed simp

lemma search_pair_skip:
  assumes "owns F (chain_cells xs z + C) s" "k \<notin> key ` of_entry ` set xs"
  shows "search_pair k prev (first xs z) s = search_pair k (if xs = [] then prev else node_at (last xs)) z s"
  using assms
proof (induction xs arbitrary: C prev)
  case (Cons c xs)
  from Cons.prems(1) have o: "owns F (place_cells c (first xs z) + (chain_cells xs z + C)) s" by (simp add: ac_simps)
  have "owns F (chain_cells xs z + (place_cells c (first xs z) + C)) s" using o by (simp add: ac_simps)
  note Cons.IH [OF this]
  moreover have "key (of_entry c) \<noteq> k" "k \<notin> key ` of_entry ` set xs" using Cons.prems(2) by auto
  ultimately show ?case by (simp add: search_pair.simps [of _ _ "node_at c"] place_reads [OF o])
qed simp

lemma search_null [simp]: "search_chain k 0 s = Some 0" "search_pair k prev 0 s = Some (prev, 0)"
  by (simp_all add: search_chain.simps search_pair.simps)

lemma search_hit:
  assumes "owns F (place_cells c q + C) s" "key (of_entry c) = k"
  shows "search_chain k (node_at c) s = Some (node_at c)" "search_pair k prev (node_at c) s = Some (prev, node_at c)"
  using assms(2) by (simp_all add: search_chain.simps search_pair.simps place_reads [OF assms(1)])

text \<open>The first place of a chain with the key, if there is one.\<close>

lemma chain_find_place:
  assumes "chain_find k (map of_entry cs) = Some e"
  obtains xs c ys where "cs = xs @ c # ys" "of_entry c = e" "key e = k" "k \<notin> key ` of_entry ` set xs"
  using assms
proof (induction cs arbitrary: thesis)
  case (Cons d cs)
  show ?case
  proof (cases "key (of_entry d) = k")
    case True
    with Cons.prems show ?thesis by (intro Cons.prems(1) [of "[]" d cs]) auto
  next
    case False
    with Cons.prems(2) obtain xs c ys where "cs = xs @ c # ys" "of_entry c = e" "key e = k" "k \<notin> key ` of_entry ` set xs"
      using Cons.IH by auto
    with False show ?thesis by (intro Cons.prems(1) [of "d # xs" c ys]) auto
  qed
qed simp

lemma chain_at_place:
  assumes "key e = k" "k \<notin> key ` set xs"
  shows "chain_write k f (xs @ e # ys) = xs @ f e # ys" "chain_unlink k (xs @ e # ys) = xs @ ys"
  using assms by (induction xs) auto

lemma search_chain_cells:
  assumes "owns F (chain_cells cs 0 + C) s"
  shows "chain_find k (map of_entry cs) = None \<Longrightarrow> search_chain k (first cs 0) s = Some 0"
    and "cs = xs @ c # ys \<Longrightarrow> key (of_entry c) = k \<Longrightarrow> k \<notin> key ` of_entry ` set xs \<Longrightarrow>
      search_chain k (first cs 0) s = Some (node_at c)"
    and "cs = xs @ c # ys \<Longrightarrow> key (of_entry c) = k \<Longrightarrow> k \<notin> key ` of_entry ` set xs \<Longrightarrow>
      search_pair k 0 (first cs 0) s = Some (if xs = [] then 0 else node_at (last xs), node_at c)"
proof -
  show "search_chain k (first cs 0) s = Some 0" if "chain_find k (map of_entry cs) = None"
    using search_chain_skip [OF assms] that by (simp add: chain_find_None)
  assume c: "cs = xs @ c # ys" "key (of_entry c) = k" "k \<notin> key ` of_entry ` set xs"
  with assms have o: "owns F (chain_cells xs (node_at c) + (place_cells c (first ys 0) + chain_cells ys 0 + C)) s"
    "owns F (place_cells c (first ys 0) + (chain_cells xs (node_at c) + chain_cells ys 0 + C)) s"
    by (simp_all add: chain_cells_append ac_simps)
  from c search_chain_skip [OF o(1)] search_hit(1) [OF o(2)]
  show "search_chain k (first cs 0) s = Some (node_at c)" by (simp add: first_append)
  from c search_pair_skip [OF o(1)] search_hit(2) [OF o(2)]
  show "search_pair k 0 (first cs 0) s = Some (if xs = [] then 0 else node_at (last xs), node_at c)"
    by (simp add: first_append)
qed

lemma search_pair_none:
  assumes "owns F (chain_cells cs 0 + C) s" "chain_find k (map of_entry cs) = None"
  obtains prev where "search_pair k 0 (first cs 0) s = Some (prev, 0)"
  using search_pair_skip [OF assms(1)] assms(2) by (simp add: chain_find_None)

subsection \<open>Releasing\<close>

lemma entry_destroy_place:
  assumes "owns F (place_cells c q + C) s"
  obtains s' where "entry_destroy (node_at c) s = Some s'" "owns F C s'" "outside s' = outside s"
proof -
  note r = place_reads [OF assms]
  have "owns F (add_mset (key_at c, chars_of (key (of_entry c)))
      ({#(node_at c, Node (node_of c q)), (val_at c, chars_of (val (of_entry c)))#} + C)) s"
    using assms by (simp add: place_cells_def add_mset_commute)
  from owned_free [OF this] obtain s1 where s1: "free_block (key_at c) s = Some s1" "outside s1 = outside s"
    "owns F (add_mset (val_at c, chars_of (val (of_entry c))) ({#(node_at c, Node (node_of c q))#} + C)) s1"
    by (auto simp: add_mset_commute)
  have n: "get_node val_ptr (node_at c) s1 = Some (val_at c)"
    using owns_cell [OF s1(3), of "node_at c" "Node (node_of c q)"] by (simp add: reads)
  from owned_free [OF s1(3)] obtain s2 where s2: "free_block (val_at c) s1 = Some s2" "outside s2 = outside s1"
    "owns F (add_mset (node_at c, Node (node_of c q)) C) s2" by auto
  from owned_free [OF s2(3)] obtain s3 where s3: "free_block (node_at c) s2 = Some s3" "owns F C s3" "outside s3 = outside s2" .
  with s1 s2 n show ?thesis by (intro that [OF _ s3(2)]) (simp_all add: entry_destroy_def r)
qed

lemma destroy_chain_cells:
  assumes "owns F (chain_cells cs 0 + C) s"
  shows "\<exists>s'. destroy_chain (first cs 0) s = Some s' \<and> owns F C s' \<and> outside s' = outside s"
  using assms
proof (induction cs arbitrary: s)
  case Nil
  then show ?case by (simp add: destroy_chain.simps)
next
  case (Cons c cs)
  then have o: "owns F (place_cells c (first cs 0) + (chain_cells cs 0 + C)) s" by (simp add: ac_simps)
  from entry_destroy_place [OF o] obtain s1 where s1: "entry_destroy (node_at c) s = Some s1"
    "owns F (chain_cells cs 0 + C) s1" "outside s1 = outside s" .
  from Cons.IH [OF s1(2)] s1 show ?case
    by (auto simp: destroy_chain.simps [of "node_at c"] place_reads [OF o])
qed

lemma destroy_buckets_cells:
  assumes "owns F ({#(t, Header (header_of a n c)), (a, Pointers hs)#} + all_chains L) s"
    and "length hs = i + length L" "drop i hs = heads L" "n = length hs"
  shows "\<exists>s'. destroy_buckets i t s = Some s' \<and> owns F {#(t, Header (header_of a n c)), (a, Pointers hs)#} s' \<and> outside s' = outside s"
  using assms
proof (induction L arbitrary: i s)
  case Nil
  with table_reads [of F t a n c hs "{#}" s] show ?case by (simp add: destroy_buckets.simps)
next
  case (Cons cs L)
  let ?table = "{#(t, Header (header_of a n c)), (a, Pointers hs)#}"
  have i: "hs ! i = first cs 0" "drop (Suc i) hs = heads L" "i < n"
    using Cons.prems(2-4) by (auto simp: heads_def drop_Suc_eq dest: nth_via_drop)
  have r: "get_header size_field t s = Some n" "get_header array_ptr t s = Some a" "get_slot a i s = Some (first cs 0)"
    using table_reads [OF Cons.prems(1)] i Cons.prems(4) by simp_all
  from Cons.prems(1) have "owns F (chain_cells cs 0 + (?table + all_chains L)) s" by (simp add: ac_simps)
  from destroy_chain_cells [OF this] obtain s1 where s1: "destroy_chain (first cs 0) s = Some s1"
    "owns F (?table + all_chains L) s1" "outside s1 = outside s" by auto
  from Cons.IH [OF s1(2), of "Suc i"] Cons.prems i s1 r show ?case
    by (simp add: destroy_buckets.simps [of i])
qed

lemma table_atE:
  assumes "table_at F t T s" "wf_table T"
  obtains a L where
    "owns F ({#(t, Header (header_of a (tsize T) (count T))), (a, Pointers (heads L))#} + all_chains L) s"
    "entries_of L = buckets T" "length L = tsize T"
proof -
  from assms(1) obtain a L
    where o: "owns F ({#(t, Header (header_of a (tsize T) (count T))), (a, Pointers (heads L))#} + all_chains L) s"
    and e: "entries_of L = buckets T" unfolding table_at_def by blast
  have "length L = length (buckets T)" by (simp add: e [symmetric])
  with assms(2) have "length L = tsize T" by (simp add: wf_table_def)
  with o e show ?thesis by (rule that)
qed

text \<open>Destroying a table releases every block of it and nothing else.\<close>

lemma destroy_table:
  assumes "table_at F t T s" "wf_table T"
  shows "\<exists>s'. hash_table_destroy t s = Some s' \<and> sane s' \<and> cells s' = F \<and> outside s' = outside s"
proof -
  obtain a L where o: "owns F ({#(t, Header (header_of a (tsize T) (count T))), (a, Pointers (heads L))#} + all_chains L) s"
    and L: "length L = tsize T" by (rule table_atE [OF assms])
  let ?h = "header_of a (tsize T) (count T)"
  have "\<exists>s1. destroy_buckets 0 t s = Some s1 \<and> owns F {#(t, Header ?h), (a, Pointers (heads L))#} s1 \<and> outside s1 = outside s"
    by (rule destroy_buckets_cells [OF o]) (simp_all add: L)
  then obtain s1 where s1: "destroy_buckets 0 t s = Some s1"
    "owns F {#(t, Header ?h), (a, Pointers (heads L))#} s1" "outside s1 = outside s" by blast
  from s1(2) have "owns F ({#(t, Header ?h), (a, Pointers (heads L))#} + {#}) s1" by simp
  note r = table_reads [OF this]
  from s1(2) have "owns F (add_mset (a, Pointers (heads L)) {#(t, Header ?h)#}) s1" by (simp add: add_mset_commute)
  from owned_free [OF this] obtain s2 where s2: "free_block a s1 = Some s2" "owns F {#(t, Header ?h)#} s2" "outside s2 = outside s1" .
  from owned_free [OF s2(2)] obtain s3 where s3: "free_block t s2 = Some s3" "owns F {#} s3" "outside s3 = outside s2" .
  with s1 s2 s3 show ?thesis by (simp add: hash_table_destroy_def r)
qed

subsection \<open>Resizing\<close>

lemma owned_set_next:
  assumes "owns F (place_cells c q + C) s"
  obtains s' where "set_node (next_ptr_update (\<lambda>_. Some h)) (node_at c) s = Some s'"
    "owns F (place_cells c h + C) s'" "outside s' = outside s"
proof -
  let ?strings = "{#(key_at c, chars_of (key (of_entry c))), (val_at c, chars_of (val (of_entry c)))#}"
  have "owns F (add_mset (node_at c, Node (node_of c q)) (?strings + C)) s" using assms by (simp add: place_cells_def)
  from owned_set_node [OF this] obtain s' where "set_node (next_ptr_update (\<lambda>_. Some h)) (node_at c) s = Some s'"
    "owns F (add_mset (node_at c, Node (next_ptr_update (\<lambda>_. Some h) (node_of c q))) (?strings + C)) s'" "outside s' = outside s" .
  then show ?thesis by (intro that [of s']) (simp_all add: place_cells_def node_of_def)
qed

text \<open>A place at the head of a chain.\<close>

lemma all_chains_push:
  "i < length L \<Longrightarrow> all_chains (L[i := c # L ! i]) = place_cells c (first (L ! i) 0) + all_chains L"
  using all_chains_update [of i L "c # L ! i"] all_chains_split [of i L] by (simp add: ac_simps)

lemma move_chain_cells:
  assumes "owns F ({#(b, Pointers (heads L))#} + chain_cells cs 0 + all_chains L + C) s" "length L = n" "0 < n"
  shows "\<exists>s' L'. move_chain n b (first cs 0) s = Some s' \<and> outside s' = outside s
    \<and> owns F ({#(b, Pointers (heads L'))#} + all_chains L' + C) s'
    \<and> length L' = n \<and> entries_of L' = rehash_chain n (map of_entry cs) (entries_of L)"
  using assms(1,2)
proof (induction cs arbitrary: L s)
  case Nil
  then show ?case by (auto simp: move_chain.simps)
next
  case (Cons c cs)
  let ?i = "slot n (key (of_entry c))"
  let ?L = "L[?i := c # L ! ?i]"
  have i: "?i < length L" using Cons.prems(2) assms(3) by simp
  let ?rest = "{#(b, Pointers (heads L))#} + chain_cells cs 0 + all_chains L + C"
  have o: "owns F (place_cells c (first cs 0) + ?rest) s" using Cons.prems(1) by (simp add: ac_simps)
  note r = place_reads [OF o]
  have h: "get_slot b ?i s = Some (first (L ! ?i) 0)"
    using owns_cell [OF o, of b "Pointers (heads L)"] i by (simp add: reads)
  from owned_set_next [OF o] obtain s1 where s1: "set_node (next_ptr_update (\<lambda>_. Some (first (L ! ?i) 0))) (node_at c) s = Some s1"
    "owns F (place_cells c (first (L ! ?i) 0) + ?rest) s1" "outside s1 = outside s" .
  have "owns F (add_mset (b, Pointers (heads L)) (place_cells c (first (L ! ?i) 0) + chain_cells cs 0 + all_chains L + C)) s1"
    using s1(2) by (simp add: ac_simps)
  from owned_set_slot [OF this] i obtain s2 where s2: "set_slot b ?i (node_at c) s1 = Some s2" "outside s2 = outside s1"
    "owns F (add_mset (b, Pointers ((heads L)[?i := node_at c]))
      (place_cells c (first (L ! ?i) 0) + chain_cells cs 0 + all_chains L + C)) s2"
    by (metis heads_simps(1))
  then have "owns F ({#(b, Pointers (heads ?L))#} + chain_cells cs 0 + all_chains ?L + C) s2"
    using i by (simp add: all_chains_push ac_simps)
  from Cons.IH [OF this] Cons.prems(2) obtain s3 L3 where s3: "move_chain n b (first cs 0) s2 = Some s3" "outside s3 = outside s2"
    "owns F ({#(b, Pointers (heads L3))#} + all_chains L3 + C) s3" "length L3 = n"
    "entries_of L3 = rehash_chain n (map of_entry cs) (entries_of ?L)" by auto
  have "move_chain n b (node_at c) s = Some s3"
    using assms(3) by (simp add: move_chain.simps [of _ _ "node_at c"] r h s1(1) s2(1) s3(1) bucket_index_def)
  moreover have "entries_of L3 = rehash_chain n (map of_entry (c # cs)) (entries_of L)"
    using i s3(5) by (simp add: map_update Let_def)
  ultimately show ?case using s1(3) s2(2) s3 by auto
qed

lemma move_buckets_cells:
  assumes "owns F ({#(t, Header (header_of a m c)), (a, Pointers hs), (b, Pointers (heads N))#}
      + all_chains N + all_chains L) s"
    and "length hs = i + length L" "drop i hs = heads L" "m = length hs" "length N = n" "0 < n"
  shows "\<exists>s' N'. move_buckets n b i t s = Some s' \<and> outside s' = outside s
    \<and> owns F ({#(t, Header (header_of a m c)), (a, Pointers hs), (b, Pointers (heads N'))#} + all_chains N') s'
    \<and> length N' = n \<and> entries_of N' = rehash_all n (entries_of L) (entries_of N)"
  using assms(1-3,5)
proof (induction L arbitrary: i s N)
  case Nil
  have "owns F ({#(t, Header (header_of a m c)), (a, Pointers hs)#} + ({#(b, Pointers (heads N))#} + all_chains N)) s"
    using Nil.prems(1) by (simp add: add_mset_commute)
  note r = table_reads [OF this]
  from Nil.prems assms(4) show ?case by (auto simp: move_buckets.simps r)
next
  case (Cons cs L)
  let ?table = "{#(t, Header (header_of a m c)), (a, Pointers hs)#}"
  have i: "hs ! i = first cs 0" "drop (Suc i) hs = heads L" "i < m"
    using Cons.prems(2,3) assms(4) by (auto simp: heads_def drop_Suc_eq dest: nth_via_drop)
  have o: "owns F (?table + ({#(b, Pointers (heads N))#} + all_chains N + chain_cells cs 0 + all_chains L)) s"
    using Cons.prems(1) by (simp add: ac_simps add_mset_commute)
  note r = table_reads [OF o]
  have "owns F ({#(b, Pointers (heads N))#} + chain_cells cs 0 + all_chains N + (?table + all_chains L)) s"
    using o by (simp add: ac_simps add_mset_commute)
  from move_chain_cells [OF this Cons.prems(4) assms(6)] obtain s1 N1 where s1: "move_chain n b (first cs 0) s = Some s1"
    "outside s1 = outside s" "owns F ({#(b, Pointers (heads N1))#} + all_chains N1 + (?table + all_chains L)) s1"
    "length N1 = n" "entries_of N1 = rehash_chain n (map of_entry cs) (entries_of N)" by blast
  have "owns F ({#(t, Header (header_of a m c)), (a, Pointers hs), (b, Pointers (heads N1))#} + all_chains N1 + all_chains L) s1"
    using s1(3) by (simp add: ac_simps add_mset_commute)
  from Cons.IH [OF this, of "Suc i"] Cons.prems(2) i s1(4) obtain s2 N2 where s2: "move_buckets n b (Suc i) t s1 = Some s2"
    "outside s2 = outside s1" "owns F ({#(t, Header (header_of a m c)), (a, Pointers hs), (b, Pointers (heads N2))#} + all_chains N2) s2"
    "length N2 = n" "entries_of N2 = rehash_all n (entries_of L) (entries_of N1)" by auto
  have "move_buckets n b i t s = Some s2"
    using i assms(4) by (simp add: move_buckets.simps [of _ _ i] r s1(1) s2(1))
  with s1 s2 show ?case by auto
qed

text \<open>Resizing moves the nodes: the table that results is represented by the same nodes and strings.\<close>

text \<open>The end of a resize: the old array is released and the header points to the new one.\<close>

lemma swap_array:
  assumes "owns F ({#(t, Header h), (a, Pointers hs), (b, Pointers hs')#} + C) s"
  obtains s3 s4 s5 where "free_block a s = Some s3" "set_header (array_ptr_update (\<lambda>_. Some b)) t s3 = Some s4"
    "set_header (size_field_update (\<lambda>_. Some n)) t s4 = Some s5" "outside s5 = outside s"
    "owns F ({#(t, Header (size_field_update (\<lambda>_. Some n) (array_ptr_update (\<lambda>_. Some b) h))), (b, Pointers hs')#} + C) s5"
proof -
  have "owns F (add_mset (a, Pointers hs) (add_mset (t, Header h) ({#(b, Pointers hs')#} + C))) s"
    using assms by (simp add: add_mset_commute)
  from owned_free [OF this] obtain s3 where s3: "free_block a s = Some s3" "outside s3 = outside s"
    "owns F (add_mset (t, Header h) ({#(b, Pointers hs')#} + C)) s3" by metis
  from owned_set_header [OF s3(3)] obtain s4 where s4: "set_header (array_ptr_update (\<lambda>_. Some b)) t s3 = Some s4"
    "outside s4 = outside s3" "owns F (add_mset (t, Header (array_ptr_update (\<lambda>_. Some b) h)) ({#(b, Pointers hs')#} + C)) s4" by metis
  from owned_set_header [OF s4(3)] obtain s5 where "set_header (size_field_update (\<lambda>_. Some n)) t s4 = Some s5"
    "outside s5 = outside s4" "owns F (add_mset (t, Header (size_field_update (\<lambda>_. Some n) (array_ptr_update (\<lambda>_. Some b) h)))
      ({#(b, Pointers hs')#} + C)) s5" by metis
  with s3 s4 that show thesis by simp
qed

lemma resize_simulates:
  assumes "table_at F t T s" "wf_table T" "hash_table_resize T n (outside s) = (ok, T', w)"
  shows "\<exists>s'. resize_table t n s = Some (ok, s') \<and> table_at F t T' s' \<and> outside s' = w"
proof -
  obtain a L where o: "owns F ({#(t, Header (header_of a (tsize T) (count T))), (a, Pointers (heads L))#} + all_chains L) s"
    and e: "entries_of L = buckets T" and L: "length L = tsize T" by (rule table_atE [OF assms(1,2)])
  let ?h = "header_of a (tsize T) (count T)"
  note r = table_reads [OF o]
  show ?thesis
  proof (cases "n = 0 \<or> \<not> shd (mallocs (outside s))")
    case True
    with assms show ?thesis
      by (auto simp: resize_table_def hash_table_resize_def malloc_def no_new table_at_def r split: if_splits)
  next
    case False
    then have n: "0 < n" and m: "malloc (outside s) = (True, w)"
      and T': "ok" "T' = T\<lparr>buckets := rehash_all n (buckets T) (replicate n []), tsize := n\<rparr>"
      using assms(3) by (auto simp: hash_table_resize_def malloc_def)
    from owned_new [OF o m, of "Pointers (replicate n 0)"] obtain b s1 where s1:
      "new_block (Pointers (replicate n 0)) s = (b, s1)" "b \<noteq> 0" "outside s1 = w"
      "owns F (add_mset (b, Pointers (replicate n 0)) ({#(t, Header ?h), (a, Pointers (heads L))#} + all_chains L)) s1" .
    have "owns F ({#(t, Header ?h), (a, Pointers (heads L)), (b, Pointers (heads (replicate n [])))#}
        + all_chains (replicate n []) + all_chains L) s1"
      using s1(4) by (simp add: add_mset_commute)
    then have "\<exists>s2 N. move_buckets n b 0 t s1 = Some s2 \<and> outside s2 = outside s1
      \<and> owns F ({#(t, Header ?h), (a, Pointers (heads L)), (b, Pointers (heads N))#} + all_chains N) s2
      \<and> length N = n \<and> entries_of N = rehash_all n (entries_of L) (entries_of (replicate n []))"
      by (rule move_buckets_cells) (simp_all add: L n)
    then obtain s2 N where s2: "move_buckets n b 0 t s1 = Some s2" "outside s2 = outside s1"
      "owns F ({#(t, Header ?h), (a, Pointers (heads L)), (b, Pointers (heads N))#} + all_chains N) s2"
      "entries_of N = rehash_all n (buckets T) (replicate n [])" by (auto simp: e)
    have "owns F ({#(t, Header ?h), (a, Pointers (heads L))#} + ({#(b, Pointers (heads N))#} + all_chains N)) s2"
      using s2(3) by (simp add: add_mset_commute)
    note r2 = table_reads [OF this]
    obtain s3 s4 s5 where s5: "free_block a s2 = Some s3" "set_header (array_ptr_update (\<lambda>_. Some b)) t s3 = Some s4"
      "set_header (size_field_update (\<lambda>_. Some n)) t s4 = Some s5" "outside s5 = outside s2"
      "owns F ({#(t, Header (size_field_update (\<lambda>_. Some n) (array_ptr_update (\<lambda>_. Some b) ?h))), (b, Pointers (heads N))#}
        + all_chains N) s5" by (rule swap_array [OF s2(3)])
    have "resize_table t n s = Some (True, s5)"
      using n s1(1,2) by (simp add: resize_table_def r r2 s2(1) s5(1-3))
    moreover have "table_at F t T' s5"
      unfolding table_at_def using s5(5) s2(4) T'(2)
      by (intro exI [of _ b] exI [of _ N]) (simp add: header_of_def)
    ultimately show ?thesis using T'(1) s1(3) s2(2) s5(4) by simp
  qed
qed

subsection \<open>Creating entries and tables\<close>

text \<open>
  The outcome of the three allocations: \<open>NULL\<close> and the memory as it was, or a node with its strings and the other two
  fields not yet written.
\<close>

definition fresh_node :: "ptr \<Rightarrow> ptr \<Rightarrow> node" where
  "fresh_node kp vp = \<lparr>key_ptr = Some kp, val_ptr = Some vp, node_expiry = None, next_ptr = None\<rparr>"

fun mallocs3 :: "world \<Rightarrow> bool \<times> world" where
  "mallocs3 w =
     (let (ok, w) = malloc w in
      if \<not> ok then (False, w)
      else let (ok, w) = malloc w in
      if \<not> ok then (False, w)
      else malloc w)"

text \<open>A string that is allocated, stored in a field of a node and filled; and the field set to \<open>NULL\<close> without memory.\<close>

lemma attach_string:
  assumes "owns F (add_mset (p, Node n) C) s" "malloc (outside s) = (True, w)"
  obtains q s1 s2 s3 where "new_block (Chars (length c + 1) None) s = (q, s1)" "q \<noteq> 0"
    "set_node (f q) p s1 = Some s2" "strcpy q c s2 = Some s3" "outside s3 = w"
    "owns F (add_mset (p, Node (f q n)) (add_mset (q, chars_of c) C)) s3"
proof -
  from owned_new [OF assms, of "Chars (length c + 1) None"] obtain q s1 where s1:
    "new_block (Chars (length c + 1) None) s = (q, s1)" "q \<noteq> 0" "outside s1 = w"
    "owns F (add_mset (q, Chars (length c + 1) None) (add_mset (p, Node n) C)) s1" by metis
  then have "owns F (add_mset (p, Node n) (add_mset (q, Chars (length c + 1) None) C)) s1"
    by (simp add: add_mset_commute)
  from owned_set_node [OF this] obtain s2 where s2: "set_node (f q) p s1 = Some s2" "outside s2 = outside s1"
    "owns F (add_mset (p, Node (f q n)) (add_mset (q, Chars (length c + 1) None) C)) s2" by metis
  from s2(3) have "owns F (add_mset (q, Chars (length c + 1) None) (add_mset (p, Node (f q n)) C)) s2"
    by (simp add: add_mset_commute)
  from owned_strcpy [OF this, of c] obtain s3 where "strcpy q c s2 = Some s3" "outside s3 = outside s2"
    "owns F (add_mset (q, chars_of c) (add_mset (p, Node (f q n)) C)) s3" by (auto simp: chars_of_def)
  with s1 s2 that show ?thesis by (simp add: add_mset_commute)
qed

lemma attach_null:
  assumes "owns F (add_mset (p, Node n) C) s" "malloc (outside s) = (False, w)"
  obtains s1 s2 where "new_block b s = (0, s1)" "set_node f p s1 = Some s2" "outside s2 = w"
    "owns F (add_mset (p, Node (f n)) C) s2"
proof -
  have "owns F (add_mset (p, Node n) C) (s\<lparr>outside := w\<rparr>)" using assms(1) by simp
  from owned_set_node [OF this] assms(2) that show ?thesis by (auto simp: no_new)
qed

lemma malloc_cases:
  obtains w' where "malloc w = (True, w')" | w' where "malloc w = (False, w')"
  by (metis (full_types) surj_pair)

lemma new_node_cases:
  assumes "owns F C s"
  obtains (failed) s' w where "mallocs3 (outside s) = (False, w)" "new_node k v s = Some (0, s')" "owns F C s'" "outside s' = w"
    | (made) s' w p kp vp where "mallocs3 (outside s) = (True, w)" "new_node k v s = Some (p, s')" "p \<noteq> 0" "outside s' = w"
      "owns F ({#(p, Node (fresh_node kp vp)), (kp, chars_of k), (vp, chars_of v)#} + C) s'"
proof (cases "outside s" rule: malloc_cases)
  case (2 w)
  with assms show ?thesis by (intro failed [of w "s\<lparr>outside := w\<rparr>"]) (simp_all add: new_node_def no_new)
next
  case m1: (1 w1)
  from owned_new [OF assms m1, of "Node blank_node"] obtain p s1 where s1: "new_block (Node blank_node) s = (p, s1)" "p \<noteq> 0"
    "owns F (add_mset (p, Node blank_node) C) s1" "outside s1 = w1" .
  show ?thesis
  proof (cases "outside s1" rule: malloc_cases)
    case m2: (2 w)
    obtain t1 t2 where t: "new_block (Chars (length k + 1) None) s1 = (0, t1)"
      "set_node (key_ptr_update (\<lambda>_. Some 0)) p t1 = Some t2" "outside t2 = w"
      "owns F (add_mset (p, Node (key_ptr_update (\<lambda>_. Some 0) blank_node)) C) t2" by (rule attach_null [OF s1(3) m2])
    from owned_free [OF t(4)] obtain t3 where "free_block p t2 = Some t3" "owns F C t3" "outside t3 = outside t2" .
    with m1 m2 s1 t show ?thesis by (intro failed [of w t3]) (simp_all add: new_node_def)
  next
    case m2: (1 w2)
    obtain kp s2 s3 s4 where s4: "new_block (Chars (length k + 1) None) s1 = (kp, s2)" "kp \<noteq> 0"
      "set_node (key_ptr_update (\<lambda>_. Some kp)) p s2 = Some s3" "strcpy kp k s3 = Some s4" "outside s4 = w2"
      "owns F (add_mset (p, Node (key_ptr_update (\<lambda>_. Some kp) blank_node)) (add_mset (kp, chars_of k) C)) s4"
      by (rule attach_string [OF s1(3) m2, where f = "\<lambda>q. key_ptr_update (\<lambda>_. Some q)"])
    show ?thesis
    proof (cases "outside s4" rule: malloc_cases)
      case m3: (2 w)
      let ?n = "val_ptr_update (\<lambda>_. Some 0) (key_ptr_update (\<lambda>_. Some kp) blank_node)"
      obtain t1 t2 where t: "new_block (Chars (length v + 1) None) s4 = (0, t1)"
        "set_node (val_ptr_update (\<lambda>_. Some 0)) p t1 = Some t2" "outside t2 = w"
        "owns F (add_mset (p, Node ?n) (add_mset (kp, chars_of k) C)) t2" by (rule attach_null [OF s4(6) m3])
      have r: "get_node key_ptr p t2 = Some kp" using owns_here [OF t(4)] by (simp add: reads)
      from t(4) have "owns F (add_mset (kp, chars_of k) (add_mset (p, Node ?n) C)) t2" by (simp add: add_mset_commute)
      from owned_free [OF this] obtain t3 where t3: "free_block kp t2 = Some t3" "owns F (add_mset (p, Node ?n) C) t3"
        "outside t3 = outside t2" .
      from owned_free [OF t3(2)] obtain t4 where "free_block p t3 = Some t4" "owns F C t4" "outside t4 = outside t3" .
      with m1 m2 m3 s1 s4 t t3 show ?thesis by (intro failed [of w t4]) (simp_all add: new_node_def r)
    next
      case m3: (1 w3)
      obtain vp s5 s6 s7 where s7: "new_block (Chars (length v + 1) None) s4 = (vp, s5)" "vp \<noteq> 0"
        "set_node (val_ptr_update (\<lambda>_. Some vp)) p s5 = Some s6" "strcpy vp v s6 = Some s7" "outside s7 = w3"
        "owns F (add_mset (p, Node (val_ptr_update (\<lambda>_. Some vp) (key_ptr_update (\<lambda>_. Some kp) blank_node)))
          (add_mset (vp, chars_of v) (add_mset (kp, chars_of k) C))) s7"
        by (rule attach_string [OF s4(6) m3, where f = "\<lambda>q. val_ptr_update (\<lambda>_. Some q)"])
      then have "owns F ({#(p, Node (fresh_node kp vp)), (kp, chars_of k), (vp, chars_of v)#} + C) s7"
        by (simp add: blank_node_def fresh_node_def add_mset_commute)
      with m1 m2 m3 s1 s4 s7 show ?thesis by (intro made [of w3 p s7 kp vp]) (simp_all add: new_node_def)
    qed
  qed
qed

text \<open>\<^verbatim>\<open>hash_table_create\<close>: without memory nothing is left behind.\<close>

lemma create_simulates:
  assumes "owns F {#} s" "hash_table_create n (outside s) = (r, w)"
  shows "\<exists>t s'. create_table n s = Some (t, s') \<and> outside s' = w
    \<and> (case r of None \<Rightarrow> t = 0 \<and> owns F {#} s' | Some T \<Rightarrow> t \<noteq> 0 \<and> table_at F t T s')"
proof (cases "outside s" rule: malloc_cases)
  case (2 w1)
  with assms show ?thesis by (auto simp: create_table_def hash_table_create_def no_new)
next
  case m1: (1 w1)
  from owned_new [OF assms(1) m1, of "Header blank_header"] obtain t s1 where s1: "new_block (Header blank_header) s = (t, s1)"
    "t \<noteq> 0" "owns F {#(t, Header blank_header)#} s1" "outside s1 = w1" .
  show ?thesis
  proof (cases "outside s1" rule: malloc_cases)
    case m2: (2 w2)
    have "owns F {#(t, Header blank_header)#} (s1\<lparr>outside := w2\<rparr>)" using s1(3) by simp
    from owned_set_header [OF this] obtain s2 where s2: "set_header (array_ptr_update (\<lambda>_. Some 0)) t (s1\<lparr>outside := w2\<rparr>) = Some s2"
      "owns F {#(t, Header (array_ptr_update (\<lambda>_. Some 0) blank_header))#} s2" "outside s2 = w2" by auto
    from owned_free [OF s2(2)] obtain s3 where s3: "free_block t s2 = Some s3" "owns F {#} s3" "outside s3 = outside s2" .
    have "r = None" "w = w2" using assms(2) m1 m2 s1(4) by (simp_all add: hash_table_create_def)
    then show ?thesis using s1(1,2) m2 s2(3) s3 by (simp add: create_table_def no_new s2(1))
  next
    case m2: (1 w2)
    from owned_new [OF s1(3) m2, of "Pointers (replicate n 0)"] obtain a s2 where s2:
      "new_block (Pointers (replicate n 0)) s1 = (a, s2)" "a \<noteq> 0" "outside s2 = w2"
      "owns F {#(a, Pointers (replicate n 0)), (t, Header blank_header)#} s2" by metis
    then have "owns F (add_mset (t, Header blank_header) {#(a, Pointers (replicate n 0))#}) s2" by (simp add: add_mset_commute)
    from owned_set_header [OF this] obtain s3 where s3: "set_header (array_ptr_update (\<lambda>_. Some a)) t s2 = Some s3"
      "outside s3 = w2" "owns F (add_mset (t, Header (array_ptr_update (\<lambda>_. Some a) blank_header)) {#(a, Pointers (replicate n 0))#}) s3"
      using s2(3) by metis
    from owned_set_header [OF s3(3)] obtain s4 where s4: "set_header (size_field_update (\<lambda>_. Some n)) t s3 = Some s4"
      "outside s4 = w2" "owns F (add_mset (t, Header (size_field_update (\<lambda>_. Some n) (array_ptr_update (\<lambda>_. Some a) blank_header)))
        {#(a, Pointers (replicate n 0))#}) s4"
      using s3(2) by metis
    have h: "count_field_update (\<lambda>_. Some 0) (size_field_update (\<lambda>_. Some n) (array_ptr_update (\<lambda>_. Some a) blank_header))
      = header_of a n 0" by (simp add: blank_header_def header_of_def)
    obtain s5 where s5: "set_header (count_field_update (\<lambda>_. Some 0)) t s4 = Some s5"
      "owns F {#(t, Header (header_of a n 0)), (a, Pointers (replicate n 0))#} s5" "outside s5 = w2"
      using owned_set_header [OF s4(3), of "count_field_update (\<lambda>_. Some 0)"] s4(2) unfolding h by metis
    from m1 m2 s1(4) assms(2) have r: "r = Some \<lparr>buckets = replicate n [], tsize = n, count = 0\<rparr>" "w = w2"
      by (auto simp: hash_table_create_def)
    have "table_at F t \<lparr>buckets = replicate n [], tsize = n, count = 0\<rparr> s5"
      unfolding table_at_def using s5(2) by (intro exI [of _ a] exI [of _ "replicate n []"]) simp
    with r s1(1,2) s2(1,2) s5(3) show ?thesis by (simp add: create_table_def s3(1) s4(1) s5(1))
  qed
qed

subsection \<open>Lookups\<close>

lemma find_bucket_table:
  assumes "owns F ({#(t, Header (header_of a n c)), (a, Pointers (heads L))#} + C) s" "length L = n" "0 < n"
  shows "find_bucket t k s = Some (slot n k, first (L ! slot n k) 0)"
proof -
  have "slot n k < length L" using assms(2,3) by simp
  with table_reads [OF assms(1)] assms(3) show ?thesis by (simp add: find_bucket_def bucket_index_def)
qed

text \<open>One place of one chain, and the rest.\<close>

lemma all_chains_place:
  assumes "i < length L" "L ! i = xs @ c # ys"
  shows "all_chains L = place_cells c (first ys 0) + (chain_cells xs (node_at c) + chain_cells ys 0 + all_chains (L[i := []]))"
  using all_chains_split [OF assms(1)] assms(2) by (simp add: chain_cells_append ac_simps)

text \<open>The same as ownership.\<close>

lemma owns_place:
  assumes "owns F ({#(t, Header h), (a, Pointers (heads L))#} + all_chains L) s" "i < length L" "L ! i = xs @ c # ys"
  shows "owns F (place_cells c (first ys 0) + ({#(t, Header h), (a, Pointers (heads L))#}
    + (chain_cells xs (node_at c) + chain_cells ys 0 + all_chains (L[i := []])))) s"
  using assms(1) all_chains_place [OF assms(2,3)] by (simp add: ac_simps)

text \<open>The outcome of a search in the bucket of the key.\<close>

lemma search_cases:
  assumes "owns F ({#(t, Header (header_of a (tsize T) (count T))), (a, Pointers (heads L))#} + all_chains L) s"
    and "entries_of L = buckets T" "length L = tsize T" "0 < tsize T"
  obtains (absent) prev where "find_entry T k = None" "search_chain k (first (L ! slot (tsize T) k) 0) s = Some 0"
      "search_pair k 0 (first (L ! slot (tsize T) k) 0) s = Some (prev, 0)"
    | (present) xs c ys where "L ! slot (tsize T) k = xs @ c # ys" "find_entry T k = Some (of_entry c)" "key (of_entry c) = k"
      "k \<notin> key ` of_entry ` set xs" "search_chain k (first (L ! slot (tsize T) k) 0) s = Some (node_at c)"
      "search_pair k 0 (first (L ! slot (tsize T) k) 0) s = Some (if xs = [] then 0 else node_at (last xs), node_at c)"
      "node_at c \<noteq> 0"
proof -
  let ?i = "slot (tsize T) k"
  have i: "?i < length L" using assms(3,4) by simp
  have f: "find_entry T k = chain_find k (map of_entry (L ! ?i))"
    using i by (simp add: find_entry_def assms(2) [symmetric])
  have o: "owns F (chain_cells (L ! ?i) 0 + ({#(t, Header (header_of a (tsize T) (count T))), (a, Pointers (heads L))#}
      + all_chains (L[?i := []]))) s"
    using assms(1) all_chains_split [OF i] by (simp add: ac_simps)
  show ?thesis
  proof (cases "chain_find k (map of_entry (L ! ?i))")
    case None
    obtain prev where "search_pair k 0 (first (L ! ?i) 0) s = Some (prev, 0)" by (rule search_pair_none [OF o None])
    with None f search_chain_cells(1) [OF o None] show ?thesis by (intro absent) simp_all
  next
    case (Some e)
    then obtain xs c ys where c: "L ! ?i = xs @ c # ys" "of_entry c = e" "key e = k" "k \<notin> key ` of_entry ` set xs"
      by (rule chain_find_place)
    have "(node_at c, Node (node_of c (first ys 0))) \<in># all_chains L"
      by (simp add: all_chains_place [OF i c(1)] place_cells_def)
    then have "node_at c \<noteq> 0" using owns_nonnull [OF assms(1)] by auto
    with c f Some search_chain_cells(2,3) [OF o c(1) _ c(4)] show ?thesis by (intro present [of xs c ys]) simp_all
  qed
qed

lemma is_expired_place:
  assumes "owns F (place_cells c q + C) s"
  shows "is_expired_at (node_at c) s =
    (let (b, w) = entry_is_expired (Some (of_entry c)) (outside s) in Some (b, s\<lparr>outside := w\<rparr>))"
  by (simp add: is_expired_at_def entry_is_expired_def place_reads [OF assms] split: prod.splits)

lemma table_at_outside [simp]: "table_at F t T (s\<lparr>outside := w\<rparr>) = table_at F t T s"
  by (simp add: table_at_def)

lemma lookup_cases:
  assumes "table_at F t T s" "wf_table T"
  obtains (absent) i h where "find_entry T k = None" "find_bucket t k s = Some (i, h)" "search_chain k h s = Some 0" "t \<noteq> 0"
    | (present) i h c q C where "find_entry T k = Some (of_entry c)" "find_bucket t k s = Some (i, h)"
      "search_chain k h s = Some (node_at c)" "t \<noteq> 0" "node_at c \<noteq> 0" "owns F (place_cells c q + C) s"
proof -
  obtain a L where o: "owns F ({#(t, Header (header_of a (tsize T) (count T))), (a, Pointers (heads L))#} + all_chains L) s"
    and e: "entries_of L = buckets T" and L: "length L = tsize T" by (rule table_atE [OF assms])
  let ?i = "slot (tsize T) k"
  have n: "0 < tsize T" "?i < length L" using assms(2) L by (simp_all add: wf_table_def)
  note b = find_bucket_table [OF o L n(1)] table_reads(4) [OF o]
  show ?thesis using o e L n(1)
  proof (cases rule: search_cases [where k = k])
    case (absent prev)
    with b show ?thesis by (intro that(1))
  next
    case (present xs c ys)
    from owns_place [OF o n(2) this(1)] present b show ?thesis by (intro that(2))
  qed
qed

lemma get_simulates:
  assumes "table_at F t T s" "wf_table T" "hash_table_get T k (outside s) = (r, w)"
  shows "\<exists>p. get_from_table t k s = Some (p, s\<lparr>outside := w\<rparr>)
    \<and> (case r of None \<Rightarrow> p = 0 | Some v \<Rightarrow> p \<noteq> 0 \<and> get_string p (s\<lparr>outside := w\<rparr>) = Some v)"
  using assms(1,2)
proof (cases rule: lookup_cases [where k = k])
  case (absent i h)
  with assms(3) show ?thesis by (auto simp: get_from_table_def hash_table_get_def)
next
  case (present i h c q C)
  then have p: "owns F (place_cells c q + C) (s\<lparr>outside := w\<rparr>)" for w by simp
  have v: "val_at c \<noteq> 0" using owns_nonnull [OF present(6), of "val_at c"] by (auto simp: place_cells_def)
  obtain x w1 where x: "entry_is_expired (Some (of_entry c)) (outside s) = (x, w1)" by (cases "entry_is_expired (Some (of_entry c)) (outside s)")
  with assms(3) present v show ?thesis
    by (auto simp: get_from_table_def hash_table_get_def is_expired_place [OF present(6)] place_reads [OF p])
qed

lemma ttl_simulates:
  assumes "table_at F t T s" "wf_table T" "hash_table_ttl T k (outside s) = (r, w)"
  shows "ttl_in_table t k s = Some (r, s\<lparr>outside := w\<rparr>)"
  using assms(1,2)
proof (cases rule: lookup_cases [where k = k])
  case (absent i h)
  with assms(3) show ?thesis by (auto simp: ttl_in_table_def hash_table_ttl_def)
next
  case (present i h c q C)
  with assms(3) show ?thesis
    by (auto simp: ttl_in_table_def hash_table_ttl_def place_reads [OF present(6)] split: prod.splits if_splits)
qed

subsection \<open>Updates\<close>

text \<open>A new buffer for the value: the old one is released, the node stays.\<close>

lemma replace_value_place:
  assumes "owns F (place_cells c q + C) s" "malloc (outside s) = (True, w)"
  shows "\<exists>p s'. replace_value (node_at c) v x s = Some (True, s') \<and> outside s' = w
    \<and> owns F (place_cells (Place ((of_entry c)\<lparr>val := v, expires_at := x\<rparr>) (node_at c) (key_at c) p) q + C) s'"
proof -
  let ?key = "(key_at c, chars_of (key (of_entry c)))" and ?val = "(val_at c, chars_of (val (of_entry c)))"
  obtain p s1 where s1: "new_block (Chars (length v + 1) None) s = (p, s1)" "p \<noteq> 0" "outside s1 = w"
    "owns F (add_mset (p, Chars (length v + 1) None) (place_cells c q + C)) s1"
    by (rule owned_new [OF assms, of "Chars (length v + 1) None"])
  obtain s2 where s2: "strcpy p v s1 = Some s2" "outside s2 = w" "owns F (add_mset (p, chars_of v) (place_cells c q + C)) s2"
    using owned_strcpy [OF s1(4), of v] s1(3) by (auto simp: chars_of_def)
  then have o: "owns F (place_cells c q + add_mset (p, chars_of v) C) s2" by simp
  have n: "node_at c \<noteq> 0" using place_reads(4) [OF o] .
  have "owns F (add_mset ?val ({#(node_at c, Node (node_of c q)), ?key, (p, chars_of v)#} + C)) s2"
    using o by (simp add: place_cells_def add_mset_commute)
  from owned_free [OF this] obtain s3 where s3: "free_block (val_at c) s2 = Some s3" "outside s3 = outside s2"
    "owns F (add_mset (node_at c, Node (node_of c q)) ({#?key, (p, chars_of v)#} + C)) s3" by auto
  from owned_set_node [OF s3(3)] obtain s4 where s4: "set_node (val_ptr_update (\<lambda>_. Some p)) (node_at c) s3 = Some s4"
    "outside s4 = outside s3" "owns F (add_mset (node_at c, Node (val_ptr_update (\<lambda>_. Some p) (node_of c q))) ({#?key, (p, chars_of v)#} + C)) s4"
    by metis
  from owned_set_node [OF s4(3)] obtain s5 where s5: "set_node (node_expiry_update (\<lambda>_. Some x)) (node_at c) s4 = Some s5"
    "outside s5 = outside s4" "owns F (add_mset (node_at c, Node (node_expiry_update (\<lambda>_. Some x) (val_ptr_update (\<lambda>_. Some p) (node_of c q))))
      ({#?key, (p, chars_of v)#} + C)) s5" by metis
  have "replace_value (node_at c) v x s = Some (True, s5)"
    using s1(1,2) n by (simp add: replace_value_def s2(1) s3(1) s4(1) s5(1) set_expiry_at_def place_reads [OF o])
  with s2(2) s3(2) s4(2) s5 show ?thesis
    by (intro exI [of _ p] exI [of _ s5]) (simp add: place_cells_def node_of_def)
qed

text \<open>A node at the head of its chain.\<close>

lemma link_node_table:
  assumes "owns F ({#(p, Node (fresh_node kp vp)), (kp, chars_of k), (vp, chars_of v)#}
      + ({#(t, Header (header_of a n c)), (a, Pointers (heads L))#} + all_chains L)) s" "i < length L"
  shows "\<exists>s'. link_node t i p x s = Some s' \<and> outside s' = outside s
    \<and> (let L' = L[i := Place \<lparr>key = k, val = v, expires_at = x\<rparr> p kp vp # L ! i] in
        owns F ({#(t, Header (header_of a n (c + 1))), (a, Pointers (heads L'))#} + all_chains L') s')"
proof -
  let ?h = "header_of a n c" and ?strings = "{#(kp, chars_of k), (vp, chars_of v)#}"
  let ?c = "Place \<lparr>key = k, val = v, expires_at = x\<rparr> p kp vp" and ?f = "first (L ! i) 0"
  let ?table = "{#(t, Header ?h), (a, Pointers (heads L))#} + all_chains L"
  have "owns F (add_mset (p, Node (fresh_node kp vp)) (?strings + ?table)) s"
    using assms(1) by (simp add: add_mset_commute)
  from owned_set_node [OF this] obtain s1 where s1: "set_node (node_expiry_update (\<lambda>_. Some x)) p s = Some s1" "outside s1 = outside s"
    "owns F (add_mset (p, Node (node_expiry_update (\<lambda>_. Some x) (fresh_node kp vp))) (?strings + ?table)) s1" by metis
  then have "owns F ({#(t, Header ?h), (a, Pointers (heads L))#} + (add_mset (p, Node (node_expiry_update (\<lambda>_. Some x) (fresh_node kp vp)))
      (?strings + all_chains L))) s1" by (simp add: add_mset_commute)
  note r = table_reads [OF this]
  from owned_set_node [OF s1(3)] obtain s2 where s2: "set_node (next_ptr_update (\<lambda>_. Some ?f)) p s1 = Some s2" "outside s2 = outside s1"
    "owns F (add_mset (p, Node (next_ptr_update (\<lambda>_. Some ?f) (node_expiry_update (\<lambda>_. Some x) (fresh_node kp vp))))
      (?strings + ?table)) s2" by metis
  have n: "next_ptr_update (\<lambda>_. Some ?f) (node_expiry_update (\<lambda>_. Some x) (fresh_node kp vp)) = node_of ?c ?f"
    by (simp add: fresh_node_def node_of_def)
  from s2(3) have "owns F (add_mset (a, Pointers (heads L)) (add_mset (t, Header ?h) (place_cells ?c ?f + all_chains L))) s2"
    unfolding n by (simp add: place_cells_def add_mset_commute)
  from owned_set_slot [OF this] assms(2) obtain s3 where s3: "set_slot a i p s2 = Some s3" "outside s3 = outside s2"
    "owns F (add_mset (a, Pointers ((heads L)[i := p])) (add_mset (t, Header ?h) (place_cells ?c ?f + all_chains L))) s3"
    by (metis heads_simps(1))
  then have o: "owns F (add_mset (t, Header ?h) (add_mset (a, Pointers ((heads L)[i := p])) (place_cells ?c ?f + all_chains L))) s3"
    by (simp add: add_mset_commute)
  have c: "get_header count_field t s3 = Some c" using owns_here [OF o] by (simp add: reads header_of_def)
  from owned_set_header [OF o] obtain s4 where s4: "set_header (count_field_update (\<lambda>_. Some (c + 1))) t s3 = Some s4"
    "outside s4 = outside s3" "owns F (add_mset (t, Header (count_field_update (\<lambda>_. Some (c + 1)) ?h))
      (add_mset (a, Pointers ((heads L)[i := p])) (place_cells ?c ?f + all_chains L))) s4" by metis
  have "link_node t i p x s = Some s4"
    using assms(2) by (simp add: link_node_def r c s1(1) s2(1) s3(1) s4(1) [simplified])
  with s1(2) s2(2) s3(2) s4 assms(2) show ?thesis
    by (intro exI [of _ s4]) (simp add: Let_def all_chains_push header_of_def)
qed

text \<open>\<^verbatim>\<open>hash_table_set_with_expiry\<close> on a key that is there.\<close>

lemma write_place:
  assumes "entries_of L = buckets T" "length L = tsize T" "0 < tsize T"
    and c: "L ! slot (tsize T) k = xs @ c # ys" "key (of_entry c) = k" "k \<notin> key ` of_entry ` set xs"
    and c': "node_at c' = node_at c" "of_entry c' = f (of_entry c)"
    and o: "owns F (place_cells c' (first ys 0) + ({#(t, Header (header_of a (tsize T) (count T))), (a, Pointers (heads L))#}
      + (chain_cells xs (node_at c) + chain_cells ys 0 + all_chains (L[slot (tsize T) k := []])))) s"
  shows "table_at F t (write_entry k f T) s"
proof -
  let ?i = "slot (tsize T) k"
  let ?L = "L[?i := xs @ c' # ys]"
  have i: "?i < length L" using assms(2,3) by simp
  have "heads ?L = heads L"
    using i c(1) c'(1) list_update_id [of "heads L" ?i] by (simp add: first_append)
  moreover have "all_chains ?L = place_cells c' (first ys 0) + (chain_cells xs (node_at c) + chain_cells ys 0 + all_chains (L[?i := []]))"
    using all_chains_place [of ?i ?L xs c' ys] i c'(1) by simp
  ultimately have "owns F ({#(t, Header (header_of a (tsize T) (count T))), (a, Pointers (heads ?L))#} + all_chains ?L) s"
    using o by (simp add: ac_simps)
  moreover have "entries_of ?L = buckets (write_entry k f T)"
    using c i chain_at_place(1) [of "of_entry c" k "map of_entry xs" f "map of_entry ys"]
    by (simp add: write_entry_def Let_def assms(1) [symmetric] map_update c'(2))
  ultimately show ?thesis
    unfolding table_at_def by (intro exI [of _ a] exI [of _ ?L]) (simp add: write_entry_def Let_def)
qed

lemma replace_simulates:
  assumes "owns F ({#(t, Header (header_of a (tsize T) (count T))), (a, Pointers (heads L))#} + all_chains L) s"
    and "entries_of L = buckets T" "length L = tsize T" "0 < tsize T"
    and c: "L ! slot (tsize T) k = xs @ c # ys" "key (of_entry c) = k" "k \<notin> key ` of_entry ` set xs"
    and m: "malloc (outside s) = (True, w)"
  shows "\<exists>s'. replace_value (node_at c) v x s = Some (True, s') \<and> outside s' = w
    \<and> table_at F t (write_entry k (\<lambda>e. the (entry_set_expiry_at (Some (e\<lparr>val := v\<rparr>)) x)) T) s'"
proof -
  have "slot (tsize T) k < length L" using assms(3,4) by simp
  from replace_value_place [OF owns_place [OF assms(1) this c(1)] m, of v x] obtain p s' where
    s': "replace_value (node_at c) v x s = Some (True, s')" "outside s' = w"
    "owns F (place_cells (Place ((of_entry c)\<lparr>val := v, expires_at := x\<rparr>) (node_at c) (key_at c) p) (first ys 0)
      + ({#(t, Header (header_of a (tsize T) (count T))), (a, Pointers (heads L))#}
      + (chain_cells xs (node_at c) + chain_cells ys 0 + all_chains (L[slot (tsize T) k := []])))) s'" by blast
  have "table_at F t (write_entry k (\<lambda>e. the (entry_set_expiry_at (Some (e\<lparr>val := v\<rparr>)) x)) T) s'"
    by (rule write_place [OF assms(2-4) c _ _ s'(3)]) (simp_all add: entry_set_expiry_at_def)
  with s'(1,2) show ?thesis by blast
qed

text \<open>\<^verbatim>\<open>hash_table_set_with_expiry\<close> on a new key, up to the test of the load factor.\<close>

definition add_entry :: "cstr \<Rightarrow> cstr \<Rightarrow> time_t \<Rightarrow> hash_table \<Rightarrow> hash_table" where
  "add_entry k v x T =
     (let i = slot (tsize T) k
      in T\<lparr>buckets := (buckets T)[i := \<lparr>key = k, val = v, expires_at = x\<rparr> # buckets T ! i], count := count T + 1\<rparr>)"

lemma add_entry_simps [simp]: "tsize (add_entry k v x T) = tsize T" "count (add_entry k v x T) = count T + 1"
  by (simp_all add: add_entry_def Let_def)

lemma insert_simulates:
  assumes "owns F ({#(p, Node (fresh_node kp vp)), (kp, chars_of k), (vp, chars_of v)#}
      + ({#(t, Header (header_of a (tsize T) (count T))), (a, Pointers (heads L))#} + all_chains L)) s"
    and "entries_of L = buckets T" "length L = tsize T" "0 < tsize T"
  shows "\<exists>s'. link_node t (slot (tsize T) k) p x s = Some s' \<and> outside s' = outside s \<and> table_at F t (add_entry k v x T) s'
    \<and> get_header count_field t s' = Some (count T + 1) \<and> get_header size_field t s' = Some (tsize T)"
proof -
  let ?i = "slot (tsize T) k"
  let ?L = "L[?i := Place \<lparr>key = k, val = v, expires_at = x\<rparr> p kp vp # L ! ?i]"
  have i: "?i < length L" using assms(3,4) by simp
  from link_node_table [OF assms(1) i, of x] obtain s' where s': "link_node t ?i p x s = Some s'" "outside s' = outside s"
    "owns F ({#(t, Header (header_of a (tsize T) (count T + 1))), (a, Pointers (heads ?L))#} + all_chains ?L) s'"
    by (auto simp: Let_def)
  have "entries_of ?L = buckets (add_entry k v x T)"
    using i by (simp add: add_entry_def Let_def assms(2) [symmetric] map_update)
  with s'(3) have "table_at F t (add_entry k v x T) s'"
    unfolding table_at_def by (intro exI [of _ a] exI [of _ ?L]) simp
  with s' table_reads(2,3) [OF s'(3)] show ?thesis by simp
qed

text \<open>The list model with the allocations of a new entry in one step.\<close>

lemma set_with_expiry_absent:
  assumes "find_entry T k = None"
  shows "hash_table_set_with_expiry k v x T w =
    (let (ok, w) = mallocs3 w in
     if \<not> ok then (False, T, w)
     else let T = add_entry k v x T in
     if load_exceeded T then let (_, T, w) = hash_table_resize T (tsize T * resize_factor) w in (True, T, w) else (True, T, w))"
  using assms by (simp add: hash_table_set_with_expiry_def add_entry_def Let_def split: prod.splits)

lemma set_simulates:
  assumes "table_at F t T s" "wf_table T" "hash_table_set_with_expiry k v x T (outside s) = (ok, T', w)"
  shows "\<exists>s'. set_in_table t k v x s = Some (ok, s') \<and> table_at F t T' s' \<and> outside s' = w"
proof -
  obtain a L where o: "owns F ({#(t, Header (header_of a (tsize T) (count T))), (a, Pointers (heads L))#} + all_chains L) s"
    and e: "entries_of L = buckets T" and L: "length L = tsize T" by (rule table_atE [OF assms(1,2)])
  have n: "0 < tsize T" using assms(2) by (simp add: wf_table_def)
  note b = find_bucket_table [OF o L n] table_reads(4) [OF o]
  show ?thesis using o e L n
  proof (cases rule: search_cases [where k = k])
    case (present xs c ys)
    show ?thesis
    proof (cases "outside s" rule: malloc_cases)
      case m: (1 w1)
      from replace_simulates [OF o e L n present(1,3,4) m] obtain s' where "replace_value (node_at c) v x s = Some (True, s')"
        "outside s' = w1" "table_at F t (write_entry k (\<lambda>e. the (entry_set_expiry_at (Some (e\<lparr>val := v\<rparr>)) x)) T) s'" by blast
      with assms(3) present m b show ?thesis by (auto simp: set_in_table_def hash_table_set_with_expiry_def)
    next
      case (2 w1)
      with assms(1,3) present b show ?thesis
        by (auto simp: set_in_table_def hash_table_set_with_expiry_def replace_value_def no_new)
    qed
  next
    case (absent prev)
    note T' = assms(3) [unfolded set_with_expiry_absent [OF absent(1)]]
    show ?thesis using o
    proof (cases rule: new_node_cases [where k = k and v = v])
      case (failed s1 w1)
      moreover from failed have "table_at F t T s1" unfolding table_at_def using e by blast
      ultimately show ?thesis using T' b absent by (simp add: set_in_table_def)
    next
      case (made s1 w1 p kp vp)
      from insert_simulates [OF made(5) e L n, of x] obtain s2 where s2: "link_node t (slot (tsize T) k) p x s1 = Some s2" "outside s2 = w1"
        "table_at F t (add_entry k v x T) s2" "get_header count_field t s2 = Some (count T + 1)"
        "get_header size_field t s2 = Some (tsize T)" using made(4) by auto
      show ?thesis
      proof (cases "load_exceeded (add_entry k v x T)")
        case False
        with T' made s2 b absent show ?thesis
          by (auto simp: set_in_table_def load_exceeded_def simp del: mallocs3.simps)
      next
        case True
        obtain ok1 T1 w2 where r: "hash_table_resize (add_entry k v x T) (tsize T * resize_factor) w1 = (ok1, T1, w2)"
          by (metis prod_cases3)
        have wf: "wf_table (add_entry k v x T)"
          using insert_entry [of T "\<lparr>key = k, val = v, expires_at = x\<rparr>"] assms(2) absent(1)
          by (simp add: add_entry_def Let_def)
        from resize_simulates [OF s2(3) wf] r s2(2) obtain s3 where s3:
          "resize_table t (tsize T * resize_factor) s2 = Some (ok1, s3)" "table_at F t T1 s3" "outside s3 = w2" by blast
        from T' made True r have "ok" "T' = T1" "w = w2" by (auto simp del: mallocs3.simps)
        with made s2 s3 b absent True show ?thesis
          by (simp add: set_in_table_def load_exceeded_def)
      qed
    qed
  qed
qed

text \<open>A write of \<open>expires_at\<close> through the pointer that a search returns.\<close>

lemma owned_set_expiry:
  assumes "owns F (place_cells c q + C) s"
  obtains s' where "set_node (node_expiry_update (\<lambda>_. Some x)) (node_at c) s = Some s'" "outside s' = outside s"
    "owns F (place_cells (Place ((of_entry c)\<lparr>expires_at := x\<rparr>) (node_at c) (key_at c) (val_at c)) q + C) s'"
proof -
  let ?strings = "{#(key_at c, chars_of (key (of_entry c))), (val_at c, chars_of (val (of_entry c)))#}"
  have "owns F (add_mset (node_at c, Node (node_of c q)) (?strings + C)) s" using assms by (simp add: place_cells_def)
  from owned_set_node [OF this] obtain s' where "set_node (node_expiry_update (\<lambda>_. Some x)) (node_at c) s = Some s'"
    "owns F (add_mset (node_at c, Node (node_expiry_update (\<lambda>_. Some x) (node_of c q))) (?strings + C)) s'" "outside s' = outside s" .
  then show ?thesis by (intro that [of s']) (simp_all add: place_cells_def node_of_def)
qed

lemma expiry_simulates:
  assumes "table_at F t T s" "wf_table T"
  obtains (absent) i h where "find_entry T k = None" "find_bucket t k s = Some (i, h)" "search_chain k h s = Some 0" "t \<noteq> 0"
    | (present) i h p s' where "find_entry T k \<noteq> None" "find_bucket t k s = Some (i, h)" "search_chain k h s = Some p" "t \<noteq> 0"
      "p \<noteq> 0" "set_node (node_expiry_update (\<lambda>_. Some x)) p s = Some s'" "outside s' = outside s"
      "table_at F t (write_entry k (\<lambda>e. e\<lparr>expires_at := x\<rparr>) T) s'"
proof -
  obtain a L where o: "owns F ({#(t, Header (header_of a (tsize T) (count T))), (a, Pointers (heads L))#} + all_chains L) s"
    and e: "entries_of L = buckets T" and L: "length L = tsize T" by (rule table_atE [OF assms])
  have n: "0 < tsize T" "slot (tsize T) k < length L" using assms(2) L by (simp_all add: wf_table_def)
  note b = find_bucket_table [OF o L n(1)] table_reads(4) [OF o]
  show ?thesis using o e L n(1)
  proof (cases rule: search_cases [where k = k])
    case (absent prev)
    with b show ?thesis by (intro that(1))
  next
    case (present xs c ys)
    from owned_set_expiry [OF owns_place [OF o n(2) present(1)]] obtain s' where
      s': "set_node (node_expiry_update (\<lambda>_. Some x)) (node_at c) s = Some s'" "outside s' = outside s"
      "owns F (place_cells (Place ((of_entry c)\<lparr>expires_at := x\<rparr>) (node_at c) (key_at c) (val_at c)) (first ys 0)
        + ({#(t, Header (header_of a (tsize T) (count T))), (a, Pointers (heads L))#}
        + (chain_cells xs (node_at c) + chain_cells ys 0 + all_chains (L[slot (tsize T) k := []])))) s'" .
    have "table_at F t (write_entry k (\<lambda>e. e\<lparr>expires_at := x\<rparr>) T) s'"
      by (rule write_place [OF e L n(1) present(1,3,4) _ _ s'(3)]) simp_all
    with present b s'(1,2) show ?thesis by (intro that(2)) simp_all
  qed
qed

text \<open>Taking a node out of its chain: the head pointer or the previous node gets its successor.\<close>

lemma unlink_simulates:
  assumes "owns F ({#(t, Header h), (a, Pointers (heads L))#} + all_chains L) s" "i < length L" "L ! i = xs @ c # ys"
    and "get_header array_ptr t s = Some a"
  shows "\<exists>s'. (if (if xs = [] then 0 else node_at (last xs)) = 0
      then get_header array_ptr t s \<bind> (\<lambda>a. set_slot a i (first ys 0) s)
      else set_node (next_ptr_update (\<lambda>_. Some (first ys 0))) (if xs = [] then 0 else node_at (last xs)) s) = Some s'
    \<and> outside s' = outside s
    \<and> owns F (place_cells c (first ys 0) + ({#(t, Header h), (a, Pointers (heads (L[i := xs @ ys])))#} + all_chains (L[i := xs @ ys]))) s'"
proof (cases xs rule: rev_cases)
  case Nil
  have "owns F (add_mset (a, Pointers (heads L)) (add_mset (t, Header h) (all_chains L))) s"
    using assms(1) by (simp add: add_mset_commute)
  from owned_set_slot [OF this] assms(2) obtain s' where s': "set_slot a i (first ys 0) s = Some s'" "outside s' = outside s"
    "owns F (add_mset (a, Pointers ((heads L)[i := first ys 0])) (add_mset (t, Header h) (all_chains L))) s'"
    by (metis heads_simps(1))
  have "all_chains L = place_cells c (first ys 0) + all_chains (L[i := ys])"
    using all_chains_place [OF assms(2,3)] all_chains_update [OF assms(2), of ys] Nil by simp
  with s' Nil assms(2,4) show ?thesis by (simp add: ac_simps add_mset_commute)
next
  case (snoc us d)
  let ?rest = "chain_cells us (node_at d) + chain_cells ys 0 + all_chains (L[i := []])"
  let ?C = "place_cells c (first ys 0) + ({#(t, Header h), (a, Pointers (heads L))#} + ?rest)"
  have "all_chains L = place_cells c (first ys 0) + (place_cells d (node_at c) + ?rest)"
    using all_chains_place [OF assms(2,3)] snoc by (simp add: chain_cells_append ac_simps)
  then have o: "owns F (place_cells d (node_at c) + ?C) s" using assms(1) by (simp add: ac_simps)
  from owned_set_next [OF o] obtain s' where s': "set_node (next_ptr_update (\<lambda>_. Some (first ys 0))) (node_at d) s = Some s'"
    "owns F (place_cells d (first ys 0) + ?C) s'" "outside s' = outside s" .
  have "all_chains (L[i := xs @ ys]) = place_cells d (first ys 0) + ?rest"
    using all_chains_update [OF assms(2), of "xs @ ys"] snoc by (simp add: chain_cells_append ac_simps)
  moreover have "heads (L[i := xs @ ys]) = heads L"
    using assms(2,3) snoc list_update_id [of "heads L" i] by (simp add: first_append)
  ultimately have "owns F (place_cells c (first ys 0) + ({#(t, Header h), (a, Pointers (heads (L[i := xs @ ys])))#}
      + all_chains (L[i := xs @ ys]))) s'"
    using s'(2) by (simp add: ac_simps)
  with s' snoc place_reads(4) [OF o] show ?thesis by simp
qed

lemma delete_simulates:
  assumes "table_at F t T s" "wf_table T" "hash_table_delete k T = (ok, T')"
  shows "\<exists>s'. delete_from_table t k s = Some (ok, s') \<and> table_at F t T' s' \<and> outside s' = outside s"
proof -
  obtain a L where o: "owns F ({#(t, Header (header_of a (tsize T) (count T))), (a, Pointers (heads L))#} + all_chains L) s"
    and e: "entries_of L = buckets T" and L: "length L = tsize T" by (rule table_atE [OF assms(1,2)])
  let ?i = "slot (tsize T) k" and ?h = "header_of a (tsize T) (count T)"
  have n: "0 < tsize T" and i: "?i < length L" using assms(2) L by (simp_all add: wf_table_def)
  note b = find_bucket_table [OF o L n] table_reads(1,4) [OF o]
  show ?thesis using o e L n
  proof (cases rule: search_cases [where k = k])
    case (absent prev)
    with assms(1,3) b show ?thesis by (auto simp: delete_from_table_def hash_table_delete_def find_entry_def Let_def)
  next
    case (present xs c ys)
    let ?L = "L[?i := xs @ ys]"
    note q = place_reads(1) [OF owns_place [OF o i present(1)], of next_ptr]
    from unlink_simulates [OF o i present(1) b(2)] obtain s1 where s1:
      "(if (if xs = [] then 0 else node_at (last xs)) = 0
        then get_header array_ptr t s \<bind> (\<lambda>a. set_slot a ?i (first ys 0) s)
        else set_node (next_ptr_update (\<lambda>_. Some (first ys 0))) (if xs = [] then 0 else node_at (last xs)) s) = Some s1"
      "outside s1 = outside s" "owns F (place_cells c (first ys 0) + ({#(t, Header ?h), (a, Pointers (heads ?L))#} + all_chains ?L)) s1"
      by blast
    from entry_destroy_place [OF s1(3)] obtain s2 where s2: "entry_destroy (node_at c) s1 = Some s2"
      "owns F ({#(t, Header ?h), (a, Pointers (heads ?L))#} + all_chains ?L) s2" "outside s2 = outside s1" .
    from s2(2) have "owns F (add_mset (t, Header ?h) (add_mset (a, Pointers (heads ?L)) (all_chains ?L))) s2" by simp
    from owned_set_header [OF this] obtain s3 where s3: "set_header (count_field_update (\<lambda>_. Some (count T - 1))) t s2 = Some s3"
      "outside s3 = outside s2" "owns F (add_mset (t, Header (count_field_update (\<lambda>_. Some (count T - 1)) ?h))
        (add_mset (a, Pointers (heads ?L)) (all_chains ?L))) s3" by metis
    have d: "delete_from_table t k s = Some (True, s3)"
      using b present(6,7) q s1(1) s2(1) s3(1) table_reads(3) [OF s2(2)] by (simp add: delete_from_table_def)
    have T': "ok" "T' = T\<lparr>buckets := (buckets T)[?i := chain_unlink k (buckets T ! ?i)], count := count T - 1\<rparr>"
      using assms(3) present(2) by (auto simp: hash_table_delete_def find_entry_def Let_def)
    have "entries_of ?L = buckets T'"
      using i present chain_at_place(2) [of "of_entry c" k "map of_entry xs" "map of_entry ys"]
      by (simp add: T'(2) e [symmetric] map_update)
    then have "table_at F t T' s3"
      unfolding table_at_def using s3(3) by (intro exI [of _ a] exI [of _ ?L]) (simp add: T'(2) header_of_def)
    with d T'(1) s1(2) s2(3) s3(2) show ?thesis by simp
  qed
qed

subsection \<open>Properties\<close>

text \<open>The map a memory holds, in the struct at address \<open>t\<close> and the blocks reached from it.\<close>

definition map_at :: "(ptr \<rightharpoonup> block) \<Rightarrow> ptr \<Rightarrow> (cstr \<rightharpoonup> cstr \<times> time_t) \<Rightarrow> memory \<Rightarrow> bool" where
  "map_at F t m s \<longleftrightarrow> (\<exists>T. table_at F t T s \<and> wf_table T \<and> tmap T = m)"

lemma map_atI: "table_at F t T s \<Longrightarrow> wf_table T \<Longrightarrow> map_at F t (tmap T) s"
  by (auto simp: map_at_def)

lemma map_atE:
  assumes "map_at F t m s"
  obtains T where "table_at F t T s" "wf_table T" "m = tmap T"
  using assms by (auto simp: map_at_def)

text \<open>The example: one key in eight buckets.\<close>

definition one_binding :: memory where
  "one_binding =
     \<lparr>cells = [1 \<mapsto> Header (header_of 2 8 1), 2 \<mapsto> Pointers ((replicate 8 0)[1 := 3]),
        3 \<mapsto> Node \<lparr>key_ptr = Some 4, val_ptr = Some 5, node_expiry = Some 0, next_ptr = Some 0\<rparr>,
        4 \<mapsto> Chars 2 (Some ''a''), 5 \<mapsto> Chars 2 (Some ''b'')],
      brk = 6, outside = calm 0 Map.empty\<rparr>"

lemma one_binding_map: "map_at Map.empty 1 [''a'' \<mapsto> (''b'', 0)] one_binding"
proof -
  let ?e = "\<lparr>key = ''a'', val = ''b'', expires_at = 0\<rparr>"
  let ?T = "\<lparr>buckets = (replicate 8 [])[1 := [?e]], tsize = 8, count = 1\<rparr>"
  have s: "slot 8 ''a'' = 1" by (simp add: slot_def hash_key_def)
  have "hash_table_set_with_expiry ''a'' ''b'' 0 (empty_table 8) (calm 0 Map.empty) = (True, ?T, calm 0 Map.empty)"
    by (simp add: hash_table_set_with_expiry_def malloc_ok Let_def load_exceeded_def) (simp add: empty_table_def s)
  then have t: "?T = one_table ''a'' ''b'' 0" by (simp add: one_table_def)
  have T: "wf_table ?T" "tmap ?T = [''a'' \<mapsto> (''b'', 0)]" unfolding t by (rule one_table)+
  let ?L = "(replicate 8 [])[1 := [Place ?e 3 4 5]]"
  have "(replicate 8 [])[1 := []] = (replicate 8 [] :: place list list)"
    using list_update_id [of "replicate 8 []" 1] by simp
  then have "all_chains ?L = place_cells (Place ?e 3 4 5) 0" using all_chains_update [of 1 "replicate 8 []" "[Place ?e 3 4 5]"] by simp
  moreover have "sane one_binding" by (simp add: one_binding_def sane_def)
  moreover have "heads ?L = (replicate 8 0)[1 := 3]" by simp
  moreover have "holds Map.empty ({#(1, Header (header_of 2 8 1)), (2, Pointers ((replicate 8 0)[1 := 3]))#}
      + place_cells (Place ?e 3 4 5) 0) (cells one_binding)"
    by (simp add: one_binding_def place_cells_def node_of_def chars_of_def holds_add fun_eq_iff)
  ultimately have "table_at Map.empty 1 ?T one_binding"
    unfolding table_at_def owns_def by (intro exI [of _ 2] exI [of _ ?L]) (simp add: map_update)
  with T show ?thesis by (auto simp: map_at_def)
qed

lemma one_binding_mem [simp]: "mem_ok (outside one_binding)"
  by (simp add: one_binding_def)

text \<open>
  C16: \<open>hash_table_set_with_expiry\<close>, on linked nodes, is a map update or has no effect.  It returns in every memory that
  holds a map; afterwards the memory holds the updated map when it reports success and the old one when it
  reports failure, and nothing else has been allocated or released.  It fails only when memory runs out.
\<close>

theorem set_updates_map:
  assumes "map_at F t m s"
  shows "\<exists>ok s'. set_in_table t k v x s = Some (ok, s') \<and> map_at F t (if ok then m(k \<mapsto> (v, x)) else m) s'
    \<and> (ok \<or> \<not> mem_ok (outside s))"
proof -
  obtain T where T: "table_at F t T s" "wf_table T" "m = tmap T" by (rule map_atE [OF assms])
  obtain ok T' w where r: "hash_table_set_with_expiry k v x T (outside s) = (ok, T', w)" by (metis prod_cases3)
  from set_simulates [OF T(1,2) r] obtain s' where s': "set_in_table t k v x s = Some (ok, s')" "table_at F t T' s'" by blast
  from set_is_map_update [OF T(2) r] map_atI [OF s'(2)] T(3)
  have "map_at F t (if ok then m(k \<mapsto> (v, x)) else m) s' \<and> (ok \<or> \<not> mem_ok (outside s))" by metis
  with s'(1) show ?thesis by blast
qed

theorem set_updates_map_witness:
  "\<exists>s'. set_in_table 1 ''a'' ''c'' 5 one_binding = Some (True, s') \<and> map_at Map.empty 1 [''a'' \<mapsto> (''c'', 5)] s'"
  using set_updates_map [OF one_binding_map, of "''a''" "''c''" 5] by auto

text \<open>
  C17: \<open>hash_table_delete\<close>, on linked nodes, removes exactly the binding of the key and reports whether there was one; the
  node and its two strings are released, whether it was the head of its chain or not, and nothing else.
\<close>

theorem delete_updates_map:
  assumes "map_at F t m s"
  shows "\<exists>s'. delete_from_table t k s = Some (k \<in> dom m, s') \<and> map_at F t (m(k := None)) s' \<and> outside s' = outside s"
proof -
  obtain T where T: "table_at F t T s" "wf_table T" "m = tmap T" by (rule map_atE [OF assms])
  obtain ok T' where r: "hash_table_delete k T = (ok, T')" by fastforce
  from delete_simulates [OF T(1,2) r] obtain s' where s': "delete_from_table t k s = Some (ok, s')" "table_at F t T' s'"
    "outside s' = outside s" by blast
  from ht.rem_law [OF T(2) r] map_atI [OF s'(2)] T(3) have "map_at F t (m(k := None)) s'" "ok = (k \<in> dom m)" by auto
  with s' show ?thesis by blast
qed

theorem delete_updates_map_witness:
  "\<exists>s'. delete_from_table 1 ''a'' one_binding = Some (True, s') \<and> map_at Map.empty 1 Map.empty s'"
  using delete_updates_map [OF one_binding_map, of "''a''"] by auto

text \<open>What \<^verbatim>\<open>entry_create\<close> leaves.\<close>

lemma entry_create_cases:
  assumes "owns F C s"
  obtains (failed) s' where "entry_create k v (outside s) = (None, outside s')" "entry_create_at k v s = Some (0, s')" "owns F C s'"
    | (made) s' c where "entry_create k v (outside s) = (Some (of_entry c), outside s')" "entry_create_at k v s = Some (node_at c, s')"
      "of_entry c = \<lparr>key = k, val = v, expires_at = 0\<rparr>" "owns F (place_cells c 0 + C) s'"
  using assms
proof (cases rule: new_node_cases [where k = k and v = v])
  case (failed s1 w)
  then have "entry_create k v (outside s) = (None, w)" by (auto simp: entry_create_def Let_def split: prod.splits if_splits)
  with failed show ?thesis by (intro that(1) [of s1]) (simp_all add: entry_create_at_def)
next
  case (made s1 w p kp vp)
  let ?strings = "{#(kp, chars_of k), (vp, chars_of v)#}" and ?n = "node_expiry_update (\<lambda>_. Some 0) (fresh_node kp vp)"
  let ?c = "Place \<lparr>key = k, val = v, expires_at = 0\<rparr> p kp vp"
  from made(5) have "owns F (add_mset (p, Node (fresh_node kp vp)) (?strings + C)) s1" by simp
  from owned_set_node [OF this] obtain s2 where s2: "set_node (node_expiry_update (\<lambda>_. Some 0)) p s1 = Some s2" "outside s2 = outside s1"
    "owns F (add_mset (p, Node ?n) (?strings + C)) s2" by metis
  from owned_set_node [OF s2(3)] obtain s3 where s3: "set_node (next_ptr_update (\<lambda>_. Some 0)) p s2 = Some s3" "outside s3 = outside s2"
    "owns F (add_mset (p, Node (next_ptr_update (\<lambda>_. Some 0) ?n)) (?strings + C)) s3" by metis
  from s3(3) have "owns F (place_cells ?c 0 + C) s3" by (simp add: place_cells_def node_of_def fresh_node_def)
  moreover from made(1) have "entry_create k v (outside s) = (Some (of_entry ?c), w)"
    by (auto simp: entry_create_def Let_def split: prod.splits if_splits)
  ultimately show ?thesis using made s2(1,2) s3(1,2) by (intro that(2) [of ?c s3]) (simp_all add: entry_create_at_def)
qed

text \<open>
  C30: entries are created whole or not at all, and destroyed whole.  \<open>entry_create\<close> returns \<open>NULL\<close> exactly when an allocation
  fails and then leaves nothing behind; otherwise it returns a node with copies of key and value, without expiration and
  successor, of which \<open>entry_destroy\<close> leaves nothing.
\<close>

theorem entry_lifecycle:
  assumes "sane s"
  shows "\<exists>p s' s''. entry_create_at k v s = Some (p, s') \<and> (p \<noteq> 0 \<longleftrightarrow> fst (entry_create k v (outside s)) \<noteq> None)
    \<and> (p \<noteq> 0 \<longrightarrow> get_node key_ptr p s' \<bind> (\<lambda>q. get_string q s') = Some k
        \<and> get_node val_ptr p s' \<bind> (\<lambda>q. get_string q s') = Some v
        \<and> get_node node_expiry p s' = Some 0 \<and> get_node next_ptr p s' = Some 0)
    \<and> entry_destroy p s' = Some s'' \<and> cells s'' = cells s"
proof -
  have o: "owns (cells s) {#} s" using assms by simp
  then show ?thesis
  proof (cases rule: entry_create_cases [where k = k and v = v])
    case (failed s')
    then show ?thesis by (intro exI [of _ 0] exI [of _ s']) (simp add: entry_destroy_def)
  next
    case (made s' c)
    note r = place_reads [OF made(4)]
    obtain s'' where s'': "entry_destroy (node_at c) s' = Some s''" "owns (cells s) {#} s''"
      by (rule entry_destroy_place [OF made(4)])
    with made show ?thesis by (intro exI [of _ "node_at c"] exI [of _ s'] exI [of _ s'']) (simp add: r)
  qed
qed

theorem entry_lifecycle_witness:
  "\<exists>p s' s''. entry_create_at ''a'' ''b'' (no_blocks (calm 0 Map.empty)) = Some (p, s') \<and> p \<noteq> 0
    \<and> entry_destroy p s' = Some s'' \<and> cells s'' = Map.empty"
proof -
  have "sane (no_blocks (calm 0 Map.empty))" by (simp add: sane_def no_blocks_def)
  from entry_lifecycle [OF this, of "''a''" "''b''"] show ?thesis
    by (auto simp: entry_create_def malloc_ok no_blocks_def)
qed

end
