(* ===== verification/HeapProgram.thy ===== *)
theory HeapProgram
  imports HeapTable Persistence
begin

text \<open>
  All code that follows the pointers of a table, together: the functions of \<^verbatim>\<open>src/hash_table.c\<close>, and the two loops of other
  files over its nodes, \<^verbatim>\<open>find_entry\<close> of \<^verbatim>\<open>src/command.c\<close>, whose result the commands read and write through, and
  \<^verbatim>\<open>persistence_rewrite\<close> of \<^verbatim>\<open>src/persistence.c\<close>.

  A \<open>call\<close> is one of the functions of \<^verbatim>\<open>hash_table.h\<close>; the locale \<open>simulation\<close> carries the step from one call to any sequence of calls.
\<close>

subsection \<open>The loops of the other files\<close>

definition find_entry_at :: "ptr \<Rightarrow> cstr \<Rightarrow> memory \<Rightarrow> ptr option" where
  "find_entry_at t k s =
     (if t = 0 then Some 0 else do { (i, h) \<leftarrow> find_bucket t k s; search_chain k h s })"

partial_function (option) rewrite_chain_at :: "ptr \<Rightarrow> string \<Rightarrow> memory \<Rightarrow> (bool \<times> string \<times> memory) option" where
  "rewrite_chain_at p buf s =
     (if p = 0 then Some (True, buf, s)
      else do {
        (expired, s) \<leftarrow> is_expired_at p s;
        if expired then do { q \<leftarrow> get_node next_ptr p s; rewrite_chain_at q buf s }
        else do {
          kp \<leftarrow> get_node key_ptr p s;
          k \<leftarrow> get_string kp s;
          vp \<leftarrow> get_node val_ptr p s;
          v \<leftarrow> get_string vp s;
          x \<leftarrow> get_node node_expiry p s;
          let (ok, buf, w) = fprintf buf (set_record k v x) (outside s); s = s\<lparr>outside := w\<rparr> in
          if \<not> ok then Some (False, buf, s)
          else do { q \<leftarrow> get_node next_ptr p s; rewrite_chain_at q buf s }}})"

partial_function (option) rewrite_buckets_at ::
  "nat \<Rightarrow> ptr \<Rightarrow> string \<Rightarrow> memory \<Rightarrow> (bool \<times> string \<times> memory) option" where
  "rewrite_buckets_at i t buf s =
     do {
       n \<leftarrow> get_header size_field t s;
       if i < n
       then do {
         a \<leftarrow> get_header array_ptr t s;
         p \<leftarrow> get_slot a i s;
         (ok, buf, s) \<leftarrow> rewrite_chain_at p buf s;
         if \<not> ok then Some (False, buf, s) else rewrite_buckets_at (i + 1) t buf s }
       else Some (True, buf, s) }"

definition rewrite_table_at :: "ptr \<Rightarrow> memory \<Rightarrow> (bool \<times> memory) option" where
  "rewrite_table_at t s =
     (let (ok, w) = fopen_write tmp_file (outside s); s = s\<lparr>outside := w\<rparr> in
      if \<not> ok then Some (False, s)
      else do {
        (ok, buf, s) \<leftarrow> rewrite_buckets_at 0 t [] s;
        if \<not> ok then (let (_, w) = fclose tmp_file buf (outside s) in Some (False, s\<lparr>outside := w\<rparr>))
        else
          let (ok, w) = fclose tmp_file buf (outside s); s = s\<lparr>outside := w\<rparr> in
          if \<not> ok then Some (False, s)
          else let (ok, w) = rename tmp_file aof_file (outside s) in Some (ok, s\<lparr>outside := w\<rparr>) })"

lemma rewrite_chain_simulates:
  "owns F (chain_cells cs 0 + C) s \<Longrightarrow> rewrite_chain (map of_entry cs) buf (outside s) = (ok, buf', w) \<Longrightarrow>
   rewrite_chain_at (first cs 0) buf s = Some (ok, buf', s\<lparr>outside := w\<rparr>)"
proof (induction cs arbitrary: buf s C)
  case Nil
  then show ?case by (simp add: rewrite_chain_at.simps)
next
  case (Cons c cs)
  have o: "owns F (place_cells c (first cs 0) + (chain_cells cs 0 + C)) (s\<lparr>outside := w\<rparr>)" for w
    using Cons.prems(1) by (simp add: ac_simps)
  have o': "owns F (chain_cells cs 0 + (place_cells c (first cs 0) + C)) (s\<lparr>outside := w\<rparr>)" for w
    using o by (simp add: ac_simps)
  have o0: "owns F (place_cells c (first cs 0) + (chain_cells cs 0 + C)) s" using o [of "outside s"] by simp
  show ?case
    using Cons.prems(2) Cons.IH [OF o']
    by (auto simp: rewrite_chain_at.simps [of "node_at c"] place_reads [OF o] place_reads(4) [OF o0] is_expired_place [OF o0]
        Let_def split: prod.splits if_splits)
qed

lemma rewrite_buckets_simulates:
  assumes "owns F ({#(t, Header (header_of a n c)), (a, Pointers hs)#} + (all_chains L + C)) s"
    and "length hs = i + length L" "drop i hs = heads L" "n = length hs"
    and "rewrite_buckets (entries_of L) buf (outside s) = (ok, buf', w)"
  shows "rewrite_buckets_at i t buf s = Some (ok, buf', s\<lparr>outside := w\<rparr>)"
  using assms(1-3,5)
proof (induction L arbitrary: i s buf C)
  case Nil
  with table_reads [of F t a n c hs C s] assms(4) show ?case by (simp add: rewrite_buckets_at.simps)
next
  case (Cons cs L)
  let ?table = "{#(t, Header (header_of a n c)), (a, Pointers hs)#}"
  have i: "hs ! i = first cs 0" "drop (Suc i) hs = heads L" "i < length hs"
    using Cons.prems(2,3) by (auto simp: heads_def drop_Suc_eq dest: nth_via_drop)
  note r = table_reads [OF Cons.prems(1)]
  obtain ok1 buf1 w1 where c: "rewrite_chain (map of_entry cs) buf (outside s) = (ok1, buf1, w1)" by (metis prod_cases3)
  have "owns F (chain_cells cs 0 + (?table + all_chains L + C)) s" using Cons.prems(1) by (simp add: ac_simps)
  from rewrite_chain_simulates [OF this c] have s1: "rewrite_chain_at (first cs 0) buf s = Some (ok1, buf1, s\<lparr>outside := w1\<rparr>)" .
  show ?case
  proof (cases ok1)
    case False
    with c Cons.prems(4) s1 i r assms(4) show ?thesis by (simp add: rewrite_buckets_at.simps [of i])
  next
    case True
    have "owns F (?table + (all_chains L + (chain_cells cs 0 + C))) (s\<lparr>outside := w1\<rparr>)"
      using Cons.prems(1) by (simp add: ac_simps)
    from Cons.IH [OF this, of "Suc i" buf1] True c Cons.prems(2,4) s1 i r assms(4) show ?thesis
      by (simp add: rewrite_buckets_at.simps [of i])
  qed
qed

lemma rewrite_simulates:
  assumes "table_at F t T s" "wf_table T" "persistence_rewrite T (outside s) = (ok, w)"
  shows "rewrite_table_at t s = Some (ok, s\<lparr>outside := w\<rparr>)"
proof -
  obtain a L where o: "owns F ({#(t, Header (header_of a (tsize T) (count T))), (a, Pointers (heads L))#} + all_chains L) s"
    and e: "entries_of L = buckets T" and L: "length L = tsize T" by (rule table_atE [OF assms(1,2)])
  obtain ok1 w1 where f: "fopen_write tmp_file (outside s) = (ok1, w1)" by fastforce
  show ?thesis
  proof (cases ok1)
    case False
    with f assms(3) show ?thesis by (simp add: rewrite_table_at_def persistence_rewrite_def)
  next
    case True
    obtain ok2 buf w2 where r: "rewrite_buckets (buckets T) [] w1 = (ok2, buf, w2)" by (metis prod_cases3)
    have "rewrite_buckets_at 0 t [] (s\<lparr>outside := w1\<rparr>) = Some (ok2, buf, (s\<lparr>outside := w1\<rparr>)\<lparr>outside := w2\<rparr>)"
      by (rule rewrite_buckets_simulates [where L = L and C = "{#}"]) (use o r in \<open>simp_all add: L e\<close>)
    with True f r assms(3) show ?thesis
      by (auto simp: rewrite_table_at_def persistence_rewrite_def Let_def split: prod.splits if_splits)
  qed
qed

lemma find_entry_simulates:
  assumes "table_at F t T s" "wf_table T"
  obtains (absent) "find_entry T k = None" "find_entry_at t k s = Some 0"
    | (present) c q C where "find_entry T k = Some (of_entry c)" "find_entry_at t k s = Some (node_at c)" "node_at c \<noteq> 0"
      "owns F (place_cells c q + C) s"
  using assms
proof (cases rule: lookup_cases [where k = k])
  case (absent i h)
  then show ?thesis by (intro that(1)) (simp_all add: find_entry_at_def)
next
  case (present i h c q C)
  then show ?thesis by (intro that(2) [of c q C]) (simp_all add: find_entry_at_def)
qed

subsection \<open>Programs over a table\<close>

text \<open>The calls of \<^verbatim>\<open>hash_table.h\<close> on one table, and what the caller sees of each; the string found by \<open>Get\<close> is read at once.\<close>

datatype call = Set cstr cstr time_t | Get cstr | Delete cstr | Ttl cstr | Resize nat

datatype answer = Done bool | Found "cstr option" | Seconds int

fun call_at :: "ptr \<Rightarrow> call \<Rightarrow> memory \<Rightarrow> (answer \<times> memory) option" where
  "call_at t (Set k v x) s = do { (ok, s) \<leftarrow> set_in_table t k v x s; Some (Done ok, s) }"
| "call_at t (Get k) s =
     do {
       (p, s) \<leftarrow> get_from_table t k s;
       if p = 0 then Some (Found None, s) else do { v \<leftarrow> get_string p s; Some (Found (Some v), s) }}"
| "call_at t (Delete k) s = do { (ok, s) \<leftarrow> delete_from_table t k s; Some (Done ok, s) }"
| "call_at t (Ttl k) s = do { (n, s) \<leftarrow> ttl_in_table t k s; Some (Seconds n, s) }"
| "call_at t (Resize n) s = do { (ok, s) \<leftarrow> resize_table t n s; Some (Done ok, s) }"

fun call_on :: "call \<Rightarrow> hash_table \<times> world \<Rightarrow> answer \<times> hash_table \<times> world" where
  "call_on (Set k v x) (T, w) = (let (ok, T, w) = hash_table_set_with_expiry k v x T w in (Done ok, T, w))"
| "call_on (Get k) (T, w) = (let (r, w) = hash_table_get T k w in (Found r, T, w))"
| "call_on (Delete k) (T, w) = (let (ok, T) = hash_table_delete k T in (Done ok, T, w))"
| "call_on (Ttl k) (T, w) = (let (n, w) = hash_table_ttl T k w in (Seconds n, T, w))"
| "call_on (Resize n) (T, w) = (let (ok, T, w) = hash_table_resize T n w in (Done ok, T, w))"

text \<open>Calls one after the other, on memories and on tables.\<close>

fun run_calls :: "('c \<Rightarrow> 's \<Rightarrow> ('r \<times> 's) option) \<Rightarrow> 'c list \<Rightarrow> 's \<Rightarrow> ('r list \<times> 's) option" where
  "run_calls f [] s = Some ([], s)"
| "run_calls f (c # cs) s = do { (r, s) \<leftarrow> f c s; (rs, s) \<leftarrow> run_calls f cs s; Some (r # rs, s) }"

fun run_spec :: "('c \<Rightarrow> 'a \<Rightarrow> 'r \<times> 'a) \<Rightarrow> 'c list \<Rightarrow> 'a \<Rightarrow> 'r list \<times> 'a" where
  "run_spec g [] a = ([], a)"
| "run_spec g (c # cs) a = (let (r, a) = g c a; (rs, a) = run_spec g cs a in (r # rs, a))"

text \<open>
  A program with undefined behaviour against one without: if every call on a related pair of states is defined, has the
  same answer and leaves a related pair, then so has every sequence of calls.
\<close>

locale simulation =
  fixes rel :: "'s \<Rightarrow> 'a \<Rightarrow> bool"
    and code :: "'c \<Rightarrow> 's \<Rightarrow> ('r \<times> 's) option"
    and spec :: "'c \<Rightarrow> 'a \<Rightarrow> 'r \<times> 'a"
  assumes simulates: "rel s a \<Longrightarrow> spec c a = (r, a') \<Longrightarrow> \<exists>s'. code c s = Some (r, s') \<and> rel s' a'"
begin

lemma run_simulates:
  "rel s a \<Longrightarrow> run_spec spec cs a = (rs, a') \<Longrightarrow> \<exists>s'. run_calls code cs s = Some (rs, s') \<and> rel s' a'"
proof (induction cs arbitrary: s a rs a')
  case (Cons c cs)
  obtain r a1 where c: "spec c a = (r, a1)" by fastforce
  obtain rs1 a2 where cs: "run_spec spec cs a1 = (rs1, a2)" by fastforce
  from simulates [OF Cons.prems(1) c] obtain s1 where s1: "code c s = Some (r, s1)" "rel s1 a1" by blast
  from Cons.IH [OF s1(2) cs] obtain s2 where "run_calls code cs s1 = Some (rs1, s2)" "rel s2 a2" by blast
  with s1 c cs Cons.prems(2) show ?case by auto
qed simp

end

fun represents :: "(ptr \<rightharpoonup> block) \<Rightarrow> ptr \<Rightarrow> memory \<Rightarrow> hash_table \<times> world \<Rightarrow> bool" where
  "represents F t s (T, w) \<longleftrightarrow> table_at F t T s \<and> wf_table T \<and> outside s = w"

lemma get_on_table:
  assumes "table_at F t T s" "wf_table T" "hash_table_get T k (outside s) = (r, w)"
  shows "call_at t (Get k) s = Some (Found r, s\<lparr>outside := w\<rparr>)"
  using get_simulates [OF assms] by (cases r) auto

interpretation heap: simulation "represents F t" "call_at t" call_on for F t
proof
  fix s :: memory and a a' :: "hash_table \<times> world" and c r
  assume rep: "represents F t s a" and c: "call_on c a = (r, a')"
  obtain T w where a: "a = (T, w)" by (cases a)
  with rep have T: "table_at F t T s" "wf_table T" and w: "w = outside s" by auto
  show "\<exists>s'. call_at t c s = Some (r, s') \<and> represents F t s' a'"
  proof (cases c)
    case (Set k v x)
    obtain ok T' w' where r: "hash_table_set_with_expiry k v x T (outside s) = (ok, T', w')" by (metis prod_cases3)
    from set_simulates [OF T r] set_correct [OF T(2) r] show ?thesis using c Set a w r by auto
  next
    case (Get k)
    obtain v w' where r: "hash_table_get T k (outside s) = (v, w')" by fastforce
    from get_on_table [OF T r] show ?thesis using c Get a w r T by auto
  next
    case (Delete k)
    obtain ok T' where r: "hash_table_delete k T = (ok, T')" by fastforce
    from delete_simulates [OF T r] delete_correct [OF T(2) r] show ?thesis using c Delete a w r by auto
  next
    case (Ttl k)
    obtain n w' where r: "hash_table_ttl T k (outside s) = (n, w')" by fastforce
    from ttl_simulates [OF T r] show ?thesis using c Ttl a w r T by auto
  next
    case (Resize n)
    obtain ok T' w' where r: "hash_table_resize T n (outside s) = (ok, T', w')" by (metis prod_cases3)
    from resize_simulates [OF T r] resize_correct [OF T(2) r] show ?thesis using c Resize a w r by auto
  qed
qed

text \<open>A table from its creation to its destruction, as \<^verbatim>\<open>main\<close> uses it; \<open>None\<close> for a creation without memory.\<close>

definition table_program :: "nat \<Rightarrow> call list \<Rightarrow> memory \<Rightarrow> (answer list option \<times> memory) option" where
  "table_program n calls s =
     do {
       (t, s) \<leftarrow> create_table n s;
       if t = 0 then Some (None, s)
       else do {
         (rs, s) \<leftarrow> run_calls (call_at t) calls s;
         s \<leftarrow> hash_table_destroy t s;
         Some (Some rs, s) }}"

definition table_answers :: "nat \<Rightarrow> call list \<Rightarrow> world \<Rightarrow> answer list option \<times> world" where
  "table_answers n calls w =
     (case hash_table_create n w of
        (None, w) \<Rightarrow> (None, w)
      | (Some T, w) \<Rightarrow> let (rs, T, w) = run_spec call_on calls (T, w) in (Some rs, w))"

lemma hash_table_create_wf:
  "0 < n \<Longrightarrow> hash_table_create n w = (Some T, w') \<Longrightarrow> wf_table T"
  by (auto simp: hash_table_create_def wf_table_def entries_def split: prod.splits if_splits)

lemma table_program_correct:
  assumes "owns F {#} s" "0 < n" "table_answers n calls (outside s) = (rs, w)"
  shows "\<exists>s'. table_program n calls s = Some (rs, s') \<and> owns F {#} s' \<and> outside s' = w"
proof -
  obtain r w1 where c: "hash_table_create n (outside s) = (r, w1)" by fastforce
  from create_simulates [OF assms(1) c] obtain t s1 where s1: "create_table n s = Some (t, s1)" "outside s1 = w1"
    "case r of None \<Rightarrow> t = 0 \<and> owns F {#} s1 | Some T \<Rightarrow> t \<noteq> 0 \<and> table_at F t T s1" by blast
  show ?thesis
  proof (cases r)
    case None
    with s1 c assms(3) show ?thesis by (simp add: table_program_def table_answers_def)
  next
    case (Some T)
    with s1 have T: "represents F t s1 (T, w1)" "t \<noteq> 0" using hash_table_create_wf assms(2) c by auto
    obtain rs1 T2 w2 where run: "run_spec call_on calls (T, w1) = (rs1, T2, w2)" by (metis prod_cases3)
    from heap.run_simulates [OF T(1) run] obtain s2 where s2: "run_calls (call_at t) calls s1 = Some (rs1, s2)"
      "represents F t s2 (T2, w2)" by blast
    then have "table_at F t T2 s2" "wf_table T2" by simp_all
    from destroy_table [OF this] obtain s3 where s3: "hash_table_destroy t s2 = Some s3" "sane s3" "cells s3 = F" "outside s3 = outside s2"
      by blast
    from assms(3) c Some run have "rs = Some rs1" "w = w2" by (auto simp: table_answers_def)
    with s1 s2 s3 T(2) show ?thesis by (simp add: table_program_def)
  qed
qed

subsection \<open>Properties\<close>

text \<open>
  C14: nothing is leaked and no access is undefined.  A table that is created, used by any sequence of calls and destroyed
  runs without undefined behaviour and without end-less loops, whatever the allocator does; the caller gets
  exactly the answers of the table of \<open>HashTable\<close>, and afterwards the memory holds the same blocks as before.
\<close>

theorem table_program_refines:
  assumes "sane s" "0 < n" "table_answers n calls (outside s) = (rs, w)"
  shows "\<exists>s'. table_program n calls s = Some (rs, s') \<and> cells s' = cells s \<and> outside s' = w"
  using table_program_correct [of "cells s" s n calls rs w] assms by auto

lemma replicate_small: "replicate 2 x = [x, x]" "replicate 4 x = [x, x, x, x]"
  by (simp_all add: numeral_eq_Suc)

theorem table_program_refines_witness:
  "\<exists>s'. table_program 1 [Set ''a'' ''b'' 0, Set ''c'' ''d'' 0, Get ''a'', Delete ''c'', Get ''c''] (no_blocks (calm 0 Map.empty))
      = Some (Some [Done True, Done True, Found (Some ''b''), Done True, Found None], s') \<and> cells s' = Map.empty"
proof -
  have "sane (no_blocks (calm 0 Map.empty))" by (simp add: sane_def no_blocks_def)
  moreover have "table_answers 1 [Set ''a'' ''b'' 0, Set ''c'' ''d'' 0, Get ''a'', Delete ''c'', Get ''c''] (outside (no_blocks (calm 0 Map.empty)))
    = (Some [Done True, Done True, Found (Some ''b''), Done True, Found None], calm 0 Map.empty)"
    by (simp add: no_blocks_def table_answers_def hash_table_create_def hash_table_set_with_expiry_def hash_table_get_def
        hash_table_delete_def hash_table_resize_def find_entry_def slot_def hash_key_def load_exceeded_def resize_factor_def
        entry_is_expired_def malloc_ok Let_def replicate_small)
  ultimately show ?thesis using table_program_refines by (metis memory.select_convs(1) no_blocks_def zero_less_one)
qed

end
