(* ===== verification/HeapCommand.thy ===== *)
theory HeapCommand
  imports HeapProgram MainProgram
begin

text \<open>
  The command interpreter of \<^verbatim>\<open>src/command.c\<close> on a table in memory: the definitions of \<open>Command\<close> once more, with the pointer that
  \<^verbatim>\<open>find_entry\<close> returns, the reads of \<^verbatim>\<open>entry->value\<close> and \<^verbatim>\<open>entry->expires_at\<close> and the writes through it.
  Where the parser of the line would have no result, the interpreter has none (\<open>parse_line\<close>).

  The result of a command is its status, the response and the memory.
\<close>

type_synonym result = "(int \<times> cstr \<times> memory) option"

definition err_at :: "nat \<Rightarrow> string \<Rightarrow> memory \<Rightarrow> result" where
  "err_at n msg s = Some (-1, snprintf n (line msg), s)"

definition reply_at :: "nat \<Rightarrow> string \<Rightarrow> memory \<Rightarrow> result" where
  "reply_at n msg s = Some (0, snprintf n (line msg), s)"

definition store_set_at :: "nat \<Rightarrow> ptr \<Rightarrow> cstr \<Rightarrow> cstr \<Rightarrow> int option \<Rightarrow> time_t \<Rightarrow> memory \<Rightarrow> result" where
  "store_set_at n t k v expiry x s =
     do {
       (ok, s) \<leftarrow> set_in_table t k v 0 s;
       if \<not> ok then err_at n ''ERR failed to set key'' s
       else if expiry \<noteq> None then do {
         p \<leftarrow> find_entry_at t k s;
         if p = 0 then err_at n ''ERR failed to set expiration'' s
         else do { s \<leftarrow> set_node (node_expiry_update (\<lambda>_. Some x)) p s; reply_at n ''OK'' s }}
       else do {
         p \<leftarrow> find_entry_at t k s;
         if p = 0 then reply_at n ''OK'' s
         else do { s \<leftarrow> set_node (node_expiry_update (\<lambda>_. Some 0)) p s; reply_at n ''OK'' s }}}"

definition cmd_set_at :: "nat \<Rightarrow> cstr list \<Rightarrow> ptr \<Rightarrow> memory \<Rightarrow> result" where
  "cmd_set_at n argv t s =
     (if length argv \<noteq> 3 \<and> length argv \<noteq> 5 then err_at n ''ERR wrong number of arguments'' s
      else if length argv = 5 \<and> map toupper (argv ! 3) \<noteq> ''EX'' then err_at n ''ERR syntax error'' s
      else if length argv = 5 \<and> parse_expiry_seconds (argv ! 4) = None
           then err_at n ''ERR invalid expire time'' s
      else
        let expiry = (if length argv = 5 then parse_expiry_seconds (argv ! 4) else None);
            (x, persisted, w) = persist_set (argv ! 1) (argv ! 2) expiry (outside s);
            s = s\<lparr>outside := w\<rparr>
        in if \<not> persisted then err_at n ''ERR failed to write AOF'' s
           else store_set_at n t (argv ! 1) (argv ! 2) expiry x s)"

definition cmd_get_at :: "nat \<Rightarrow> cstr list \<Rightarrow> ptr \<Rightarrow> memory \<Rightarrow> result" where
  "cmd_get_at n argv t s =
     (if length argv \<noteq> 2 then err_at n ''ERR wrong number of arguments'' s
      else do {
        p \<leftarrow> find_entry_at t (argv ! 1) s;
        if p = 0 then reply_at n ''(nil)'' s
        else do {
          (expired, s) \<leftarrow> is_expired_at p s;
          if expired then reply_at n ''(nil)'' s
          else do { vp \<leftarrow> get_node val_ptr p s; v \<leftarrow> get_string vp s; reply_at n v s }}})"

definition cmd_ttl_at :: "nat \<Rightarrow> cstr list \<Rightarrow> ptr \<Rightarrow> memory \<Rightarrow> result" where
  "cmd_ttl_at n argv t s =
     (if length argv \<noteq> 2 then err_at n ''ERR wrong number of arguments'' s
      else do {
        p \<leftarrow> find_entry_at t (argv ! 1) s;
        if p = 0 then reply_at n ''-2'' s
        else do {
          (expired, s) \<leftarrow> is_expired_at p s;
          if expired then reply_at n ''-2'' s
          else do {
            x \<leftarrow> get_node node_expiry p s;
            if x = 0 then reply_at n ''-1'' s
            else
              let (r, w) = time_now (outside s); s = s\<lparr>outside := w\<rparr>; remaining = sub_time x r in
              if remaining \<le> 0 then reply_at n ''-2'' s else reply_at n (show_int remaining) s }}})"

definition cmd_del_at :: "nat \<Rightarrow> cstr list \<Rightarrow> ptr \<Rightarrow> memory \<Rightarrow> result" where
  "cmd_del_at n argv t s =
     (if length argv \<noteq> 2 then err_at n ''ERR wrong number of arguments'' s
      else do {
        p \<leftarrow> find_entry_at t (argv ! 1) s;
        if p = 0 then reply_at n ''0'' s
        else do {
          (expired, s) \<leftarrow> is_expired_at p s;
          if expired then reply_at n ''0'' s
          else
            let (persisted, w) = persistence_append_del (argv ! 1) (outside s); s = s\<lparr>outside := w\<rparr> in
            if \<not> persisted then err_at n ''ERR failed to write AOF'' s
            else do {
              (ok, s) \<leftarrow> delete_from_table t (argv ! 1) s;
              if \<not> ok then err_at n ''ERR failed to delete key'' s else reply_at n ''1'' s }}})"

definition cmd_ping_at :: "nat \<Rightarrow> cstr list \<Rightarrow> ptr \<Rightarrow> memory \<Rightarrow> result" where
  "cmd_ping_at n argv t s =
     (if length argv \<noteq> 1 then err_at n ''ERR wrong number of arguments'' s else reply_at n ''PONG'' s)"

definition cmd_exit_at :: "nat \<Rightarrow> cstr list \<Rightarrow> ptr \<Rightarrow> memory \<Rightarrow> result" where
  "cmd_exit_at n argv t s =
     (if length argv \<noteq> 1 then err_at n ''ERR wrong number of arguments'' s
      else do {
        (ok, s) \<leftarrow> rewrite_table_at t s;
        if \<not> ok then err_at n ''ERR failed to rewrite AOF'' s else Some (1, snprintf n (line ''BYE''), s) })"

definition dispatch_at :: "cstr \<Rightarrow> nat \<Rightarrow> cstr list \<Rightarrow> ptr \<Rightarrow> memory \<Rightarrow> result" where
  "dispatch_at command n argv t s =
     (if command = ''SET'' then cmd_set_at n argv t s
      else if command = ''GET'' then cmd_get_at n argv t s
      else if command = ''TTL'' then cmd_ttl_at n argv t s
      else if command = ''DEL'' then cmd_del_at n argv t s
      else if command = ''PING'' then cmd_ping_at n argv t s
      else if command = ''EXIT'' then cmd_exit_at n argv t s
      else err_at n ''ERR unknown command'' s)"

definition execute_at :: "ptr \<Rightarrow> cstr \<Rightarrow> nat \<Rightarrow> memory \<Rightarrow> result" where
  "execute_at t input n s =
     do {
       parsed \<leftarrow> parse_line input max_args;
       case parsed of
         None \<Rightarrow> err_at n ''ERR invalid command'' s
       | Some argv \<Rightarrow>
           if argv = [] then Some (0, [], s)
           else dispatch_at (map toupper (hd argv)) n argv t s }"

subsection \<open>Simulation\<close>

text \<open>An outcome in memory that stands for an outcome on tables.\<close>

definition matches :: "(ptr \<rightharpoonup> block) \<Rightarrow> ptr \<Rightarrow> result \<Rightarrow> outcome \<Rightarrow> bool" where
  "matches F t res out \<longleftrightarrow>
     (case out of (st, r, T, w) \<Rightarrow> \<exists>s. res = Some (st, r, s) \<and> table_at F t T s \<and> wf_table T \<and> outside s = w)"

named_theorems match_simps \<open>outcomes that stand for each other\<close>

lemma matches_messages [match_simps]:
  assumes "table_at F t T s" "wf_table T" "outside s = w"
  shows "matches F t (err_at n msg s) (err n msg T w)" "matches F t (reply_at n msg s) (reply n msg T w)"
    "matches F t (Some (i, c, s)) (i, c, T, w)"
  using assms by (auto simp: matches_def err_at_def err_def reply_at_def reply_def)

lemma store_set_simulates:
  assumes "table_at F t T s" "wf_table T"
  shows "matches F t (store_set_at n t k v expiry x s) (store_set n k v expiry x T (outside s))"
proof -
  obtain ok T1 w1 where r: "hash_table_set_with_expiry k v 0 T (outside s) = (ok, T1, w1)" by (metis prod_cases3)
  from set_simulates [OF assms r] obtain s1 where s1: "set_in_table t k v 0 s = Some (ok, s1)" "table_at F t T1 s1" "outside s1 = w1"
    by blast
  have wf: "wf_table T1" using set_correct [OF assms(2) r] by simp
  let ?x = "case expiry of None \<Rightarrow> 0 | Some _ \<Rightarrow> x"
  show ?thesis using s1(2) wf
  proof (cases rule: expiry_simulates [where k = k and x = ?x])
    case (absent i h)
    with s1 r wf show ?thesis
      by (auto simp: store_set_at_def store_set_def hash_table_set_def find_entry_at_def intro!: match_simps)
  next
    case (present i h p s')
    have "wf_table (write_entry k (\<lambda>e. e\<lparr>expires_at := ?x\<rparr>) T1)" using wf by (rule write_entry_wf) simp
    with present s1 r wf show ?thesis
      by (cases expiry) (auto simp: store_set_at_def store_set_def hash_table_set_def find_entry_at_def intro!: match_simps)
  qed
qed

lemma set_command_simulates:
  assumes "table_at F t T s" "wf_table T"
  shows "matches F t (cmd_set_at n argv t s) (cmd_set n argv T (outside s))"
proof -
  let ?expiry = "if length argv = 5 then parse_expiry_seconds (argv ! 4) else None"
  obtain x ok w where p: "persist_set (argv ! 1) (argv ! 2) ?expiry (outside s) = (x, ok, w)" by (metis prod_cases3)
  have T: "table_at F t T (s\<lparr>outside := w\<rparr>)" using assms(1) by simp
  from store_set_simulates [OF T assms(2), of n "argv ! 1" "argv ! 2" ?expiry x] p assms show ?thesis
    by (auto simp: cmd_set_at_def cmd_set_def Let_def intro!: match_simps)
qed

lemma get_command_simulates:
  assumes "table_at F t T s" "wf_table T"
  shows "matches F t (cmd_get_at n argv t s) (cmd_get n argv T (outside s))"
  using assms
proof (cases rule: find_entry_simulates [where k = "argv ! 1"])
  case absent
  with assms show ?thesis by (auto simp: cmd_get_at_def cmd_get_def intro!: match_simps)
next
  case (present c q C)
  then have r: "owns F (place_cells c q + C) (s\<lparr>outside := w\<rparr>)" for w by simp
  from present assms show ?thesis
    by (auto simp: cmd_get_at_def cmd_get_def is_expired_place [OF present(4)] place_reads [OF r]
        split: prod.splits intro!: match_simps)
qed

lemma ttl_command_simulates:
  assumes "table_at F t T s" "wf_table T"
  shows "matches F t (cmd_ttl_at n argv t s) (cmd_ttl n argv T (outside s))"
  using assms
proof (cases rule: find_entry_simulates [where k = "argv ! 1"])
  case absent
  with assms show ?thesis by (auto simp: cmd_ttl_at_def cmd_ttl_def intro!: match_simps)
next
  case (present c q C)
  then have r: "owns F (place_cells c q + C) (s\<lparr>outside := w\<rparr>)" for w by simp
  from present assms show ?thesis
    by (auto simp: cmd_ttl_at_def cmd_ttl_def is_expired_place [OF present(4)] place_reads [OF r] Let_def
        split: prod.splits intro!: match_simps)
qed

lemma del_command_simulates:
  assumes "table_at F t T s" "wf_table T"
  shows "matches F t (cmd_del_at n argv t s) (cmd_del n argv T (outside s))"
  using assms
proof (cases rule: find_entry_simulates [where k = "argv ! 1"])
  case absent
  with assms show ?thesis by (auto simp: cmd_del_at_def cmd_del_def intro!: match_simps)
next
  case (present c q C)
  obtain b w1 where e: "entry_is_expired (Some (of_entry c)) (outside s) = (b, w1)" by fastforce
  obtain ok w2 where p: "persistence_append_del (argv ! 1) w1 = (ok, w2)" by fastforce
  obtain ok' T' where d: "hash_table_delete (argv ! 1) T = (ok', T')" by fastforce
  have "table_at F t T (s\<lparr>outside := w2\<rparr>)" using assms(1) by simp
  from delete_simulates [OF this assms(2) d] obtain s' where s': "delete_from_table t (argv ! 1) (s\<lparr>outside := w2\<rparr>) = Some (ok', s')"
    "table_at F t T' s'" "outside s' = w2" by auto
  have "wf_table T'" using delete_correct [OF assms(2) d] by simp
  with present assms e p d s' show ?thesis
    by (auto simp: cmd_del_at_def cmd_del_def is_expired_place [OF present(4)] Let_def intro!: match_simps)
qed

lemma exit_command_simulates:
  assumes "table_at F t T s" "wf_table T"
  shows "matches F t (cmd_exit_at n argv t s) (cmd_exit n argv T (outside s))"
proof -
  obtain ok w where r: "persistence_rewrite T (outside s) = (ok, w)" by fastforce
  from rewrite_simulates [OF assms r] r assms show ?thesis
    by (auto simp: cmd_exit_at_def cmd_exit_def intro!: match_simps)
qed

lemma execute_simulates:
  assumes "table_at F t T s" "wf_table T"
  shows "matches F t (execute_at t input n s) (command_execute T input n (outside s))"
proof (cases "parse_command input max_args")
  case None
  with assms show ?thesis by (simp add: execute_at_def parse_line_defined command_execute_def match_simps)
next
  case (Some argv)
  note steps = set_command_simulates get_command_simulates ttl_command_simulates del_command_simulates exit_command_simulates
  from Some assms show ?thesis
    by (simp add: execute_at_def parse_line_defined command_execute_def dispatch_at_def dispatch_def cmd_ping_at_def cmd_ping_def match_simps
        steps [OF assms])
qed

end
