(* ===== verification/HeapMain.thy ===== *)
theory HeapMain
  imports HeapCommand TaskQueue
begin

text \<open>
  The loader of \<^verbatim>\<open>src/persistence.c\<close> and the \<^verbatim>\<open>main\<close> function in memory.

  The loader allocates a buffer for every key and value it reads, of \<open>length + 1\<close> bytes in the arithmetic of \<^verbatim>\<open>size_t\<close>, fills it with \<^verbatim>\<open>fread\<close>,
  writes the NUL, and releases it on every path; the table makes copies of its own.  Every result is \<open>None\<close> for the
  \<^verbatim>\<open>return 0\<close> of the code and \<open>Some\<close> with what is left of the file otherwise.
\<close>

subsection \<open>Reading into a buffer\<close>

text \<open>\<^verbatim>\<open>fread(p, 1, n, file)\<close>, and \<open>p[n] = '\0'\<close> when it has read \<open>n\<close> bytes.\<close>

definition fread_string :: "ptr \<Rightarrow> nat \<Rightarrow> string \<Rightarrow> memory \<Rightarrow> (bool \<times> memory) option" where
  "fread_string p n data m =
     (case cells m p of
        Some (Chars room _) \<Rightarrow>
          if room < length (take n data) then None
          else if length (take n data) \<noteq> n then Some (False, m)
          else if room \<le> n then None
          else Some (True, m\<lparr>cells := (cells m)(p \<mapsto> Chars room (Some (c_str (take n data))))\<rparr>)
      | _ \<Rightarrow> None)"

definition load_field_at :: "string \<Rightarrow> memory \<Rightarrow> ((ptr \<times> string) option \<times> memory) option" where
  "load_field_at s m =
     (case scan_zu s of
        None \<Rightarrow> Some (None, m)
      | Some (n, s) \<Rightarrow>
          let (c, s) = fgetc s in
          if c \<noteq> Some (CHR '':'') then Some (None, m)
          else
            let (p, m) = new_block (Chars (string_size n) None) m in
            if p = 0 then Some (None, m)
            else do {
              (ok, m) \<leftarrow> fread_string p n s m;
              if \<not> ok then do { m \<leftarrow> free_block p m; Some (None, m) }
              else Some (Some (p, drop n s), m) })"

definition load_set_at :: "ptr \<Rightarrow> string \<Rightarrow> memory \<Rightarrow> (string option \<times> memory) option" where
  "load_set_at t s m =
     do {
       (field, m) \<leftarrow> load_field_at s m;
       case field of
         None \<Rightarrow> Some (None, m)
       | Some (kp, s) \<Rightarrow> do {
           (field, m) \<leftarrow> load_field_at s m;
           case field of
             None \<Rightarrow> do { m \<leftarrow> free_block kp m; Some (None, m) }
           | Some (vp, s) \<Rightarrow>
               (case load_expiry s of
                  None \<Rightarrow> do { m \<leftarrow> free_block kp m; m \<leftarrow> free_block vp m; Some (None, m) }
                | Some (x, s) \<Rightarrow>
                    let (skip, w) = (if x \<noteq> 0 then let (r, w) = time_now (outside m) in (r \<ge> x, w) else (False, outside m));
                        m = m\<lparr>outside := w\<rparr> in
                    if skip then do { m \<leftarrow> free_block kp m; m \<leftarrow> free_block vp m; Some (Some s, m) }
                    else do {
                      k \<leftarrow> get_string kp m;
                      v \<leftarrow> get_string vp m;
                      (ok, m) \<leftarrow> set_in_table t k v x m;
                      m \<leftarrow> free_block kp m;
                      m \<leftarrow> free_block vp m;
                      Some (if ok then Some s else None, m) }) }}"

definition load_del_at :: "ptr \<Rightarrow> string \<Rightarrow> memory \<Rightarrow> (string option \<times> memory) option" where
  "load_del_at t s m =
     do {
       (field, m) \<leftarrow> load_field_at s m;
       case field of
         None \<Rightarrow> Some (None, m)
       | Some (kp, s) \<Rightarrow> do {
           k \<leftarrow> get_string kp m;
           (found, m) \<leftarrow> delete_from_table t k m;
           m \<leftarrow> free_block kp m;
           let (c, s) = fgetc s in Some (if c \<noteq> Some NL then None else Some s, m) }}"

partial_function (option) load_loop_at :: "ptr \<Rightarrow> string \<Rightarrow> memory \<Rightarrow> (bool \<times> memory) option" where
  "load_loop_at t s m =
     (case scan_str 3 s of
        None \<Rightarrow> Some (True, m)
      | Some (name, r) \<Rightarrow>
          do {
            (rest, m) \<leftarrow> (if c_str name = ''SET'' then load_set_at t r m
                          else if c_str name = ''DEL'' then load_del_at t r m
                          else Some (None, m));
            case rest of None \<Rightarrow> Some (False, m) | Some r \<Rightarrow> load_loop_at t r m })"

definition persistence_load_at :: "ptr \<Rightarrow> memory \<Rightarrow> (bool \<times> memory) option" where
  "persistence_load_at t m =
     (let (file, w) = fopen_read aof_file (outside m); m = m\<lparr>outside := w\<rparr> in
      case file of None \<Rightarrow> Some (True, m) | Some s \<Rightarrow> load_loop_at t s m)"

text \<open>
  The \<^verbatim>\<open>main\<close> function; the run of the server is the list of the command lines it executes, with the results of their
  execution.  \<open>None\<close> inside is the exit before the server starts.
\<close>

fun command_at :: "ptr \<Rightarrow> cstr \<Rightarrow> memory \<Rightarrow> ((int \<times> cstr) \<times> memory) option" where
  "command_at t input m = do { (st, r, m) \<leftarrow> execute_at t input max_command_size m; Some ((st, r), m) }"

definition main_at :: "cstr list \<Rightarrow> memory \<Rightarrow> ((int \<times> cstr) list option \<times> memory) option" where
  "main_at inputs m =
     do {
       (t, m) \<leftarrow> create_table initial_size m;
       if t = 0 then Some (None, m)
       else do {
         (ok, m) \<leftarrow> persistence_load_at t m;
         if \<not> ok then do { m \<leftarrow> hash_table_destroy t m; Some (None, m) }
         else do {
           (outs, m) \<leftarrow> run_calls (command_at t) inputs m;
           m \<leftarrow> hash_table_destroy t m;
           Some (Some outs, m) }}}"

subsection \<open>Simulation\<close>

text \<open>A block beside the table, and its release.\<close>

lemma table_beside:
  assumes "owns F (add_mset (p, b) ({#(t, Header (header_of a (tsize T) (count T))), (a, Pointers (heads L))#} + all_chains L)) m"
    and "entries_of L = buckets T"
  shows "F p = None" "table_at (F(p \<mapsto> b)) t T m"
  using owns_frame [THEN iffD1, OF assms(1)] assms(2) unfolding table_at_def by blast+

lemma table_free:
  assumes "table_at (F(p \<mapsto> b)) t T m" "F p = None"
  obtains m' where "free_block p m = Some m'" "table_at F t T m'" "outside m' = outside m"
proof -
  from assms(1) obtain a L
    where "owns (F(p \<mapsto> b)) ({#(t, Header (header_of a (tsize T) (count T))), (a, Pointers (heads L))#} + all_chains L) m"
    and e: "entries_of L = buckets T" unfolding table_at_def by blast
  with assms(2) have o: "owns F (add_mset (p, b) ({#(t, Header (header_of a (tsize T) (count T))), (a, Pointers (heads L))#} + all_chains L)) m"
    by (intro owns_frame [THEN iffD2]) blast
  from owned_free [OF o] that e show ?thesis unfolding table_at_def by metis
qed

lemma table_beside_string:
  assumes "table_at (F(p \<mapsto> Chars l (Some c))) t T m"
  shows "get_string p m = Some c"
proof -
  from assms obtain C where "holds (F(p \<mapsto> Chars l (Some c))) C (cells m)" by (auto simp: table_at_def owns_def)
  then have "blocks_at p C + optional (Some (Chars l (Some c))) = optional (cells m p)"
    unfolding holds_def by (metis fun_upd_same)
  then have "cells m p = Some (Chars l (Some c))" by (cases "cells m p") auto
  then show ?thesis by (simp add: reads)
qed

lemma owned_fread:
  assumes "owns F (add_mset (p, Chars (string_size n) x) C) m" "n < 2 ^ 64" "\<not> (n + 1 = 2 ^ 64 \<and> s \<noteq> [])"
  shows "if length (take n s) = n
    then \<exists>m'. fread_string p n s m = Some (True, m') \<and> outside m' = outside m
      \<and> owns F (add_mset (p, Chars (string_size n) (Some (c_str (take n s)))) C) m'
    else fread_string p n s m = Some (False, m)"
proof (cases "n + 1 = 2 ^ 64")
  case True
  with assms(3) have "s = []" "n \<noteq> 0" by auto
  with True owns_here [OF assms(1)] show ?thesis by (simp add: fread_string_def)
next
  case False
  with assms(2) have size: "string_size n = n + 1" by (simp add: string_size_mod)
  with owns_here [OF assms(1)] owns_put [OF assms(1), of "Chars (n + 1) (Some (c_str (take n s)))"] show ?thesis
    by (simp add: fread_string_def size)
qed

text \<open>One field: a new buffer with the string, or nothing new.\<close>

lemma read_field_simulates:
  assumes "table_at F t T m" and z: "scan_zu s = Some (n, r)" and c: "fgetc r = (c, r1)"
    and colon: "c = Some (CHR '':'')" and m1: "malloc (outside m) = (True, w)"
  shows "case load_field s (outside m) of
      Scan_ok k r w \<Rightarrow> \<exists>p l m'. load_field_at s m = Some (Some (p, r), m') \<and> F p = None
        \<and> table_at (F(p \<mapsto> Chars l (Some k))) t T m' \<and> outside m' = w
    | Scan_fail w \<Rightarrow> \<exists>m'. load_field_at s m = Some (None, m') \<and> table_at F t T m' \<and> outside m' = w
    | Scan_overflow \<Rightarrow> load_field_at s m = None"
proof -
  have n: "n < 2 ^ 64" using scan_zu_range z by simp
  from assms(1) obtain a L where o: "owns F ({#(t, Header (header_of a (tsize T) (count T))), (a, Pointers (heads L))#} + all_chains L) m"
    and e: "entries_of L = buckets T" unfolding table_at_def by blast
  obtain p m1 where m: "new_block (Chars (string_size n) None) m = (p, m1)" "p \<noteq> 0" "outside m1 = w"
    "owns F (add_mset (p, Chars (string_size n) None)
      ({#(t, Header (header_of a (tsize T) (count T))), (a, Pointers (heads L))#} + all_chains L)) m1"
    by (rule owned_new [OF o m1, of "Chars (string_size n) None"]) blast
  show ?thesis
  proof (cases "n + 1 = 2 ^ 64 \<and> r1 \<noteq> []")
    case True
    then have "string_size n = 0" "length (take n r1) \<noteq> 0" by (auto simp: string_size_mod)
    then have "fread_string p n r1 m1 = None" using owns_here [OF m(4)] by (simp add: fread_string_def)
    with True z c colon m1 m(1,2) show ?thesis by (simp add: load_field_eq load_field_at_def)
  next
    case fits: False
    note f = owned_fread [OF m(4) n fits]
    show ?thesis
    proof (cases "length (take n r1) = n")
      case True
      with f obtain m2 where m2: "fread_string p n r1 m1 = Some (True, m2)" "outside m2 = w"
        "owns F (add_mset (p, Chars (string_size n) (Some (c_str (take n r1))))
          ({#(t, Header (header_of a (tsize T) (count T))), (a, Pointers (heads L))#} + all_chains L)) m2"
        using m(3) by auto
      from table_beside [OF m2(3) e] m2(1,2) z c colon m1 m(1,2) fits True show ?thesis
        by (auto simp: load_field_eq load_field_at_def)
    next
      case False
      with f have "fread_string p n r1 m1 = Some (False, m1)" by simp
      moreover note b = table_beside [OF m(4) e]
      obtain m2 where "free_block p m1 = Some m2" "table_at F t T m2" "outside m2 = w"
        using table_free [OF b(2,1)] m(3) by metis
      ultimately show ?thesis using z c colon m1 m(1,2) fits False
        by (auto simp: load_field_eq load_field_at_def)
    qed
  qed
qed

lemma load_field_simulates:
  assumes "table_at F t T m"
  shows "case load_field s (outside m) of
      Scan_ok k r w \<Rightarrow> \<exists>p l m'. load_field_at s m = Some (Some (p, r), m') \<and> F p = None
        \<and> table_at (F(p \<mapsto> Chars l (Some k))) t T m' \<and> outside m' = w
    | Scan_fail w \<Rightarrow> \<exists>m'. load_field_at s m = Some (None, m') \<and> table_at F t T m' \<and> outside m' = w
    | Scan_overflow \<Rightarrow> load_field_at s m = None"
proof (cases "scan_zu s")
  case None
  with assms show ?thesis by (simp add: load_field_eq load_field_at_def)
next
  case (Some nr)
  obtain n r where z: "scan_zu s = Some (n, r)" using Some by (cases nr) auto
  obtain c r1 where c: "fgetc r = (c, r1)" by fastforce
  show ?thesis
  proof (cases "c = Some (CHR '':'')")
    case False
    with z c assms show ?thesis by (simp add: load_field_eq load_field_at_def)
  next
    case colon: True
    show ?thesis
    proof (cases "outside m" rule: malloc_cases)
      case (2 w)
      with z c colon assms show ?thesis by (simp add: load_field_eq load_field_at_def no_new)
    next
      case m1: (1 w)
      from read_field_simulates [OF assms z c colon m1] show ?thesis .
    qed
  qed
qed

text \<open>Two buffers beside the table are released in the order of the code.\<close>

lemma two_freed:
  assumes "table_at (F(p \<mapsto> b, q \<mapsto> c)) t T m" "F p = None" "(F(p \<mapsto> b)) q = None"
  obtains m1 m2 where "free_block p m = Some m1" "free_block q m1 = Some m2" "table_at F t T m2" "outside m2 = outside m"
proof -
  have pq: "p \<noteq> q" "F q = None" using assms(3) by (auto split: if_splits)
  then have "table_at ((F(q \<mapsto> c))(p \<mapsto> b)) t T m" "(F(q \<mapsto> c)) p = None"
    using assms(1,2) by (simp_all add: fun_upd_twist)
  from table_free [OF this] obtain m1 where m1: "free_block p m = Some m1" "table_at (F(q \<mapsto> c)) t T m1" "outside m1 = outside m" .
  from table_free [OF m1(2) pq(2)] m1 that show ?thesis by metis
qed

text \<open>Both strings of a record have been read: the table is filled from them and they are freed.\<close>

lemma load_strings_simulates:
  assumes "load_field s (outside m) = Scan_ok k r w" "load_field r w = Scan_ok v r1 w1"
    and m1: "load_field_at s m = Some (Some (p, r), m1)" "F p = None" "outside m1 = w"
    and m2: "load_field_at r m1 = Some (Some (q, r1), m2)" "(F(p \<mapsto> Chars l (Some k))) q = None"
      "table_at (F(p \<mapsto> Chars l (Some k), q \<mapsto> Chars l' (Some v))) t T m2" "outside m2 = w1"
    and wf: "wf_table T"
  shows "case load_set s T (outside m) of
      Load_next r T' w \<Rightarrow> \<exists>m'. load_set_at t s m = Some (Some r, m') \<and> table_at F t T' m' \<and> wf_table T' \<and> outside m' = w
    | Load_fail T' w \<Rightarrow> \<exists>m'. load_set_at t s m = Some (None, m') \<and> table_at F t T' m' \<and> wf_table T' \<and> outside m' = w
    | Load_overflow \<Rightarrow> load_set_at t s m = None"
proof -
  have q: "p \<noteq> q" using m2(2) by (auto split: if_splits)
  show ?thesis
  proof (cases "load_expiry r1")
    case None
    from two_freed [OF m2(3) m1(2) m2(2)] obtain m3 m4 where "free_block p m2 = Some m3" "free_block q m3 = Some m4"
      "table_at F t T m4" "outside m4 = outside m2" .
    with assms(1,2) None m1 m2 wf show ?thesis by (simp add: load_set_def load_set_at_def)
  next
    case (Some xr)
    obtain x r2 where x: "load_expiry r1 = Some (x, r2)" using Some by (cases xr) auto
    obtain skip w2 where k: "(if x \<noteq> 0 then let (n, w) = time_now w1 in (n \<ge> x, w) else (False, w1)) = (skip, w2)"
      by fastforce
    note k' = k [folded m2(4)]
    let ?m = "m2\<lparr>outside := w2\<rparr>"
    have T: "table_at (F(p \<mapsto> Chars l (Some k), q \<mapsto> Chars l' (Some v))) t T ?m" using m2(3) by simp
    show ?thesis
    proof (cases skip)
      case True
      from two_freed [OF T m1(2) m2(2)] obtain m3 m4 where "free_block p ?m = Some m3" "free_block q m3 = Some m4"
        "table_at F t T m4" "outside m4 = outside ?m" .
      with assms(1,2) x k k' True m1 m2 wf show ?thesis
        by (simp add: load_set_def load_set_at_def split del: if_split)
    next
      case False
      have "table_at (F(q \<mapsto> Chars l' (Some v), p \<mapsto> Chars l (Some k))) t T ?m"
        using T q by (simp add: fun_upd_twist)
      note strings = table_beside_string [OF this] table_beside_string [OF T]
      obtain ok T' w3 where r: "hash_table_set_with_expiry k v x T w2 = (ok, T', w3)" by (metis prod_cases3)
      then have "hash_table_set_with_expiry k v x T (outside ?m) = (ok, T', w3)" by simp
      from set_simulates [OF T wf this] obtain m3 where m3: "set_in_table t k v x ?m = Some (ok, m3)"
        "table_at (F(p \<mapsto> Chars l (Some k), q \<mapsto> Chars l' (Some v))) t T' m3" "outside m3 = w3" by blast
      from two_freed [OF m3(2) m1(2) m2(2)] obtain m4 m5 where f: "free_block p m3 = Some m4" "free_block q m4 = Some m5"
        "table_at F t T' m5" "outside m5 = outside m3" .
      have "wf_table T'" using set_correct [OF wf r] by simp
      with assms(1,2) x k k' False r m1 m2 m3 f strings show ?thesis
        by (cases ok; simp add: load_set_def load_set_at_def split del: if_split)
    qed
  qed
qed

lemma load_set_simulates:
  assumes "table_at F t T m" "wf_table T"
  shows "case load_set s T (outside m) of
      Load_next r T' w \<Rightarrow> \<exists>m'. load_set_at t s m = Some (Some r, m') \<and> table_at F t T' m' \<and> wf_table T' \<and> outside m' = w
    | Load_fail T' w \<Rightarrow> \<exists>m'. load_set_at t s m = Some (None, m') \<and> table_at F t T' m' \<and> wf_table T' \<and> outside m' = w
    | Load_overflow \<Rightarrow> load_set_at t s m = None"
proof (cases "load_field s (outside m)")
  case (Scan_fail w)
  with load_field_simulates [OF assms(1), of s] assms(2) show ?thesis by (auto simp: load_set_def load_set_at_def)
next
  case key: (Scan_ok k r w)
  with load_field_simulates [OF assms(1), of s] obtain p l m1 where m1: "load_field_at s m = Some (Some (p, r), m1)" "F p = None"
    "table_at (F(p \<mapsto> Chars l (Some k))) t T m1" "outside m1 = w" by auto
  show ?thesis
  proof (cases "load_field r w")
    case (Scan_fail w1)
    with load_field_simulates [OF m1(3), of r] m1(4) obtain m2 where m2: "load_field_at r m1 = Some (None, m2)"
      "table_at (F(p \<mapsto> Chars l (Some k))) t T m2" "outside m2 = w1" by auto
    from table_free [OF m2(2) m1(2)] obtain m3 where "free_block p m2 = Some m3" "table_at F t T m3" "outside m3 = outside m2" .
    with key Scan_fail m1 m2 assms(2) show ?thesis by (simp add: load_set_def load_set_at_def)
  next
    case val: (Scan_ok v r1 w1)
    with load_field_simulates [OF m1(3), of r] m1(4) obtain q l' m2 where m2: "load_field_at r m1 = Some (Some (q, r1), m2)"
      "(F(p \<mapsto> Chars l (Some k))) q = None" "table_at (F(p \<mapsto> Chars l (Some k), q \<mapsto> Chars l' (Some v))) t T m2" "outside m2 = w1"
      by auto
    from load_strings_simulates [OF key val m1(1,2,4) m2 assms(2)] show ?thesis .
  next
    case Scan_overflow
    with load_field_simulates [OF m1(3), of r] m1(1,4) key show ?thesis by (simp add: load_set_def load_set_at_def)
  qed
next
  case Scan_overflow
  with load_field_simulates [OF assms(1), of s] show ?thesis by (simp add: load_set_def load_set_at_def)
qed

lemma load_del_simulates:
  assumes "table_at F t T m" "wf_table T"
  shows "case load_del s T (outside m) of
      Load_next r T' w \<Rightarrow> \<exists>m'. load_del_at t s m = Some (Some r, m') \<and> table_at F t T' m' \<and> wf_table T' \<and> outside m' = w
    | Load_fail T' w \<Rightarrow> \<exists>m'. load_del_at t s m = Some (None, m') \<and> table_at F t T' m' \<and> wf_table T' \<and> outside m' = w
    | Load_overflow \<Rightarrow> load_del_at t s m = None"
proof (cases "load_field s (outside m)")
  case (Scan_fail w)
  with load_field_simulates [OF assms(1), of s] assms(2) show ?thesis by (auto simp: load_del_def load_del_at_def)
next
  case key: (Scan_ok k r w)
  with load_field_simulates [OF assms(1), of s] obtain p l m1 where m1: "load_field_at s m = Some (Some (p, r), m1)" "F p = None"
    "table_at (F(p \<mapsto> Chars l (Some k))) t T m1" "outside m1 = w" by auto
  obtain ok T' where d: "hash_table_delete k T = (ok, T')" by fastforce
  from delete_simulates [OF m1(3) assms(2) d] obtain m2 where m2: "delete_from_table t k m1 = Some (ok, m2)"
    "table_at (F(p \<mapsto> Chars l (Some k))) t T' m2" "outside m2 = w" using m1(4) by auto
  from table_free [OF m2(2) m1(2)] obtain m3 where m3: "free_block p m2 = Some m3" "table_at F t T' m3" "outside m3 = outside m2" .
  obtain c r1 where "fgetc r = (c, r1)" by fastforce
  moreover have "wf_table T'" using delete_correct [OF assms(2) d] by simp
  ultimately show ?thesis
    using key d m1 m2 m3 table_beside_string [OF m1(3)] by (simp add: load_del_def load_del_at_def)
next
  case Scan_overflow
  with load_field_simulates [OF assms(1), of s] show ?thesis by (simp add: load_del_def load_del_at_def)
qed

lemma load_loop_simulates:
  "table_at F t T m \<Longrightarrow> wf_table T \<Longrightarrow> load_loop s T (outside m) = Some (ok, T', w) \<Longrightarrow>
   \<exists>m'. load_loop_at t s m = Some (ok, m') \<and> table_at F t T' m' \<and> wf_table T' \<and> outside m' = w"
proof (induction s arbitrary: T m rule: measure_induct_rule [where f = length])
  case (less s)
  show ?case
  proof (cases "scan_str 3 s")
    case None
    with less.prems show ?thesis by (auto simp: load_loop.simps [of s] load_loop_at.simps)
  next
    case (Some nr)
    obtain name r where n: "scan_str 3 s = Some (name, r)" using Some by (cases nr) auto
    note set = load_set_simulates [OF less.prems(1,2), of r] and del = load_del_simulates [OF less.prems(1,2), of r]
    have r: "length r < length s" using scan_str_shorter [OF n] .
    consider "c_str name = ''SET''" | "c_str name \<noteq> ''SET''" "c_str name = ''DEL''"
      | "c_str name \<noteq> ''SET''" "c_str name \<noteq> ''DEL''" by blast
    then show ?thesis
    proof cases
      case 1
      show ?thesis
      proof (cases "load_set r T (outside m)")
        case (Load_next r1 T1 w1)
        with set obtain m1 where m1: "load_set_at t r m = Some (Some r1, m1)" "table_at F t T1 m1" "wf_table T1" "outside m1 = w1"
          by auto
        have "length r1 < length s" using load_set_le [OF Load_next] r by simp
        moreover have "load_loop r1 T1 (outside m1) = Some (ok, T', w)"
          using less.prems(3) n 1 Load_next m1(4) by (simp add: load_loop.simps [of s])
        ultimately show ?thesis using less.IH [OF _ m1(2,3)] n 1 m1(1) by (simp add: load_loop_at.simps [of _ s])
      qed (use less.prems(3) n 1 set in \<open>auto simp: load_loop.simps [of s] load_loop_at.simps [of _ s]\<close>)
    next
      case 2
      show ?thesis
      proof (cases "load_del r T (outside m)")
        case (Load_next r1 T1 w1)
        with del obtain m1 where m1: "load_del_at t r m = Some (Some r1, m1)" "table_at F t T1 m1" "wf_table T1" "outside m1 = w1"
          by auto
        have "length r1 < length s" using load_del_le [OF Load_next] r by simp
        moreover have "load_loop r1 T1 (outside m1) = Some (ok, T', w)"
          using less.prems(3) n 2 Load_next m1(4) by (simp add: load_loop.simps [of s])
        ultimately show ?thesis using less.IH [OF _ m1(2,3)] n 2 m1(1) by (simp add: load_loop_at.simps [of _ s])
      qed (use less.prems(3) n 2 del in \<open>auto simp: load_loop.simps [of s] load_loop_at.simps [of _ s]\<close>)
    next
      case 3
      with less.prems n show ?thesis by (auto simp: load_loop.simps [of s] load_loop_at.simps [of _ s])
    qed
  qed
qed

lemma load_loop_overflows:
  "table_at F t T m \<Longrightarrow> wf_table T \<Longrightarrow> load_loop s T (outside m) = None \<Longrightarrow> load_loop_at t s m = None"
proof (induction s arbitrary: T m rule: measure_induct_rule [where f = length])
  case (less s)
  obtain name r where n: "scan_str 3 s = Some (name, r)"
    using less.prems(3) by (auto simp: load_loop.simps [of s] split: option.splits)
  have r: "length r < length s" using scan_str_shorter [OF n] .
  have later: "load_loop_at t r1 m1 = None"
    if "length r1 \<le> length r" "table_at F t T1 m1" "wf_table T1" "load_loop r1 T1 (outside m1) = None" for r1 T1 m1
    using less.IH [OF _ that(2-4)] that(1) r by simp
  note unfold = load_loop.simps [of s] load_loop_at.simps [of _ s]
  consider "c_str name = ''SET''" | "c_str name \<noteq> ''SET''" "c_str name = ''DEL''"
    using less.prems(3) n by (auto simp: load_loop.simps [of s] split: if_splits)
  then show ?case
  proof cases
    case 1
    with load_set_simulates [OF less.prems(1,2), of r] less.prems(3) n later load_set_le [of r T "outside m"] show ?thesis
      by (cases "load_set r T (outside m)") (auto simp: unfold)
  next
    case 2
    with load_del_simulates [OF less.prems(1,2), of r] less.prems(3) n later load_del_le [of r T "outside m"] show ?thesis
      by (cases "load_del r T (outside m)") (auto simp: unfold)
  qed
qed

lemma load_overflows:
  assumes "table_at F t T m" "wf_table T" "persistence_load T (outside m) = None"
  shows "persistence_load_at t m = None"
proof -
  obtain contents w1 where f: "fopen_read aof_file (outside m) = (contents, w1)" by fastforce
  have "table_at F t T (m\<lparr>outside := w1\<rparr>)" using assms(1) by simp
  from load_loop_overflows [OF this assms(2)] f assms(3) show ?thesis
    by (auto simp: persistence_load_at_def persistence_load_def split: option.splits)
qed

lemma load_simulates:
  assumes "table_at F t T m" "wf_table T" "persistence_load T (outside m) = Some (ok, T', w)"
  shows "\<exists>m'. persistence_load_at t m = Some (ok, m') \<and> table_at F t T' m' \<and> wf_table T' \<and> outside m' = w"
proof -
  obtain contents w1 where f: "fopen_read aof_file (outside m) = (contents, w1)" by fastforce
  have "table_at F t T (m\<lparr>outside := w1\<rparr>)" using assms(1) by simp
  from load_loop_simulates [OF this assms(2)] f assms show ?thesis
    by (auto simp: persistence_load_at_def persistence_load_def split: option.splits)
qed

subsection \<open>The program\<close>

fun command_on :: "cstr \<Rightarrow> hash_table \<times> world \<Rightarrow> (int \<times> cstr) \<times> hash_table \<times> world" where
  "command_on input (T, w) =
     (case command_execute T input max_command_size w of (st, r, T, w) \<Rightarrow> ((st, r), T, w))"

interpretation lines: simulation "represents F t" "command_at t" command_on for F t
proof
  fix s :: memory and a a' :: "hash_table \<times> world" and c r
  assume rep: "represents F t s a" and c: "command_on c a = (r, a')"
  obtain T w where a: "a = (T, w)" by (cases a)
  obtain st r1 T' w' where e: "command_execute T c max_command_size w = (st, r1, T', w')" by (metis prod_cases4)
  from rep a have "table_at F t T s" "wf_table T" "w = outside s" by auto
  with execute_simulates [of F t T s c max_command_size] e c a
  show "\<exists>s'. command_at t c s = Some (r, s') \<and> represents F t s' a'" by (auto simp: matches_def)
qed

lemma main_in_memory:
  assumes "owns F {#} m" "start_up (outside m) = Some (table, w)"
  shows "\<exists>m'. main_at inputs m = Some (case table of None \<Rightarrow> None | Some T \<Rightarrow> Some (fst (run_spec command_on inputs (T, w))), m')
    \<and> cells m' = F"
proof -
  obtain r w1 where c: "hash_table_create initial_size (outside m) = (r, w1)" by fastforce
  from create_simulates [OF assms(1) c] obtain t m1 where m1: "create_table initial_size m = Some (t, m1)" "outside m1 = w1"
    "case r of None \<Rightarrow> t = 0 \<and> owns F {#} m1 | Some T \<Rightarrow> t \<noteq> 0 \<and> table_at F t T m1" by blast
  show ?thesis
  proof (cases r)
    case None
    with c assms(2) m1 show ?thesis by (auto simp: main_at_def start_up_def)
  next
    case (Some T)
    with m1 c have T: "table_at F t T m1" "wf_table T" "t \<noteq> 0"
      using hash_table_create_wf [of initial_size "outside m" T w1] by (auto simp: initial_size_def)
    obtain ok T1 w2 where l: "persistence_load T w1 = Some (ok, T1, w2)"
      using assms(2) c Some by (auto simp: start_up_def split: option.splits)
    from load_simulates [OF T(1,2)] l m1(2) obtain m2 where m2: "persistence_load_at t m1 = Some (ok, m2)" "table_at F t T1 m2"
      "wf_table T1" "outside m2 = w2" by blast
    show ?thesis
    proof (cases ok)
      case False
      from destroy_table [OF m2(2,3)] obtain m3 where "hash_table_destroy t m2 = Some m3" "cells m3 = F" by blast
      with m1(1) m2(1) T(3) False l c Some assms(2) show ?thesis by (auto simp: main_at_def start_up_def)
    next
      case True
      then have tb: "table = Some T1" "w = w2" using l c Some assms(2) by (auto simp: start_up_def)
      obtain outs T2 w3 where run: "run_spec command_on inputs (T1, w2) = (outs, T2, w3)" by (metis prod_cases3)
      have "represents F t m2 (T1, w2)" using m2 by simp
      from lines.run_simulates [OF this run] obtain m3 where m3: "run_calls (command_at t) inputs m2 = Some (outs, m3)"
        "table_at F t T2 m3" "wf_table T2" by auto
      from destroy_table [OF m3(2,3)] obtain m4 where "hash_table_destroy t m3 = Some m4" "cells m4 = F" by blast
      with m1(1) m2(1) m3(1) T(3) True tb run show ?thesis by (simp add: main_at_def)
    qed
  qed
qed

text \<open>
  C6: the whole program is free of memory errors and leaks.  Whatever the allocator, the clock and the file system do and whatever
  command lines are executed: \<open>main\<close>, with the loader, the commands and the table on dynamic memory, follows no invalid
  pointer, reads nothing uninitialised, writes outside no buffer, releases nothing twice and ends every loop, unless the
  length \<open>2^64 - 1\<close> in the file makes the loader overflow; its answers are those of the table of lists, and when it returns,
  also after a file that is rejected, all its blocks are released.
\<close>

theorem main_runs_in_memory:
  assumes "sane m" "start_up (outside m) = Some (table, w)"
  shows "\<exists>m'. main_at inputs m = Some (case table of None \<Rightarrow> None | Some T \<Rightarrow> Some (fst (run_spec command_on inputs (T, w))), m')
    \<and> cells m' = cells m"
  using main_in_memory [of "cells m" m table w inputs] assms by simp

theorem main_runs_in_memory_witness:
  "\<exists>m'. main_at [quote_args [''GET'', ''a'']] (no_blocks (calm 5 [aof_file \<mapsto> set_record ''a'' ''b'' 0]))
      = Some (Some [(0, ''b'' @ [NL])], m') \<and> cells m' = Map.empty"
proof -
  let ?w = "calm 5 [aof_file \<mapsto> set_record ''a'' ''b'' 0]"
  have "healthy ?w" by (simp add: healthy_def)
  moreover have f: "\<forall>op \<in> set [Op_set ''a'' ''b'' 0]. good_op op" "aof_text ?w = concat (map render [Op_set ''a'' ''b'' 0])"
    by (simp_all add: c_field_def aof_text_def)
  ultimately obtain T w where s: "start_up ?w = Some (Some T, w)" "agrees (now w) (log_map 5 [Op_set ''a'' ''b'' 0]) (tmap T)"
    using start_up_durable [OF _ f] by auto
  then have "tmap T ''a'' = Some (''b'', 0)" by (auto simp: agrees_def log_map_def live_at_iff)
  then obtain e where e: "find_entry T ''a'' = Some e" "val e = ''b''" "expires_at e = 0"
    by (auto simp: tmap_def content_def)
  have "fst (run_spec command_on [quote_args [''GET'', ''a'']] (T, w)) = [(0, ''b'' @ [NL])]"
    using e by (simp add: command_execute_def quoted_arguments_roundtrip max_args_def dispatch_def cmd_get_def
        entry_is_expired_def reply_def line_def max_command_size_def snprintf_def)
  moreover have "sane (no_blocks ?w)" "outside (no_blocks ?w) = ?w" "cells (no_blocks ?w) = Map.empty"
    by (simp_all add: sane_def no_blocks_def)
  ultimately show ?thesis
    using main_runs_in_memory [of "no_blocks ?w" "Some T" w "[quote_args [''GET'', ''a'']]"] s(1) by simp
qed

text \<open>What the loader on lists makes of a length that exceeds what is left of the file.\<close>

lemma load_long_field:
  assumes "mem_ok w" "wf_table T" "\<forall>op \<in> set ops. good_op op" "rest \<noteq> []" "length rest < n" "n < 2 ^ 64"
  shows "case load_loop (concat (map render ops) @ ''SET '' @ show_nat n @ CHR '':'' # rest) T w of
    None \<Rightarrow> n = 2 ^ 64 - 1 | Some (ok, T', w') \<Rightarrow> n \<noteq> 2 ^ 64 - 1 \<and> \<not> ok"
proof -
  obtain T1 w1 where f: "fold replay_op ops (T, w) = (T1, w1)" by fastforce
  have z: "scan_zu (show_nat n @ CHR '':'' # rest) = Some (n, CHR '':'' # rest)"
    by (rule scan_zu_show_nat) (use assms(6) in auto)
  note l = load_loop_log [OF assms(1-3) f]
  have "load_field (show_nat n @ CHR '':'' # rest) w1 = (if n = 2 ^ 64 - 1 then Scan_overflow else Scan_fail w1)"
    using z assms(4,5) l by (auto simp: load_field_eq malloc_ok)
  then have "load_loop (''SET '' @ show_nat n @ CHR '':'' # rest) T1 w1
      = (if n = 2 ^ 64 - 1 then None else Some (False, T1, w1))"
    unfolding load_loop_set by (simp add: load_set_def)
  with l show ?thesis by (simp split: if_splits)
qed

lemma main_overflows:
  assumes "owns F {#} m" "start_up (outside m) = None"
  shows "main_at inputs m = None"
proof -
  obtain r w1 where c: "hash_table_create initial_size (outside m) = (r, w1)" by fastforce
  from create_simulates [OF assms(1) c] obtain t m1 where m1: "create_table initial_size m = Some (t, m1)" "outside m1 = w1"
    "case r of None \<Rightarrow> t = 0 \<and> owns F {#} m1 | Some T \<Rightarrow> t \<noteq> 0 \<and> table_at F t T m1" by blast
  obtain T where T: "r = Some T" "persistence_load T w1 = None"
    using assms(2) c by (auto simp: start_up_def split: option.splits if_splits)
  then have "table_at F t T m1" "wf_table T" "t \<noteq> 0"
    using m1(3) c hash_table_create_wf [of initial_size "outside m" T w1] by (auto simp: initial_size_def)
  with load_overflows [of F t T m1] T(2) m1(1,2) show ?thesis by (simp add: main_at_def)
qed

text \<open>
  C40: the length \<open>2^64 - 1\<close> of a record overflows the buffer of the loader.  A file, after any complete records, has a SET with
  a key length that exceeds what follows in the file.  For any such length but one \<open>main\<close> finds the damage, releases all its blocks and
  exits; for \<open>2^64 - 1\<close>, \<^verbatim>\<open>malloc(length + 1)\<close> returns a block without a byte, and the \<^verbatim>\<open>fread\<close> into this block has no
  defined result.
\<close>

theorem load_length_overflow:
  assumes "sane m" "mem_ok (outside m)" "io_ok (outside m)" "\<forall>op \<in> set ops. good_op op"
    and "rest \<noteq> []" "length rest < n" "n < 2 ^ 64"
    and "files (outside m) aof_file = Some (concat (map render ops) @ ''SET '' @ show_nat n @ CHR '':'' # rest)"
  shows "if n = 2 ^ 64 - 1 then main_at inputs m = None
    else \<exists>m'. main_at inputs m = Some (None, m') \<and> cells m' = cells m"
proof -
  obtain T where T: "hash_table_create initial_size (outside m) = (Some T, outside m)" "wf_table T"
    using create_empty [OF assms(2)] by blast
  have "persistence_load T (outside m)
      = load_loop (concat (map render ops) @ ''SET '' @ show_nat n @ CHR '':'' # rest) T (outside m)"
    using assms(3,8) by (simp add: persistence_load_def fopen_read_ok)
  note long = load_long_field [OF assms(2) T(2) assms(4-7), folded this]
  have up: "case start_up (outside m) of None \<Rightarrow> n = 2 ^ 64 - 1 | Some (table, w) \<Rightarrow> n \<noteq> 2 ^ 64 - 1 \<and> table = None"
    using long T(1) by (auto simp: start_up_def split: option.splits)
  show ?thesis
  proof (cases "start_up (outside m)")
    case None
    then show ?thesis using up main_overflows [of "cells m" m] assms(1) by simp
  next
    case (Some r)
    then obtain w where "start_up (outside m) = Some (None, w)" "n \<noteq> 2 ^ 64 - 1" using up by (cases r) auto
    then show ?thesis using main_in_memory [of "cells m" m None w inputs] assms(1) by auto
  qed
qed

theorem load_length_overflow_witness:
  "main_at [''PING''] (no_blocks (calm 0 [aof_file \<mapsto> set_record ''a'' ''b'' 0 @ ''SET '' @ show_nat (2 ^ 64 - 1) @ '':k''])) = None
   \<and> (\<exists>m'. main_at [''PING''] (no_blocks (calm 0 [aof_file \<mapsto> set_record ''a'' ''b'' 0 @ ''SET '' @ show_nat 2 @ '':k'']))
         = Some (None, m') \<and> cells m' = Map.empty)"
proof -
  let ?m = "\<lambda>n. no_blocks (calm 0 [aof_file \<mapsto> set_record ''a'' ''b'' 0 @ ''SET '' @ show_nat n @ '':k''])"
  have m: "sane (?m n)" "mem_ok (outside (?m n))" "io_ok (outside (?m n))" "cells (?m n) = Map.empty"
    "files (outside (?m n)) aof_file = Some (concat (map render [Op_set ''a'' ''b'' 0]) @ ''SET '' @ show_nat n @ CHR '':'' # ''k'')" for n
    by (simp_all add: sane_def no_blocks_def)
  have op: "\<forall>op \<in> set [Op_set ''a'' ''b'' 0]. good_op op" by (simp add: c_field_def)
  note overflow = load_length_overflow [OF m(1-3) op _ _ _ m(5), of _ "[''PING'']"]
  show ?thesis using overflow [of "2 ^ 64 - 1"] overflow [of 2] m(4) by simp
qed

end
