(* ===== verification/Spec2Isabelle.thy ===== *)
theory Spec2Isabelle
  imports System HeapMain
begin

text \<open>
  A verification development for InMemDB, an in-memory key-value server in C with an append-only file.

  \<^bold>\<open>The program.\<close>  \<^verbatim>\<open>src/main.c\<close> creates a hash table, replays the append-only file \<^verbatim>\<open>data.aof\<close> into it
  (\<^verbatim>\<open>src/persistence.c\<close>) and starts the server.  The server thread (\<^verbatim>\<open>src/server.c\<close>) runs a \<^verbatim>\<open>select\<close> loop over
  the listening socket, sixteen clients and a notification pipe; it cuts the received bytes into lines and submits each
  as a task to the queue of the worker pool (\<^verbatim>\<open>src/worker_pool.c\<close>).  Four worker threads take tasks, take the
  database lock for reading (GET, TTL) or writing (everything else), call \<^verbatim>\<open>command_execute\<close>
  (\<^verbatim>\<open>src/command.c\<close>), which appends to the file before it changes the table (\<^verbatim>\<open>src/hash_table.c\<close>,
  \<^verbatim>\<open>src/entry.c\<close>), and send the response.  EXIT rewrites the file and asks the server through the pipe to close
  the client.

  \<^bold>\<open>The theories\<close>, in the order in which they build on each other.

  \<^item> \<open>Prelude\<close>: types, collections of rules, lemmas on strings and lists, the locale \<open>kept\<close> of invariants of step relations.
  \<^item> \<open>CLib\<close>: the C library on byte lists (\<open>isspace\<close>, \<open>strtoll\<close>, the \<open>scanf\<close> directives, \<open>snprintf\<close>).
  \<^item> \<open>World\<close>: the environment: outcomes of \<^verbatim>\<open>malloc\<close>, the clock, the outcomes of stdio calls, the files.
  \<^item> \<open>Entry\<close>: the struct \<open>Entry\<close> and its expiration (\<^verbatim>\<open>src/entry.c\<close>); \<open>deadline\<close> is its abstract view.
  \<^item> \<open>HashTable\<close>: the table, its operations, the invariant \<open>wf_table\<close> and the map \<open>tmap\<close> it stands for
    (\<^verbatim>\<open>src/hash_table.c\<close>); locale \<open>kv_store\<close>, interpreted as \<open>ht\<close>.
  \<^item> \<open>Memory\<close>: dynamic memory as blocks at addresses, with checked accesses, and the ownership of blocks.
  \<^item> \<open>HeapTable\<close>: entries and table once more (\<^verbatim>\<open>src/entry.c\<close>, \<^verbatim>\<open>src/hash_table.c\<close>), with their nodes, strings,
    arrays, allocations and releases in that memory, each function simulated by the one of \<open>HashTable\<close>.
  \<^item> \<open>Persistence\<close>: appending, loading and rewriting the file (\<^verbatim>\<open>src/persistence.c\<close>); locales \<open>log_file\<close> and
    \<open>torn_log_file\<close>, interpreted as \<open>aof\<close>.
  \<^item> \<open>CommandParse\<close>: the argument parser on the byte array of the line, against a pure tokenizer.
  \<^item> \<open>Command\<close>: one definition per command, \<open>command_execute\<close> and the local loop (\<^verbatim>\<open>src/command.c\<close>), against
    the reference \<open>spec_execute\<close> on the map.
  \<^item> \<open>Durability\<close>: the invariant \<open>durable\<close> between the table and the file, and that every command keeps it.
  \<^item> \<open>MainProgram\<close>: the start of \<^verbatim>\<open>main\<close>, restarts and crashes.
  \<^item> \<open>HeapProgram\<close>: the other loops over the nodes (\<^verbatim>\<open>find_entry\<close>, \<^verbatim>\<open>persistence_rewrite\<close>), and sequences of calls on a table
    in memory; locale \<open>simulation\<close>, interpreted as \<open>heap\<close>.
  \<^item> \<open>HeapCommand\<close>, \<open>HeapMain\<close>: the command interpreter, the loader with its buffers and \<^verbatim>\<open>main\<close> in memory; \<open>simulation\<close>
    interpreted as \<open>lines\<close> on \<open>Command\<close>.
  \<^item> \<open>TaskQueue\<close>: the linked queue of tasks with its pointers in a store; locale \<open>fifo\<close>, interpreted as \<open>tq\<close>.
  \<^item> \<open>WorkerPool\<close>: \<open>worker_main\<close>, submission and shutdown as a step relation over the state of all four workers, the
    mutex, the condition variable and the read/write lock; the invariants on locks, on the ownership of tasks and on
    sleeping workers.
  \<^item> \<open>WorkerHistory\<close>: what happened so far: every task once and in order, every reply and notification, and the
    sequential execution that has the same outcome.
  \<^item> \<open>WorkerCorrect\<close>: the theorems about the pool; locale \<open>draining\<close> (an extension of \<open>kept\<close>), interpreted on the shutdown.
  \<^item> \<open>PoolLifecycle\<close>: \<open>worker_pool_init\<close> with its failure paths and \<open>worker_pool_destroy\<close>.
  \<^item> \<open>Framing\<close>: the receive buffer of a client, \<open>send_all\<close>, and the loop that cuts lines, against \<open>split_lines\<close>.
  \<^item> \<open>Server\<close>: client slots, one round of the \<^verbatim>\<open>select\<close> loop, the loop and \<open>server_start\<close>.
  \<^item> \<open>System\<close>: server thread and workers together, and the status of \<^verbatim>\<open>main\<close>.

  \<^bold>\<open>How state and code correspond.\<close>  A table is the list of its chains with \<open>size\<close> and \<open>count\<close>; the \<open>next\<close> field of an entry is
  the structure of the list.  The \<open>Heap\<close> theories have the pointers: there a table is what a struct in memory reaches, and every function
  is proved to do on it what its counterpart does on lists, so that the theories on the threads, the server and the file work with lists.  A task is a cell of a store with a \<open>next\<close> pointer, and following a pointer
  to a cell that is not there is undefined.  Receive buffers and command lines are byte arrays, and an access
  outside is undefined (\<open>store_bytes\<close> and \<open>load_bytes\<close> in \<open>Framing\<close>, \<open>fetch\<close> and \<open>put\<close> in \<open>CommandParse\<close>); sizes of buffers are computed in \<^verbatim>\<open>size_t\<close>.  Calls whose outcome the environment decides consume it from streams (\<open>world\<close>, \<open>net\<close>)
  or find it in the input of a round.  A command in the pool is not atomic: it begins on the table it finds and
  writes the table back in a later step, so that the lock is what makes the sequential execution true.  Its effects on the
  file and on the clock are taken to happen where it begins.

  \<^bold>\<open>What is shown.\<close>  The table implements a finite map, and its pointer structure the table, without undefined behaviour, leaks
  or endless loops, whatever the allocator does; the loader, the interpreter and \<^verbatim>\<open>main\<close> on that
  structure have the answers of the ones on lists and release everything; the parser a tokenizer; the interpreter a function of time, line and
  map.  The file and the table stay in agreement, so that a kill between write commands, whatever the threads were doing,
  costs no visible binding, when no call has failed, and is exact for keys that never had an expiration, and a crash inside a command at most that command.  The pool is sequentially
  consistent, takes every task once and in order, never gets stuck, never follows a bad pointer, and every shutdown
  ends with all accepted commands executed.  The lines a client sends are cut as one text, whatever the segments.
  Descriptors, slots, tasks and resources are accounted for on every path.  Some properties state where the code falls
  short: an unreadable file that is erased, expired records that uncover older ones, refused commands that return, commands of one client that overtake each
  other, overflows and NUL bytes in the receive buffer, a stale notification that closes another client, a length that
  wraps in the loader.

  \<^bold>\<open>Bounds and termination.\<close>  There is no fuel.  Loops over lists and receive buffers are functions with a measure; the loops that
  need not end (\<open>send_all\<close>, the loops of the parser, which only the NUL of the line stops, the walks along pointers in
  \<open>worker_pool_destroy\<close> and in \<open>HeapTable\<close>) are partial functions with a theorem that they end.  \<open>work_left\<close> bounds
  the steps of a shutdown.  Constants are those of the code: 4 workers, 16 clients, buffers of 1024 bytes.

  \<^bold>\<open>Assumptions on the environment.\<close>  The scheduler is arbitrary and need not be fair; \<^verbatim>\<open>pthread_cond_wait\<close> may wake up spuriously.
  A write of a descriptor to the notification pipe succeeds and is atomic; \<^verbatim>\<open>accept\<close> returns a descriptor that is not open; \<^verbatim>\<open>recv\<close>
  returns at most what was asked for.  Where a theorem needs \<^verbatim>\<open>send\<close> to make progress, it says \<open>fair\<close>.

  \<^bold>\<open>Not modelled.\<close>  Console output, the contents of socket addresses, signals other than as \<^verbatim>\<open>EINTR\<close>, and read errors in the middle of a file are
  left out.  A worker's write of a descriptor to the notification pipe is taken to succeed: \<open>worker_pool_destroy\<close> closes the pipe only
  after the workers have ended, and the code itself only prints a message when the write fails.  The result of a worker's \<^verbatim>\<open>send\<close> is ignored by the code, and so it is here: \<open>sent\<close> records the calls.
\<close>

section \<open>Properties that span components\<close>

subsection \<open>Durability\<close>

text \<open>The example state: one key in memory and in the file.\<close>

lemma durable_one:
  assumes "c_field k" "c_field v"
  shows "durable [Op_set k v 0] (one_table k v 0) (calm n [aof_file \<mapsto> set_record k v 0])"
  using assms by (auto simp: durable_def good_map_def aof_text_def agrees_def log_map_def live_at_iff split: if_splits)

lemma healthy_calm [simp]: "healthy (calm n fs)"
  by (simp add: healthy_def)

text \<open>
  C4: log before memory.  In an environment where nothing fails, every command keeps the invariant
  \<open>durable\<close>: the append-only file is a list of well-formed records, and every binding of the table that
  has not expired is the binding a replay of the file at this moment would make.  For keys that no record and not the
  command give an expiration, the file stays \<open>exact\<close>: the replay, at any time, binds them as the table does or not at all.
\<close>

theorem execute_keeps_durable:
  assumes "durable ops t w" "healthy w" "c_field input" "command_execute t input n w = (st, r, t', w')"
    and "exact K ops t" "\<forall>k \<in> K. \<not> gives_expiry k input"
  shows "healthy w' \<and> now w \<le> now w' \<and> (\<exists>ops'. durable ops' t' w' \<and> exact K ops' t')"
  using execute_durable [OF assms(1,2,5,3,6,4)] by (simp add: keeps_durable_def)

theorem execute_keeps_durable_witness:
  "\<exists>st r t' w' ops'. command_execute (one_table ''a'' ''b'' 0) (quote_args [''DEL'', ''a'']) 1024
      (calm 5 [aof_file \<mapsto> set_record ''a'' ''b'' 0]) = (st, r, t', w') \<and> durable ops' t' w' \<and> exact {''a''} ops' t'"
proof -
  obtain st r t' w' where c: "command_execute (one_table ''a'' ''b'' 0) (quote_args [''DEL'', ''a'']) 1024
      (calm 5 [aof_file \<mapsto> set_record ''a'' ''b'' 0]) = (st, r, t', w')" by (metis prod_cases4)
  have "c_field ''a''" "c_field ''b''" "c_field (quote_args [''DEL'', ''a''])"
    by (simp_all add: c_field_def quote_args_def)
  moreover have "exact {''a''} [Op_set ''a'' ''b'' 0] (one_table ''a'' ''b'' 0)" by (simp add: exact_def permanent_def log_map_def)
  moreover have "\<not> gives_expiry ''a'' (quote_args [''DEL'', ''a''])" by (simp add: gives_expiry_def quoted_arguments_roundtrip max_args_def)
  ultimately show ?thesis using execute_keeps_durable [OF durable_one _ _ c, of "{''a''}"] c by auto
qed

text \<open>
  A list of commands executed one after the other, a stop at any time, without EXIT, and a later start on the file that is left.
\<close>

lemma restart_recovers:
  assumes "healthy w0" "\<forall>op \<in> set ops. good_op op" "aof_text w0 = concat (map render ops)"
    and "start_up w0 = Some (Some t0, w)" "\<forall>i \<in> set inputs. c_field i" "session n inputs t0 w = (t, w')"
    and "healthy w1" "aof_text w1 = aof_text w'" "now w' \<le> now w1"
  shows "\<exists>t2 w2. start_up w1 = Some (Some t2, w2)
    \<and> (\<forall>k v. visible (now w2) (tmap t) k = Some v \<longrightarrow> visible (now w2) (tmap t2) k = Some v)
    \<and> (\<forall>k. permanent k ops \<and> (\<forall>i \<in> set inputs. \<not> gives_expiry k i) \<longrightarrow> tmap t2 k = tmap t k)"
proof -
  let ?K = "{k. permanent k ops \<and> (\<forall>i \<in> set inputs. \<not> gives_expiry k i)}"
  from start_up_durable [OF assms(1-3)] assms(4)
  have "durable ops t0 w" "healthy w" "exact {k. permanent k ops} ops t0" by auto
  moreover from this(3) have "exact ?K ops t0" by (simp add: exact_def)
  ultimately have "keeps_durable ?K w t w'" using session_durable [OF _ _ _ _ assms(6), of ops ?K] assms(5) by blast
  then obtain ops' where d: "durable ops' t w'" "exact ?K ops' t" by (auto simp: keeps_durable_def)
  from restart_agrees [OF d assms(7-9)] show ?thesis using agrees_visible by blast
qed

lemma c_field_a_b [simp]: "c_field ''a''" "c_field ''b''" "c_field (quote_args [''SET'', ''a'', ''b''])"
  by (simp_all add: c_field_def quote_args_def)

subsection \<open>The concurrent program\<close>

lemma serial_session:
  "serial cs t w = (outs, t', w') \<Longrightarrow> session max_command_size (map snd cs) t w = (t', w')"
proof (induction cs arbitrary: outs t' w' rule: rev_induct)
  case (snoc c cs)
  obtain outs1 t1 w1 where s: "serial cs t w = (outs1, t1, w1)" by (metis prod_cases3)
  with snoc.IH [OF s] snoc.prems show ?case by (cases c) (auto simp: session_snoc split: prod.splits)
qed (simp add: serial_def)

lemma executed_lines:
  assumes "system_inv t0 w0 y"
  shows "\<forall>i \<in> set (map snd (commands (executed (pool_state y)))). c_field i"
proof -
  have r: "reachable t0 w0 (pool_state y)" "accepted (pool_state y) = queued_lines (history y)" "good_lines (history y)"
    using assms by (simp_all add: system_inv_def)
  obtain as D where "pool_inv t0 w0 as D (pool_state y)" using reachable_inv [OF r(1)] by blast
  note P = pool_invD [OF this]
  have "set (commands (executed (pool_state y))) \<subseteq> set (taken (pool_state y))"
    using P(4) unfolding inv_count_def by (metis mset_subset_eq_add_left set_mset_mono set_mset_mset)
  moreover have "set (taken (pool_state y)) \<subseteq> set (accepted (pool_state y))" using P(5) by (auto simp: inv_order_def)
  ultimately have sub: "set (commands (executed (pool_state y))) \<subseteq> set (lines_of (history y))"
    using queued_lines_subset [of "history y"] r(2) by auto
  show ?thesis
  proof
    fix c
    assume "c \<in> set (map snd (commands (executed (pool_state y))))"
    then obtain fd where "(fd, c) \<in> set (lines_of (history y))" using sub by auto
    then have "no_nul c" "length c < 1024" using r(3) by (auto simp: good_lines_def buffer_size_def)
    then show "c_field c" by (simp add: c_field_def)
  qed
qed

text \<open>
  C1: the running program loses no acknowledged write, as long as no call of the allocator or of stdio fails (\<open>healthy\<close>; what
  failures do is the subject of the crash and of the refused SET below).  Start it on any file of records and let the server thread
  and the four workers run in any
  interleaving, on any bytes from any clients.  Kill it at any moment at which no write command is being executed, and
  start it again later on the file it left: the start succeeds, and every key that is visible in the old
  table is visible with the same value in the new one.  A key that neither the first file nor an executed command
  gives an expiration is bound exactly as before, so that no deleted or overwritten value of it comes back.
\<close>

theorem restart_recovers_program:
  assumes "healthy w" "\<forall>op \<in> set ops. good_op op" "aof_text w = concat (map render ops)"
    and "start_up w = Some (Some t0, w0)" "fair net" "\<forall>i. length (g i) = 1024"
    and "system_run (start_system g net t0 w0) y"
    and "\<forall>i < worker_count. db_lock (work (pool_state y) i) \<noteq> Some True"
    and "healthy w1" "aof_text w1 = aof_text (env (pool_state y))" "now (env (pool_state y)) \<le> now w1"
  shows "\<exists>t2 w2. start_up w1 = Some (Some t2, w2)
    \<and> (\<forall>k v. visible (now w2) (tmap (db (pool_state y))) k = Some v \<longrightarrow> visible (now w2) (tmap t2) k = Some v)
    \<and> (\<forall>k. permanent k ops \<and> (\<forall>c \<in> set (commands (executed (pool_state y))). \<not> gives_expiry k (snd c)) \<longrightarrow>
          tmap t2 k = tmap (db (pool_state y)) k)"
proof -
  let ?s = "pool_state y"
  have I: "system_inv t0 w0 y"
    using system_run_inv [OF assms(7) start_system_inv [OF assms(5)]] assms(6) by (simp add: buffer_size_def)
  then have "reachable t0 w0 ?s" by (simp add: system_inv_def)
  then obtain as D where "pool_inv t0 w0 as D ?s" using reachable_inv by blast
  then have ser: "inv_serial t0 w0 D ?s" by (rule pool_invD)
  have "\<not> (\<exists>i < worker_count. \<exists>a st r t. work ?s i = Running True a st r t)" using assms(8) by fastforce
  with ser have "serial (commands (executed ?s)) t0 w0 = (executed ?s, db ?s, env ?s)"
    unfolding inv_serial_def by blast
  from restart_recovers [OF assms(1-4) executed_lines [OF I] serial_session [OF this] assms(9-11)] show ?thesis by simp
qed

text \<open>The example: a client connects and sends a SET, a worker executes it, and the program is killed and started again.\<close>

lemma set_c_d:
  assumes "wf_table t" "mem_ok w" "io_ok w"
  obtains r t' w' where "command_execute t (quote_args [''SET'', ''c'', ''d'']) 1024 w = (0, r, t', w')"
    "tmap t' = (tmap t)(''c'' \<mapsto> (''d'', 0))"
proof -
  obtain st r t' w' where c: "cmd_set 1024 [''SET'', ''c'', ''d''] t w = (st, r, t', w')" by (metis prod_cases4)
  have "command_execute t (quote_args [''SET'', ''c'', ''d'']) 1024 w = cmd_set 1024 [''SET'', ''c'', ''d''] t w"
    by (simp add: command_execute_def quoted_arguments_roundtrip max_args_def dispatch_def)
  moreover have "st = 0 \<and> tmap t' = (tmap t)(''c'' \<mapsto> (''d'', 0))"
    using cmd_set_healthy [OF assms(1) _ c assms(2,3), of "''c''" "''d''" None] by (simp add: expiry_time_def)
  ultimately show thesis using that c by simp
qed

theorem restart_recovers_program_witness:
  "\<exists>t0 w0 y r t2 w2. start_up (calm 5 [aof_file \<mapsto> set_record ''a'' ''b'' 0]) = Some (Some t0, w0)
    \<and> system_run (start_system (\<lambda>i. replicate 1024 NUL) calm_net t0 w0) y
    \<and> history y = [Opened 7, Queued 7 (quote_args [''SET'', ''c'', ''d''])]
    \<and> executed (pool_state y) = [(7, quote_args [''SET'', ''c'', ''d''], 0, r)]
    \<and> start_up (calm (now (env (pool_state y))) (files (env (pool_state y)))) = Some (Some t2, w2)
    \<and> visible (now w2) (tmap t2) ''a'' = Some ''b'' \<and> visible (now w2) (tmap t2) ''c'' = Some ''d''"
proof -
  let ?w = "calm 5 [aof_file \<mapsto> set_record ''a'' ''b'' 0]" and ?g = "\<lambda>i::nat. replicate 1024 NUL"
  let ?cmd = "quote_args [''SET'', ''c'', ''d'']"
  have f: "\<forall>op \<in> set [Op_set ''a'' ''b'' 0]. good_op op" "aof_text ?w = concat (map render [Op_set ''a'' ''b'' 0])"
    by (simp_all add: c_field_def aof_text_def)
  from start_up_durable [OF _ f] obtain t0 w0 where
    s: "start_up ?w = Some (Some t0, w0)" "durable [Op_set ''a'' ''b'' 0] t0 w0" "healthy w0"
      "agrees (now w0) (log_map 5 [Op_set ''a'' ''b'' 0]) (tmap t0)" by auto
  have t0: "wf_table t0" "mem_ok w0" "io_ok w0" using s(2,3) by (simp_all add: durable_def healthy_def)
  obtain r t' w' where c: "command_execute t0 ?cmd 1024 w0 = (0, r, t', w')" "tmap t' = (tmap t0)(''c'' \<mapsto> (''d'', 0))"
    by (rule set_c_d [OF t0])
  have cmd: "no_nul ?cmd" "NL \<notin> set ?cmd" "?cmd \<noteq> []" "last ?cmd \<noteq> CR" "length ?cmd < 1000"
    by (simp_all add: quote_args_def)
  have writes: "\<not> is_read_command ?cmd" by code_simp
  obtain y where y: "system_run (start_system ?g calm_net t0 w0) y" "history y = [Opened 7, Queued 7 ?cmd]"
    "executed (pool_state y) = [(7, ?cmd, 0, r)]" "db (pool_state y) = t'" "env (pool_state y) = w'"
    "work (pool_state y) = (\<lambda>i. Idle)" by (rule write_run [OF _ cmd writes c(1), of ?g]) (simp add: buffer_size_def)
  let ?w1 = "calm (now w') (files w')"
  have w1: "healthy ?w1" "aof_text ?w1 = aof_text (env (pool_state y))" "now (env (pool_state y)) \<le> now ?w1"
    by (simp_all add: aof_text_def y(5))
  have idle: "\<forall>i < worker_count. db_lock (work (pool_state y) i) \<noteq> Some True" by (simp add: y(6))
  from restart_recovers_program [OF healthy_calm f s(1) calm_net_fair _ y(1) idle w1] obtain t2 w2 where
    r: "start_up ?w1 = Some (Some t2, w2)"
      "\<forall>k v. visible (now w2) (tmap t') k = Some v \<longrightarrow> visible (now w2) (tmap t2) k = Some v" by (auto simp: y(4))
  have "tmap t0 ''a'' = Some (''b'', 0)" using s(4) by (auto simp: agrees_def log_map_def live_at_iff)
  then have "visible (now w2) (tmap t') ''a'' = Some ''b''" "visible (now w2) (tmap t') ''c'' = Some ''d''"
    using c(2) by (simp_all add: visible_iff live_at_iff)
  with r s(1) y(1-3,5) show ?thesis by blast
qed

text \<open>
  C13: a crash in the middle of a command costs at most that command.  Whatever the allocator and the file
  system do during one command on a durable state, and whenever the server is started again, without failures, on the file
  that is left: either it brings back every visible key but, possibly, the one the command names; or the start is refused, and
  then the command has left a torn record of that key, a proper prefix, at the end of the file.
\<close>

theorem crash_costs_one_command:
  assumes "durable ops t w" "clock_ok w" "c_field input" "command_execute t input n w = (st, r, t', w')"
    and "healthy w1" "aof_text w1 = aof_text w'" "now w \<le> now w1" "now w' \<le> now w1"
  shows "(\<exists>t2 w2. start_up w1 = Some (Some t2, w2)
      \<and> (\<forall>k v. k \<notin> touched input \<and> visible (now w2) (tmap t) k = Some v \<longrightarrow> visible (now w2) (tmap t2) k = Some v))
    \<or> (\<exists>op p w2. op_key op \<in> touched input \<and> p \<noteq> [] \<and> strict_prefix p (render op) \<and> aof_text w' = aof_text w @ p
        \<and> start_up w1 = Some (None, w2))"
  using crash_recovers [OF assms] unfolding recovers_def by blast

text \<open>
  The examples: one SET for which memory runs out after the append, so that its record stays in the file and the table is as it
  was, and the same SET with a write that breaks off after four bytes.
\<close>

definition no_memory :: "world \<Rightarrow> world" where
  "no_memory w = w\<lparr>mallocs := sconst False\<rparr>"

definition breaks_off :: "world \<Rightarrow> world" where
  "breaks_off w = w\<lparr>io := SCons Io_ok (SCons Io_ok (SCons (Io_err 4) (sconst Io_ok)))\<rparr>"

lemma set_without_memory:
  assumes "wf_table t" "io_ok w" "mallocs w = sconst False" "cmd_set n [c, k, v] t w = (st, r, t', w')"
  shows "st = -1" and "tmap t' = tmap t" and "aof_text w' = aof_text w @ set_record k v 0" and "clock w' = clock w"
proof -
  have refused: "fst (hash_table_set k v t u) = False" if "mallocs u = sconst False" for u
    using that by (simp add: hash_table_set_def hash_table_set_with_expiry_def malloc_def case_prod_beta split: option.split)
  obtain u where app: "append_record (set_record k v 0) w = (True, u)" and u: "mallocs u = sconst False"
    using append_record_ok [OF assms(2)] assms(3) by simp
  show st: "st = -1"
    using assms(4) refused [OF u] app
    by (auto simp: cmd_set_request [of "[c, k, v]"] persist_set_record expiry_time_def tick_def store_set_def
        split: prod.splits)
  show "tmap t' = tmap t" "aof_text w' = aof_text w @ set_record k v 0" "clock w' = clock w"
    using assms(2) st by (cases rule: cmd_set_cases [OF assms(1) _ assms(4), of k v None]; simp add: expiry_time_def tick_def)+
qed

lemma set_breaks_off:
  assumes "io_ok w" "cmd_set n [c, k, v] t (breaks_off w) = (st, r, t', w')"
  shows "st = -1" and "aof_text w' = aof_text w @ ''SET ''" and "clock w' = clock w"
  using assms by (auto simp: cmd_set_def persist_set_def persistence_append_set_def persistence_append_set_expiry_def
      fopen_append_def fprintf_def fclose_def io_step_def breaks_off_def set_record_def err_def aof_text_def Let_def
      split: option.splits)

theorem crash_costs_one_command_witness:
  "(\<exists>st r t' w' t2 w2. command_execute (one_table ''a'' ''b'' 0) (quote_args [''SET'', ''c'', ''d'']) 1024
        (no_memory (calm 5 [aof_file \<mapsto> set_record ''a'' ''b'' 0])) = (st, r, t', w') \<and> st = -1
      \<and> aof_text w' = set_record ''a'' ''b'' 0 @ set_record ''c'' ''d'' 0
      \<and> start_up (calm 9 (files w')) = Some (Some t2, w2) \<and> visible (now w2) (tmap t2) ''a'' = Some ''b'')
   \<and> (\<exists>st r t' w' op p w2. command_execute (one_table ''a'' ''b'' 0) (quote_args [''SET'', ''c'', ''d'']) 1024
        (breaks_off (calm 5 [aof_file \<mapsto> set_record ''a'' ''b'' 0])) = (st, r, t', w') \<and> st = -1
      \<and> aof_text w' = set_record ''a'' ''b'' 0 @ p \<and> strict_prefix p (render op) \<and> op_key op = ''c''
      \<and> start_up (calm 9 (files w')) = Some (None, w2))"
proof -
  let ?t = "one_table ''a'' ''b'' 0" and ?w = "calm 5 [aof_file \<mapsto> set_record ''a'' ''b'' 0]"
  let ?cmd = "quote_args [''SET'', ''c'', ''d'']" and ?ops = "[Op_set ''a'' ''b'' 0]" and ?op = "Op_set ''c'' ''d'' 0"
  have contents: "aof_text ?w = set_record ''a'' ''b'' 0" by (simp add: aof_text_def)
  have field: "c_field ?cmd" by (simp add: c_field_def quote_args_def)
  have key: "touched ?cmd = {''c''}" by (simp add: touched_def quoted_arguments_roundtrip max_args_def)
  have run: "command_execute ?t ?cmd 1024 u = cmd_set 1024 [''SET'', ''c'', ''d''] ?t u" for u
    by (simp add: command_execute_def quoted_arguments_roundtrip max_args_def dispatch_def)
  have restart: "healthy (calm 9 (files u))" "aof_text (calm 9 (files u)) = aof_text u" for u
    by (simp_all add: aof_text_def)
  have vis: "visible m (tmap ?t) ''a'' = Some ''b''" for m by (simp add: visible_def live_at_iff)
  have ops: "\<forall>op \<in> set ?ops. good_op op" "good_op ?op" by (simp_all add: c_field_def)
  have d: "durable ?ops ?t (no_memory ?w)" "durable ?ops ?t (breaks_off ?w)"
    using durable_one [OF c_field_a_b(1,2), of 5] by (simp_all add: durable_def no_memory_def breaks_off_def aof_text_def)
  have w: "clock_ok (no_memory ?w)" "clock_ok (breaks_off ?w)" "now (no_memory ?w) = 5" "now (breaks_off ?w) = 5"
    "io_ok (no_memory ?w)" "mallocs (no_memory ?w) = sconst False" "aof_text (no_memory ?w) = aof_text ?w"
    by (simp_all add: no_memory_def breaks_off_def io_ok_def aof_text_def)
  obtain st1 r1 t1 u1 where c1: "cmd_set 1024 [''SET'', ''c'', ''d''] ?t (no_memory ?w) = (st1, r1, t1, u1)" by (metis prod_cases4)
  obtain st2 r2 t2 u2 where c2: "cmd_set 1024 [''SET'', ''c'', ''d''] ?t (breaks_off ?w) = (st2, r2, t2, u2)" by (metis prod_cases4)
  have "wf_table ?t" using d(1) by (simp add: durable_def)
  note s1 = set_without_memory [OF this w(5,6) c1] and s2 = set_breaks_off [of ?w, OF _ c2]
  have n: "now u1 = 5" "now u2 = 5" using s1(4) s2(3) by (simp_all add: now_def no_memory_def)
  have a: "aof_text (calm 9 (files u1)) = concat (map render (?ops @ [?op]))" using restart(2) s1(3) w(7) contents by simp
  have "\<exists>t2 w2. start_up (calm 9 (files u1)) = Some (Some t2, w2)"
    using start_up_durable [OF restart(1) _ a] ops by auto
  with crash_costs_one_command [OF d(1) w(1) field c1 [folded run] restart] n(1) w(3) obtain t3 w3 where
    good: "start_up (calm 9 (files u1)) = Some (Some t3, w3)" "visible (now w3) (tmap t3) ''a'' = Some ''b''"
    using vis by (fastforce simp: key)
  have p: "''SET '' \<noteq> []" "strict_prefix ''SET '' (render ?op)"
    by (simp_all add: set_record_def strict_prefix_def prefix_def)
  have b: "aof_text (calm 9 (files u2)) = concat (map render ?ops) @ ''SET ''" using restart(2) s2(2) contents by simp
  from start_up_torn [OF restart(1) ops p b] have "\<nexists>t2 w2. start_up (calm 9 (files u2)) = Some (Some t2, w2)" by auto
  with crash_costs_one_command [OF d(2) w(2) field c2 [folded run] restart] n(2) w(4) obtain op q w4 where
    torn: "op_key op = ''c''" "strict_prefix q (render op)" "aof_text u2 = aof_text (breaks_off ?w) @ q"
      "start_up (calm 9 (files u2)) = Some (None, w4)" by (auto simp: key)
  have "aof_text (breaks_off ?w) = aof_text ?w" by (simp add: breaks_off_def aof_text_def)
  with good torn c1 c2 s1(1,3) s2(1) w(7) contents show ?thesis unfolding run by auto
qed

text \<open>
  C23: after EXIT a restart is exact.  When the rewrite that EXIT makes has succeeded, the next start shows
  every reader exactly the keys and values the old table shows: nothing is lost and nothing that was
  overwritten, deleted or expired comes back.
\<close>

theorem restart_after_exit_exact:
  assumes "durable ops t w" "healthy w" "cmd_exit n [c] t w = (1, r, t', w')"
    and "healthy w1" "aof_text w1 = aof_text w'" "now w' \<le> now w1"
  shows "\<exists>t2 w2. start_up w1 = Some (Some t2, w2) \<and> visible (now w2) (tmap t2) = visible (now w2) (tmap t)"
proof -
  have "persistence_rewrite t w = (True, w')"
    using assms(3) by (auto simp: cmd_exit_def split: prod.splits if_splits)
  from exit_restart_exact [OF assms(1,2) this assms(4-6)] show ?thesis by blast
qed

theorem restart_after_exit_exact_witness:
  "\<exists>r w' t2 w2. cmd_exit 1024 [''EXIT''] (one_table ''a'' ''b'' 0) (calm 5 [aof_file \<mapsto> set_record ''a'' ''b'' 0]) =
      (1, r, one_table ''a'' ''b'' 0, w')
    \<and> start_up (calm (now w') (files w')) = Some (Some t2, w2) \<and> visible (now w2) (tmap t2) ''a'' = Some ''b''"
proof -
  let ?w = "calm 5 [aof_file \<mapsto> set_record ''a'' ''b'' 0]"
  obtain r w' where c: "cmd_exit 1024 [''EXIT''] (one_table ''a'' ''b'' 0) ?w = (1, r, one_table ''a'' ''b'' 0, w')"
    by (simp add: cmd_exit_def rewrite_ok)
  have "aof_text (calm (now w') (files w')) = aof_text w'" "now w' \<le> now (calm (now w') (files w'))"
    by (simp_all add: aof_text_def)
  from restart_after_exit_exact [OF durable_one [OF c_field_a_b(1,2)] _ c _ this] obtain t2 w2 where
    s: "start_up (calm (now w') (files w')) = Some (Some t2, w2)"
      "visible (now w2) (tmap t2) = visible (now w2) (tmap (one_table ''a'' ''b'' 0))" by auto
  have "visible (now w2) (tmap t2) ''a'' = Some ''b''" unfolding s(2) by (simp add: visible_def live_at_iff)
  with c s(1) show ?thesis by blast
qed

subsection \<open>Where recovery is not exact\<close>

text \<open>
  C38: an expired value uncovers the one it had replaced.  When a key was set without expiration and then set
  again with one, a reader of the running server sees no value after the expiration; a restart skips the
  expired record but has replayed the older one, so the older value is visible again.
\<close>

theorem expired_set_uncovers_old_value:
  assumes "durable [Op_set k v1 0, Op_set k v2 x] t w" "tmap t k = Some (v2, x)" "x \<noteq> 0"
    and "healthy w1" "aof_text w1 = aof_text w" "x \<le> now w1"
  shows "visible (now w1) (tmap t) k = None
    \<and> (\<exists>t2 w2. start_up w1 = Some (Some t2, w2) \<and> visible (now w2) (tmap t2) k = Some v1)"
proof
  show "visible (now w1) (tmap t) k = None" using assms(2,3,6) by (simp add: visible_def live_at_iff)
  let ?ops = "[Op_set k v1 0, Op_set k v2 x]"
  have "\<forall>op \<in> set ?ops. good_op op" "aof_text w1 = concat (map render ?ops)"
    using assms(1,5) by (simp_all add: durable_def)
  from start_up_durable [OF assms(4) this] obtain t2 w2 where
    s: "start_up w1 = Some (Some t2, w2)" "agrees (now w2) (log_map (now w1) ?ops) (tmap t2)" by blast
  then have "tmap t2 k = Some (v1, 0)" using assms(3,6) by (simp add: agrees_def log_map_def live_at_iff)
  with s(1) show "\<exists>t2 w2. start_up w1 = Some (Some t2, w2) \<and> visible (now w2) (tmap t2) k = Some v1"
    by (auto simp: visible_def live_at_iff)
qed

theorem expired_set_uncovers_old_value_witness:
  "\<exists>t2 w2. start_up (calm 20 [aof_file \<mapsto> set_record ''a'' ''old'' 0 @ set_record ''a'' ''b'' 10]) = Some (Some t2, w2)
    \<and> visible 20 (tmap (one_table ''a'' ''b'' 10)) ''a'' = None \<and> visible (now w2) (tmap t2) ''a'' = Some ''old''"
proof -
  let ?fs = "[aof_file \<mapsto> set_record ''a'' ''old'' 0 @ set_record ''a'' ''b'' 10]"
  have "durable [Op_set ''a'' ''old'' 0, Op_set ''a'' ''b'' 10] (one_table ''a'' ''b'' 10) (calm 5 ?fs)"
    by (auto simp: durable_def good_map_def aof_text_def agrees_def log_map_def live_at_iff c_field_def split: if_splits)
  moreover have "aof_text (calm 20 ?fs) = aof_text (calm 5 ?fs)" by (simp add: aof_text_def)
  ultimately show ?thesis
    using expired_set_uncovers_old_value [of "''a''" "''old''" "''b''" 10 "one_table ''a'' ''b'' 10" "calm 5 ?fs" "calm 20 ?fs"]
    by fastforce
qed

text \<open>
  C37: a file that cannot be opened is taken for a missing one, and the next EXIT erases it.  When \<^verbatim>\<open>fopen\<close> fails for another
  reason than that there is no file, the start succeeds with an empty table and leaves the file alone; an EXIT then replaces it by
  the empty log of that table.
\<close>

theorem unreadable_log_is_erased:
  assumes "mem_ok w" "io w = SCons (Io_err e) (sconst Io_ok)"
  shows "\<exists>t w1. start_up w = Some (Some t, w1) \<and> tmap t = Map.empty \<and> files w1 = files w
    \<and> (\<exists>r w2. cmd_exit n [c] t w1 = (1, r, t, w2) \<and> files w2 aof_file = Some [])"
proof -
  obtain t where t: "hash_table_create initial_size w = (Some t, w)" "wf_table t" "tmap t = Map.empty"
    using create_empty [OF assms(1)] by blast
  let ?w = "w\<lparr>io := sconst Io_ok\<rparr>"
  have up: "start_up w = Some (Some t, ?w)"
    using t(1) assms(2) by (simp add: start_up_def persistence_load_def fopen_read_def io_step_def)
  have "entries t = []"
  proof (rule ccontr)
    assume "entries t \<noteq> []"
    then obtain e where "e \<in> set (entries t)" by (cases "entries t") auto
    then have "find_entry t (key e) = Some e" using find_entry_iff [OF t(2)] by simp
    from tmap_find [OF this] show False using t(3) by simp
  qed
  then have "persistence_rewrite t ?w = (True, ?w\<lparr>files := (files w)(aof_file \<mapsto> [], tmp_file := None)\<rparr>)"
    using rewrite_ok [of ?w t] by (simp add: io_ok_def)
  moreover have "aof_file \<noteq> tmp_file" by (simp add: aof_file_def tmp_file_def)
  ultimately have "\<exists>r w2. cmd_exit n [c] t ?w = (1, r, t, w2) \<and> files w2 aof_file = Some []"
    by (simp add: cmd_exit_def)
  with up t(3) show ?thesis by auto
qed

theorem unreadable_log_is_erased_witness:
  "\<exists>t w1 r w2. start_up ((calm 5 [aof_file \<mapsto> set_record ''a'' ''b'' 0])\<lparr>io := SCons (Io_err 0) (sconst Io_ok)\<rparr>) = Some (Some t, w1)
    \<and> cmd_exit 1024 [''EXIT''] t w1 = (1, r, t, w2) \<and> files w2 aof_file = Some []"
  using unreadable_log_is_erased [of "(calm 5 [aof_file \<mapsto> set_record ''a'' ''b'' 0])\<lparr>io := SCons (Io_err 0) (sconst Io_ok)\<rparr>" 0 1024 "''EXIT''"]
  by auto

text \<open>
  C39: a refused SET can take effect later.  When memory runs out after the record was appended, the client is
  told that the key was not set and the table still has the old binding, but the record is in the file:
  the next start binds the key to the refused value.
\<close>

theorem refused_set_returns:
  assumes "durable ops t w" "io_ok w" "clock_ok w" "mallocs w = sconst False"
    and "c_field k" "c_field v" "cmd_set n [c, k, v] t w = (st, r, t', w')"
    and "healthy w1" "aof_text w1 = aof_text w'" "now w \<le> now w1"
  shows "st = -1 \<and> tmap t' = tmap t
    \<and> (\<exists>t2 w2. start_up w1 = Some (Some t2, w2) \<and> visible (now w2) (tmap t2) k = Some v)"
proof -
  have d: "wf_table t" "\<forall>op \<in> set ops. good_op op" "aof_text w = concat (map render ops)"
    using assms(1) by (simp_all add: durable_def)
  note refused = set_without_memory [OF d(1) assms(2,4,7)]
  have "\<forall>op \<in> set (ops @ [Op_set k v 0]). good_op op" "aof_text w1 = concat (map render (ops @ [Op_set k v 0]))"
    using d assms(5,6,9) refused(3) by auto
  from start_up_durable [OF assms(8) this] obtain t2 w2 where
    s: "start_up w1 = Some (Some t2, w2)" "agrees (now w2) (log_map (now w1) (ops @ [Op_set k v 0])) (tmap t2)" by blast
  then have "tmap t2 k = Some (v, 0)" by (simp add: agrees_def live_at_iff)
  with s(1) refused(1,2) show ?thesis by (auto simp: visible_def live_at_iff)
qed

theorem refused_set_returns_witness:
  "\<exists>st r t' w' t2 w2. cmd_set 1024 [''SET'', ''a'', ''new''] (one_table ''a'' ''b'' 0)
      (no_memory (calm 5 [aof_file \<mapsto> set_record ''a'' ''b'' 0])) = (st, r, t', w') \<and> st = -1
    \<and> start_up (calm 9 (files w')) = Some (Some t2, w2) \<and> visible (now w2) (tmap t2) ''a'' = Some ''new''"
proof -
  let ?w = "no_memory (calm 5 [aof_file \<mapsto> set_record ''a'' ''b'' 0])"
  obtain st r t' w' where c: "cmd_set 1024 [''SET'', ''a'', ''new''] (one_table ''a'' ''b'' 0) ?w = (st, r, t', w')"
    by (metis prod_cases4)
  have w: "io_ok ?w" "clock_ok ?w" "mallocs ?w = sconst False" "now ?w \<le> now (calm 9 (files w'))"
    by (simp_all add: no_memory_def io_ok_def)
  have d: "durable [Op_set ''a'' ''b'' 0] (one_table ''a'' ''b'' 0) ?w"
    using durable_one [OF c_field_a_b(1,2), of 5] by (simp add: durable_def no_memory_def aof_text_def)
  have f: "c_field ''new''" "aof_text (calm 9 (files w')) = aof_text w'" by (simp_all add: c_field_def aof_text_def)
  from refused_set_returns [OF d w(1-3) c_field_a_b(1) f(1) c _ f(2) w(4)] c show ?thesis by auto
qed

end
